(* ===== verification/Go_Prelude.thy ===== *)
theory Go_Prelude
  imports Main "HOL-Library.Word" "HOL-Library.AList"
begin

text \<open>
  What the Go sources of the repository share with each other and with Go's standard library:
  the machine integers, the byte codecs of \<^verbatim>\<open>encoding/binary\<close>, the readers of
  \<^verbatim>\<open>io\<close> on an in-memory buffer, Go maps, and the collections of simplification rules the
  component theories feed.

  \<^item> \<open>uintN\<close> is \<open>N word\<close>: \<open>+\<close>, \<open>-\<close> and \<open>*\<close> wrap as they do in Go. A
    \<^verbatim>\<open>common.Hash\<close> (\<open>[32]byte\<close>) is a \<open>256 word\<close> whose most significant byte is
    element 0; so its length is part of its type.
  \<^item> A Go map is an association list with distinct keys. The order of the list stands for
    nothing in the source; the lemmas that matter are stated through \<open>map_of\<close>.
  \<^item> Failing code returns \<open>'e + 'a\<close>, with \<open>Inl\<close> the error.
\<close>

named_theorems codec_simps \<open>rewrite rules for the byte codecs\<close>
named_theorems gomap_simps \<open>rewrite rules for Go maps\<close>

type_synonym u8 = "8 word"
type_synonym u16 = "16 word"
type_synonym u32 = "32 word"
type_synonym u64 = "64 word"
type_synonym hash = "256 word"
type_synonym bytes = "u8 list"

section \<open>Base-256 digits and fixed-width integers\<close>

fun le_digits :: "nat \<Rightarrow> nat \<Rightarrow> nat list" where
  "le_digits 0 x = []"
| "le_digits (Suc n) x = x mod 256 # le_digits n (x div 256)"

fun of_le_digits :: "nat list \<Rightarrow> nat" where
  "of_le_digits [] = 0"
| "of_le_digits (d # ds) = d + 256 * of_le_digits ds"

text \<open>\<open>binary.LittleEndian.PutUintN\<close> and \<open>binary.LittleEndian.UintN\<close>, at the width
  \<open>8 * n\<close> the caller names.\<close>

definition le_bytes :: "nat \<Rightarrow> 'a::len word \<Rightarrow> bytes" where
  "le_bytes n w = map of_nat (le_digits n (unat w))"

definition of_le_bytes :: "bytes \<Rightarrow> 'a::len word" where
  "of_le_bytes bs = of_nat (of_le_digits (map unat bs))"

text \<open>\<open>binary.BigEndian\<close>, and the bytes of a fixed-size array.\<close>

definition be_bytes :: "nat \<Rightarrow> 'a::len word \<Rightarrow> bytes" where
  "be_bytes n w = rev (le_bytes n w)"

definition of_be_bytes :: "bytes \<Rightarrow> 'a::len word" where
  "of_be_bytes bs = of_le_bytes (rev bs)"

lemma length_le_digits [simp]: "length (le_digits n x) = n"
  by (induction n arbitrary: x) auto

lemma le_digits_less: "d \<in> set (le_digits n x) \<Longrightarrow> d < 256"
  by (induction n arbitrary: x) auto

lemma of_le_le_digits: "of_le_digits (le_digits n x) = x mod 256 ^ n"
proof (induction n arbitrary: x)
  case 0
  then show ?case by simp
next
  case (Suc n)
  have "x mod (256 * 256 ^ n) = 256 * (x div 256 mod 256 ^ n) + x mod 256"
    by (rule mod_mult2_eq)
  with Suc show ?case by simp
qed

lemma of_le_digits_less: "\<forall>d \<in> set ds. d < 256 \<Longrightarrow> of_le_digits ds < 256 ^ length ds"
proof (induction ds)
  case Nil
  then show ?case by simp
next
  case (Cons d ds)
  then have "of_le_digits ds + 1 \<le> 256 ^ length ds" and "d < 256" by auto
  then have "256 * (of_le_digits ds + 1) \<le> 256 * 256 ^ length ds" by simp
  with \<open>d < 256\<close> show ?case by simp
qed

lemma le_of_le_digits: "\<forall>d \<in> set ds. d < 256 \<Longrightarrow> le_digits (length ds) (of_le_digits ds) = ds"
  by (induction ds) auto

lemma length_le_bytes [simp]: "length (le_bytes n w) = n"
  by (simp add: le_bytes_def)

lemma length_be_bytes [simp]: "length (be_bytes n w) = n"
  by (simp add: be_bytes_def)

lemma unat_u8_less: "unat (b :: u8) < 256"
  by (rule order.strict_trans2 [OF unsigned_less]) simp

lemma unat_of_nat_u8: "d < 256 \<Longrightarrow> unat (of_nat d :: u8) = d"
  by (simp add: unat_of_nat)

lemma map_unat_le_digits: "map (unat \<circ> (of_nat :: nat \<Rightarrow> u8)) (le_digits n x) = le_digits n x"
  by (rule map_idI) (auto simp: unat_of_nat_u8 dest: le_digits_less)

lemma of_le_le_bytes [codec_simps]:
  fixes w :: "'a::len word"
  assumes "LENGTH('a) \<le> 8 * n"
  shows "of_le_bytes (le_bytes n w) = w"
proof -
  have "unat w < 2 ^ LENGTH('a)" by (rule unsigned_less)
  also have "(2 :: nat) ^ LENGTH('a) \<le> 2 ^ (8 * n)"
    using assms by (simp add: power_increasing)
  also have "(2 :: nat) ^ (8 * n) = 256 ^ n"
    by (simp add: power_mult)
  finally show ?thesis
    by (simp add: of_le_bytes_def le_bytes_def map_unat_le_digits of_le_le_digits)
qed

lemma le_of_le_bytes [codec_simps]:
  assumes "8 * length bs \<le> LENGTH('a)"
  shows "le_bytes (length bs) (of_le_bytes bs :: 'a::len word) = bs"
proof -
  let ?ds = "map unat bs"
  have small: "\<forall>d \<in> set ?ds. d < 256" by (auto simp: unat_u8_less)
  have "of_le_digits ?ds < 256 ^ length bs"
    using of_le_digits_less [OF small] by simp
  also have "(256 :: nat) ^ length bs = 2 ^ (8 * length bs)"
    by (simp add: power_mult)
  also have "(2 :: nat) ^ (8 * length bs) \<le> 2 ^ LENGTH('a)"
    using assms by (simp add: power_increasing)
  finally have "unat (of_le_bytes bs :: 'a word) = of_le_digits ?ds"
    by (simp add: of_le_bytes_def unat_of_nat)
  moreover have "le_digits (length bs) (of_le_digits ?ds) = ?ds"
    using le_of_le_digits [OF small] by simp
  ultimately show ?thesis
    by (simp add: le_bytes_def comp_def)
qed

lemma of_be_be_bytes [codec_simps]:
  fixes w :: "'a::len word"
  assumes "LENGTH('a) \<le> 8 * n"
  shows "of_be_bytes (be_bytes n w) = w"
  using assms by (simp add: of_be_bytes_def be_bytes_def of_le_le_bytes)

lemma be_of_be_bytes [codec_simps]:
  assumes "8 * length bs \<le> LENGTH('a)"
  shows "be_bytes (length bs) (of_be_bytes bs :: 'a::len word) = bs"
  using assms le_of_le_bytes [of "rev bs", where 'a = 'a]
  by (simp add: of_be_bytes_def be_bytes_def)

lemma be_bytes_inject:
  fixes v w :: "'a::len word"
  assumes "LENGTH('a) \<le> 8 * n"
  shows "be_bytes n v = be_bytes n w \<longleftrightarrow> v = w"
  using assms by (metis of_be_be_bytes)

section \<open>Lists of optional values\<close>

lemma those_map: "\<forall>x \<in> set xs. g x = Some (h x) \<Longrightarrow> those (map g xs) = Some (map h xs)"
  by (induction xs) auto

section \<open>Widening conversions\<close>

lemma unat_of_nat_small: "n < 2 ^ LENGTH('a) \<Longrightarrow> unat (of_nat n :: 'a::len word) = n"
  by (simp add: unat_of_nat)

lemma unat_u16_less: "unat (a :: u16) < 65536"
  by (rule order.strict_trans2 [OF unsigned_less]) simp

lemma unat_u64_less: "unat (a :: u64) < 2 ^ 64"
  by (rule order.strict_trans2 [OF unsigned_less]) simp

lemma unat_ucast_u16 [simp]: "unat (ucast (a :: u16) :: u64) = unat a"
  by (simp add: unsigned_ucast_eq take_bit_nat_eq_self_iff) (rule order.strict_trans2 [OF unsigned_less], simp)

lemma unat_ucast_u32 [simp]: "unat (ucast (a :: u32) :: u64) = unat a"
  by (simp add: unsigned_ucast_eq take_bit_nat_eq_self_iff) (rule order.strict_trans2 [OF unsigned_less], simp)

lemma ucast_u16_inject [simp]: "(ucast (a :: u16) :: u64) = ucast b \<longleftrightarrow> a = b"
  by (simp add: word_unat_eq_iff)

lemma ucast_u16_le [simp]: "(ucast (a :: u16) :: u64) \<le> ucast b \<longleftrightarrow> a \<le> b"
  by (simp add: word_le_nat_alt)

section \<open>Reading from an in-memory buffer\<close>

text \<open>
  \<open>io.EOF\<close> and \<open>io.ErrUnexpectedEOF\<close>. \<open>read_full n\<close> is \<open>io.ReadFull\<close> with a
  buffer of \<open>n\<close> bytes on a \<^verbatim>\<open>bytes.Buffer\<close> or \<^verbatim>\<open>bytes.Reader\<close> whose unread
  content is the argument: nothing to read at all is \<open>EOF\<close>, a short read is
  \<open>ErrUnexpectedEOF\<close>, and an empty buffer (\<open>n = 0\<close>) always succeeds. It returns what was
  read and what is left.
\<close>

datatype read_error = EOF | ErrUnexpectedEOF

definition read_full :: "nat \<Rightarrow> bytes \<Rightarrow> read_error + bytes \<times> bytes" where
  "read_full n bs =
     (if n \<le> length bs then Inr (take n bs, drop n bs)
      else if bs = [] then Inl EOF else Inl ErrUnexpectedEOF)"

fun read_byte :: "bytes \<Rightarrow> read_error + u8 \<times> bytes" where
  "read_byte [] = Inl EOF"
| "read_byte (b # bs) = Inr (b, bs)"

lemma read_full_append [codec_simps]: "length xs = n \<Longrightarrow> read_full n (xs @ ys) = Inr (xs, ys)"
  by (auto simp: read_full_def)

lemma read_full_InrD: "read_full n bs = Inr (xs, ys) \<Longrightarrow> bs = xs @ ys \<and> length xs = n"
  by (auto simp: read_full_def split: if_splits)

lemma read_byte_InrD: "read_byte bs = Inr (b, ys) \<Longrightarrow> bs = b # ys"
  by (cases bs) auto

section \<open>Go maps\<close>

type_synonym ('k, 'v) gomap = "('k \<times> 'v) list"

definition gm_get :: "('k, 'v) gomap \<Rightarrow> 'k \<Rightarrow> 'v option" where
  "gm_get m k = map_of m k"

definition gm_put :: "'k \<Rightarrow> 'v \<Rightarrow> ('k, 'v) gomap \<Rightarrow> ('k, 'v) gomap" where
  "gm_put k v m = AList.update k v m"

definition gm_del :: "'k \<Rightarrow> ('k, 'v) gomap \<Rightarrow> ('k, 'v) gomap" where
  "gm_del k m = AList.delete k m"

definition gm_len :: "('k, 'v) gomap \<Rightarrow> nat" where
  "gm_len m = length m"

definition gm_inv :: "('k, 'v) gomap \<Rightarrow> bool" where
  "gm_inv m \<longleftrightarrow> distinct (map fst m)"

text \<open>
  The contract the components rely on: what a lookup returns after an insertion and after a
  deletion, and how many keys there are.
\<close>

locale go_map =
  fixes empty :: 'm
    and get :: "'m \<Rightarrow> 'k \<Rightarrow> 'v option"
    and put :: "'k \<Rightarrow> 'v \<Rightarrow> 'm \<Rightarrow> 'm"
    and del :: "'k \<Rightarrow> 'm \<Rightarrow> 'm"
    and len :: "'m \<Rightarrow> nat"
    and inv :: "'m \<Rightarrow> bool"
  assumes get_empty: "get empty k = None"
    and get_put: "get (put k v m) j = (if j = k then Some v else get m j)"
    and get_del: "get (del k m) j = (if j = k then None else get m j)"
    and len_dom: "inv m \<Longrightarrow> len m = card (dom (get m))"
    and fin_dom: "finite (dom (get m))"
    and inv_empty: "inv empty"
    and inv_put: "inv m \<Longrightarrow> inv (put k v m)"
    and inv_del: "inv m \<Longrightarrow> inv (del k m)"
begin

lemma dom_put: "dom (get (put k v m)) = insert k (dom (get m))"
  by (auto simp: dom_def get_put)

lemma dom_del: "dom (get (del k m)) = dom (get m) - {k}"
  by (auto simp: dom_def get_del)

lemma len_put_new: "inv m \<Longrightarrow> get m k = None \<Longrightarrow> len (put k v m) = Suc (len m)"
  by (simp add: len_dom inv_put dom_put fin_dom domIff)

lemma len_put_old: "inv m \<Longrightarrow> get m k \<noteq> None \<Longrightarrow> len (put k v m) = len m"
  by (simp add: len_dom inv_put dom_put insert_absorb domIff)

lemma len_del_old: "inv m \<Longrightarrow> get m k \<noteq> None \<Longrightarrow> Suc (len (del k m)) = len m"
proof -
  assume "inv m" and "get m k \<noteq> None"
  then have "k \<in> dom (get m)" by (simp add: domIff)
  then have "Suc (card (dom (get m) - {k})) = card (dom (get m))"
    by (rule card_Suc_Diff1 [OF fin_dom])
  with \<open>inv m\<close> show ?thesis by (simp add: len_dom inv_del dom_del)
qed

end

interpretation gm: go_map "[]" gm_get gm_put gm_del gm_len gm_inv
proof unfold_locales
  fix m :: "('k, 'v) gomap"
  assume "gm_inv m"
  then show "gm_len m = card (dom (gm_get m))"
    using distinct_card [of "map fst m"]
    by (simp add: gm_len_def gm_get_def [abs_def] gm_inv_def dom_map_of_conv_image_fst)
qed (auto simp: gm_get_def [abs_def] gm_put_def gm_del_def gm_inv_def update_conv' AList.delete_conv'
    distinct_update distinct_delete finite_dom_map_of)

lemmas [gomap_simps] = gm.get_empty gm.get_put gm.get_del gm.inv_empty gm.inv_put gm.inv_del

lemma gm_get_mem: "gm_get m k = Some v \<Longrightarrow> (k, v) \<in> set m"
  by (simp add: gm_get_def map_of_SomeD)

lemma gm_get_eq_mem: "gm_inv m \<Longrightarrow> gm_get m k = Some v \<longleftrightarrow> (k, v) \<in> set m"
  by (simp add: gm_get_def gm_inv_def)

end
