(* ===== verification/Eth_Types.thy ===== *)
theory Eth_Types
  imports Go_Prelude
begin

text \<open>
  Block identifiers and references: \<^verbatim>\<open>rhs-service/eth/id.go\<close>. A Go struct is a record with
  the source's fields; Go's \<open>==\<close> on structs is equality of records, and the zero value of a
  struct is the record of zeros.
\<close>

record block_id =
  bid_hash :: hash
  bid_number :: u64

record l1_block_ref =
  l1_hash :: hash
  l1_number :: u64
  l1_parent :: hash
  l1_time :: u64

text \<open>\<open>BlockRef\<close> is an alias of \<open>L1BlockRef\<close> in the source.\<close>

type_synonym block_ref = l1_block_ref

record l2_block_ref =
  l2_hash :: hash
  l2_number :: u64
  l2_parent :: hash
  l2_time :: u64
  l2_origin :: block_id
  l2_seq :: u64

definition zero_id :: block_id where
  "zero_id = \<lparr>bid_hash = 0, bid_number = 0\<rparr>"

definition zero_l1 :: l1_block_ref where
  "zero_l1 = \<lparr>l1_hash = 0, l1_number = 0, l1_parent = 0, l1_time = 0\<rparr>"

definition zero_l2 :: l2_block_ref where
  "zero_l2 = \<lparr>l2_hash = 0, l2_number = 0, l2_parent = 0, l2_time = 0, l2_origin = zero_id, l2_seq = 0\<rparr>"

definition L1_ID :: "l1_block_ref \<Rightarrow> block_id" where
  "L1_ID r = \<lparr>bid_hash = l1_hash r, bid_number = l1_number r\<rparr>"

definition L1_ParentID :: "l1_block_ref \<Rightarrow> block_id" where
  "L1_ParentID r =
     (let n = bid_number (L1_ID r); n = (if n > 0 then n - 1 else n)
      in \<lparr>bid_hash = l1_parent r, bid_number = n\<rparr>)"

definition L2_ID :: "l2_block_ref \<Rightarrow> block_id" where
  "L2_ID r = \<lparr>bid_hash = l2_hash r, bid_number = l2_number r\<rparr>"

definition L2_ParentID :: "l2_block_ref \<Rightarrow> block_id" where
  "L2_ParentID r =
     (let n = bid_number (L2_ID r); n = (if n > 0 then n - 1 else n)
      in \<lparr>bid_hash = l2_parent r, bid_number = n\<rparr>)"

definition L2_BlockRef :: "l2_block_ref \<Rightarrow> block_ref" where
  "L2_BlockRef r =
     \<lparr>l1_hash = l2_hash r, l1_number = l2_number r, l1_parent = l2_parent r, l1_time = l2_time r\<rparr>"

lemma L1_ID_sel [simp]:
  "bid_hash (L1_ID r) = l1_hash r" "bid_number (L1_ID r) = l1_number r"
  by (simp_all add: L1_ID_def)

lemma L2_ID_sel [simp]:
  "bid_hash (L2_ID r) = l2_hash r" "bid_number (L2_ID r) = l2_number r"
  by (simp_all add: L2_ID_def)

lemma L1_ParentID_number:
  "unat (bid_number (L1_ParentID r)) = unat (l1_number r) - 1"
  by (auto simp: L1_ParentID_def Let_def word_gt_0 unat_minus_one)

end
