(* ===== verification/Rollup_Config.thy ===== *)
theory Rollup_Config
  imports Eth_Types
begin

text \<open>
  The rollup configuration (\<^verbatim>\<open>rhs-node/rollup/types.go\<close>) and the chain specification derived
  from it (\<^verbatim>\<open>rhs-node/rollup/chain_spec.go\<close>): fork activation, the consistency check of the
  configuration, block numbers and timestamps, the engine API version for a timestamp, and the
  tracker of the active fork.

  A nil-able \<open>*uint64\<close> is a \<open>u64 option\<close>; \<open>L2ChainID\<close> (a \<open>*big.Int\<close>) is an
  \<open>int option\<close>. \<open>ChainOpConfig\<close>, a struct of the execution client that no operation
  here reads, has no field.
\<close>

record system_config =
  sc_GasLimit :: u64
  sc_EIP1559Params :: "64 word"
  sc_OperatorFeeParams :: "256 word"
  sc_MarshalPreHolocene :: bool

record genesis =
  gen_L2 :: block_id
  gen_L2Time :: u64
  gen_SystemConfig :: system_config

record config =
  cfg_Genesis :: genesis
  cfg_BlockTime :: u64
  cfg_MaxSequencerDrift :: u64
  cfg_SeqWindowSize :: u64
  cfg_ChannelTimeoutBedrock :: u64
  cfg_L2ChainID :: "int option"
  cfg_RegolithTime :: "u64 option"
  cfg_CanyonTime :: "u64 option"
  cfg_DeltaTime :: "u64 option"
  cfg_EcotoneTime :: "u64 option"
  cfg_FjordTime :: "u64 option"
  cfg_GraniteTime :: "u64 option"
  cfg_HoloceneTime :: "u64 option"
  cfg_IsthmusTime :: "u64 option"
  cfg_JovianTime :: "u64 option"
  cfg_InteropTime :: "u64 option"
  cfg_PectraBlobScheduleTime :: "u64 option"

text \<open>
  Fork names are strings in the source, with these constants. \<open>ForkEmpty\<close> is \<open>""\<close>, the
  value of a tracker that is not initialised and the answer "no fork"; \<open>ForkNone\<close> is the
  constant \<open>None\<close>.
\<close>

datatype fork_name =
  ForkEmpty | Bedrock | Regolith | Canyon | Delta | Ecotone | Fjord | Granite | Holocene
  | Isthmus | Jovian | Interop | ForkNone

datatype config_error =
  ErrBlockTimeZero | ErrMissingChannelTimeout | ErrInvalidSeqWindowSize | ErrInvalidMaxSeqDrift
  | ErrMissingGenesisL2Hash | ErrMissingGenesisL2Time | ErrMissingGasLimit | ErrMissingL2ChainID
  | ErrL2ChainIDNotPositive
  | PriorForkMissing fork_name fork_name
  | PriorForkHigher fork_name fork_name

section \<open>Fork activation\<close>

text \<open>\<open>time != nil && timestamp >= *time\<close>, the body shared by the ten \<open>Is<Fork>\<close> methods.\<close>

definition fork_active :: "u64 option \<Rightarrow> u64 \<Rightarrow> bool" where
  "fork_active tm t = (case tm of None \<Rightarrow> False | Some x \<Rightarrow> t \<ge> x)"

definition IsRegolith :: "config \<Rightarrow> u64 \<Rightarrow> bool" where
  "IsRegolith c t = fork_active (cfg_RegolithTime c) t"

definition IsCanyon :: "config \<Rightarrow> u64 \<Rightarrow> bool" where
  "IsCanyon c t = fork_active (cfg_CanyonTime c) t"

definition IsDelta :: "config \<Rightarrow> u64 \<Rightarrow> bool" where
  "IsDelta c t = fork_active (cfg_DeltaTime c) t"

definition IsEcotone :: "config \<Rightarrow> u64 \<Rightarrow> bool" where
  "IsEcotone c t = fork_active (cfg_EcotoneTime c) t"

definition IsFjord :: "config \<Rightarrow> u64 \<Rightarrow> bool" where
  "IsFjord c t = fork_active (cfg_FjordTime c) t"

definition IsGranite :: "config \<Rightarrow> u64 \<Rightarrow> bool" where
  "IsGranite c t = fork_active (cfg_GraniteTime c) t"

definition IsHolocene :: "config \<Rightarrow> u64 \<Rightarrow> bool" where
  "IsHolocene c t = fork_active (cfg_HoloceneTime c) t"

definition IsIsthmus :: "config \<Rightarrow> u64 \<Rightarrow> bool" where
  "IsIsthmus c t = fork_active (cfg_IsthmusTime c) t"

definition IsJovian :: "config \<Rightarrow> u64 \<Rightarrow> bool" where
  "IsJovian c t = fork_active (cfg_JovianTime c) t"

definition IsInterop :: "config \<Rightarrow> u64 \<Rightarrow> bool" where
  "IsInterop c t = fork_active (cfg_InteropTime c) t"

lemmas is_fork_defs = IsRegolith_def IsCanyon_def IsDelta_def IsEcotone_def IsFjord_def
  IsGranite_def IsHolocene_def IsIsthmus_def IsJovian_def IsInterop_def

text \<open>The body of the ten \<open>Is<Fork>ActivationBlock\<close> methods, over the fork's own test.\<close>

definition activation_block :: "(u64 \<Rightarrow> bool) \<Rightarrow> u64 \<Rightarrow> u64 \<Rightarrow> bool" where
  "activation_block active bt t \<longleftrightarrow> active t \<and> t \<ge> bt \<and> \<not> active (t - bt)"

definition IsRegolithActivationBlock :: "config \<Rightarrow> u64 \<Rightarrow> bool" where
  "IsRegolithActivationBlock c t = activation_block (IsRegolith c) (cfg_BlockTime c) t"

definition IsCanyonActivationBlock :: "config \<Rightarrow> u64 \<Rightarrow> bool" where
  "IsCanyonActivationBlock c t = activation_block (IsCanyon c) (cfg_BlockTime c) t"

definition IsDeltaActivationBlock :: "config \<Rightarrow> u64 \<Rightarrow> bool" where
  "IsDeltaActivationBlock c t = activation_block (IsDelta c) (cfg_BlockTime c) t"

definition IsEcotoneActivationBlock :: "config \<Rightarrow> u64 \<Rightarrow> bool" where
  "IsEcotoneActivationBlock c t = activation_block (IsEcotone c) (cfg_BlockTime c) t"

definition IsFjordActivationBlock :: "config \<Rightarrow> u64 \<Rightarrow> bool" where
  "IsFjordActivationBlock c t = activation_block (IsFjord c) (cfg_BlockTime c) t"

definition IsGraniteActivationBlock :: "config \<Rightarrow> u64 \<Rightarrow> bool" where
  "IsGraniteActivationBlock c t = activation_block (IsGranite c) (cfg_BlockTime c) t"

definition IsHoloceneActivationBlock :: "config \<Rightarrow> u64 \<Rightarrow> bool" where
  "IsHoloceneActivationBlock c t = activation_block (IsHolocene c) (cfg_BlockTime c) t"

definition IsIsthmusActivationBlock :: "config \<Rightarrow> u64 \<Rightarrow> bool" where
  "IsIsthmusActivationBlock c t = activation_block (IsIsthmus c) (cfg_BlockTime c) t"

definition IsJovianActivationBlock :: "config \<Rightarrow> u64 \<Rightarrow> bool" where
  "IsJovianActivationBlock c t = activation_block (IsJovian c) (cfg_BlockTime c) t"

definition IsInteropActivationBlock :: "config \<Rightarrow> u64 \<Rightarrow> bool" where
  "IsInteropActivationBlock c t = activation_block (IsInterop c) (cfg_BlockTime c) t"

lemmas activation_block_defs = IsRegolithActivationBlock_def IsCanyonActivationBlock_def
  IsDeltaActivationBlock_def IsEcotoneActivationBlock_def IsFjordActivationBlock_def
  IsGraniteActivationBlock_def IsHoloceneActivationBlock_def IsIsthmusActivationBlock_def
  IsJovianActivationBlock_def IsInteropActivationBlock_def

definition IsActivationBlock :: "config \<Rightarrow> u64 \<Rightarrow> u64 \<Rightarrow> fork_name" where
  "IsActivationBlock c oldTime newTime =
     (if IsHolocene c newTime \<and> \<not> IsHolocene c oldTime then Holocene else ForkEmpty)"

text \<open>\<open>switch\<close> with \<open>fallthrough\<close>: every case also runs the cases after it.\<close>

definition ActivateAtGenesis :: "config \<Rightarrow> fork_name \<Rightarrow> config" where
  "ActivateAtGenesis c f =
     (let at_Regolith = (\<lambda>c. c\<lparr>cfg_RegolithTime := Some 0\<rparr>);
          at_Canyon = (\<lambda>c. at_Regolith (c\<lparr>cfg_CanyonTime := Some 0\<rparr>));
          at_Delta = (\<lambda>c. at_Canyon (c\<lparr>cfg_DeltaTime := Some 0\<rparr>));
          at_Ecotone = (\<lambda>c. at_Delta (c\<lparr>cfg_EcotoneTime := Some 0\<rparr>));
          at_Fjord = (\<lambda>c. at_Ecotone (c\<lparr>cfg_FjordTime := Some 0\<rparr>));
          at_Granite = (\<lambda>c. at_Fjord (c\<lparr>cfg_GraniteTime := Some 0\<rparr>));
          at_Holocene = (\<lambda>c. at_Granite (c\<lparr>cfg_HoloceneTime := Some 0\<rparr>));
          at_Isthmus = (\<lambda>c. at_Holocene (c\<lparr>cfg_IsthmusTime := Some 0\<rparr>));
          at_Jovian = (\<lambda>c. at_Isthmus (c\<lparr>cfg_JovianTime := Some 0\<rparr>));
          at_Interop = (\<lambda>c. at_Jovian (c\<lparr>cfg_InteropTime := Some 0\<rparr>))
      in case f of
           Interop \<Rightarrow> at_Interop c
         | Jovian \<Rightarrow> at_Jovian c
         | Isthmus \<Rightarrow> at_Isthmus c
         | Holocene \<Rightarrow> at_Holocene c
         | Granite \<Rightarrow> at_Granite c
         | Fjord \<Rightarrow> at_Fjord c
         | Ecotone \<Rightarrow> at_Ecotone c
         | Delta \<Rightarrow> at_Delta c
         | Canyon \<Rightarrow> at_Canyon c
         | Regolith \<Rightarrow> at_Regolith c
         | Bedrock \<Rightarrow> c
         | ForkNone \<Rightarrow> c
         | ForkEmpty \<Rightarrow> c)"

section \<open>The configuration check\<close>

text \<open>\<open>None\<close> is the nil error.\<close>

definition checkFork :: "u64 option \<Rightarrow> u64 option \<Rightarrow> fork_name \<Rightarrow> fork_name \<Rightarrow> config_error option" where
  "checkFork a b aName bName =
     (case (a, b) of
        (None, None) \<Rightarrow> None
      | (None, Some y) \<Rightarrow> Some (PriorForkMissing bName aName)
      | (Some x, None) \<Rightarrow> None
      | (Some x, Some y) \<Rightarrow> if x > y then Some (PriorForkHigher bName aName) else None)"

definition validateAltDAConfig :: "config \<Rightarrow> config_error option" where
  "validateAltDAConfig c = None"

text \<open>\<open>err1 orElse err2\<close>: \<open>if err := ...; err != nil { return err }\<close> followed by the rest.\<close>

definition or_else :: "'e option \<Rightarrow> 'e option \<Rightarrow> 'e option" where
  "or_else a b = (case a of None \<Rightarrow> b | Some e \<Rightarrow> Some e)"

definition Config_Check :: "config \<Rightarrow> config_error option" where
  "Config_Check c =
     (if cfg_BlockTime c = 0 then Some ErrBlockTimeZero
      else if cfg_ChannelTimeoutBedrock c = 0 then Some ErrMissingChannelTimeout
      else if cfg_SeqWindowSize c < 2 then Some ErrInvalidSeqWindowSize
      else if cfg_MaxSequencerDrift c = 0 then Some ErrInvalidMaxSeqDrift
      else if bid_hash (gen_L2 (cfg_Genesis c)) = 0 then Some ErrMissingGenesisL2Hash
      else if gen_L2Time (cfg_Genesis c) = 0 then Some ErrMissingGenesisL2Time
      else if sc_GasLimit (gen_SystemConfig (cfg_Genesis c)) = 0 then Some ErrMissingGasLimit
      else case cfg_L2ChainID c of
        None \<Rightarrow> Some ErrMissingL2ChainID
      | Some chainID \<Rightarrow>
          if sgn chainID < 1 then Some ErrL2ChainIDNotPositive
          else or_else (validateAltDAConfig c)
              (or_else (checkFork (cfg_RegolithTime c) (cfg_CanyonTime c) Regolith Canyon)
              (or_else (checkFork (cfg_CanyonTime c) (cfg_DeltaTime c) Canyon Delta)
              (or_else (checkFork (cfg_DeltaTime c) (cfg_EcotoneTime c) Delta Ecotone)
              (or_else (checkFork (cfg_EcotoneTime c) (cfg_FjordTime c) Ecotone Fjord)
              (or_else (checkFork (cfg_FjordTime c) (cfg_GraniteTime c) Fjord Granite)
              (or_else (checkFork (cfg_GraniteTime c) (cfg_HoloceneTime c) Granite Holocene)
              (checkFork (cfg_HoloceneTime c) (cfg_IsthmusTime c) Holocene Isthmus))))))))"

section \<open>Block numbers and timestamps\<close>

definition TimestampForBlock :: "config \<Rightarrow> u64 \<Rightarrow> u64" where
  "TimestampForBlock c blockNumber =
     gen_L2Time (cfg_Genesis c)
       + ((blockNumber - bid_number (gen_L2 (cfg_Genesis c))) * cfg_BlockTime c)"

text \<open>\<open>Inl\<close>: the genesis time was not reached, or Go's integer division by zero panics.\<close>

datatype target_error = BeforeGenesis u64 | DivideByZero

definition TargetBlockNumber :: "config \<Rightarrow> u64 \<Rightarrow> target_error + u64" where
  "TargetBlockNumber c timestamp =
     (let genesisTimestamp = gen_L2Time (cfg_Genesis c)
      in if timestamp < genesisTimestamp then Inl (BeforeGenesis genesisTimestamp)
         else let wallClockGenesisDiff = timestamp - genesisTimestamp
              in if cfg_BlockTime c = 0 then Inl DivideByZero
                 else let blocksSinceGenesis = wallClockGenesisDiff div cfg_BlockTime c
                      in Inr (bid_number (gen_L2 (cfg_Genesis c)) + blocksSinceGenesis))"

section \<open>Engine API versions\<close>

datatype engine_method =
  FCUV1 | FCUV2 | FCUV3 | NewPayloadV2 | NewPayloadV3 | NewPayloadV4
  | GetPayloadV2 | GetPayloadV3 | GetPayloadV4

text \<open>The argument is the timestamp of the payload attributes, \<open>None\<close> when they are nil.\<close>

definition ForkchoiceUpdatedVersion :: "config \<Rightarrow> u64 option \<Rightarrow> engine_method" where
  "ForkchoiceUpdatedVersion c attr =
     (case attr of
        None \<Rightarrow> FCUV3
      | Some ts \<Rightarrow> if IsEcotone c ts then FCUV3 else if IsCanyon c ts then FCUV2 else FCUV1)"

definition NewPayloadVersion :: "config \<Rightarrow> u64 \<Rightarrow> engine_method" where
  "NewPayloadVersion c ts =
     (if IsIsthmus c ts then NewPayloadV4 else if IsEcotone c ts then NewPayloadV3 else NewPayloadV2)"

definition GetPayloadVersion :: "config \<Rightarrow> u64 \<Rightarrow> engine_method" where
  "GetPayloadVersion c ts =
     (if IsIsthmus c ts then GetPayloadV4 else if IsEcotone c ts then GetPayloadV3 else GetPayloadV2)"

definition SyncLookback :: "config \<Rightarrow> u64" where
  "SyncLookback c = cfg_SeqWindowSize c"

definition HasOptimismWithdrawalsRoot :: "config \<Rightarrow> u64 \<Rightarrow> bool" where
  "HasOptimismWithdrawalsRoot c t = IsIsthmus c t"

section \<open>The chain specification\<close>

definition AllForks :: "fork_name list" where
  "AllForks = [Bedrock, Regolith, Canyon, Delta, Ecotone, Fjord, Granite, Holocene, Isthmus, Jovian, Interop]"

text \<open>\<open>ForksFrom\<close> panics for a name that is not in the list: \<open>None\<close>.\<close>

definition ForksFrom :: "fork_name \<Rightarrow> fork_name list option" where
  "ForksFrom f = (case dropWhile (\<lambda>g. g \<noteq> f) AllForks of [] \<Rightarrow> None | fs \<Rightarrow> Some fs)"

text \<open>The map \<open>nextFork\<close>: \<open>None\<close> for a key that is absent.\<close>

definition nextFork :: "fork_name \<Rightarrow> fork_name option" where
  "nextFork f =
     (case dropWhile (\<lambda>g. g \<noteq> f) AllForks of
        [] \<Rightarrow> None
      | [_] \<Rightarrow> Some ForkNone
      | _ # g # _ \<Rightarrow> Some g)"

definition IsValidFork :: "fork_name \<Rightarrow> bool" where
  "IsValidFork f = (nextFork f \<noteq> None)"

record chain_spec =
  spec_config :: config
  spec_currentFork :: fork_name

definition NewChainSpec :: "config \<Rightarrow> chain_spec" where
  "NewChainSpec c = \<lparr>spec_config = c, spec_currentFork = ForkEmpty\<rparr>"

definition MaxChannelBankSize :: "config \<Rightarrow> u64 \<Rightarrow> u64" where
  "MaxChannelBankSize c t = (if IsFjord c t then 1000000000 else 100000000)"

definition ChannelTimeout :: "config \<Rightarrow> u64 \<Rightarrow> u64" where
  "ChannelTimeout c t = (if IsGranite c t then 50 else cfg_ChannelTimeoutBedrock c)"

definition MaxRLPBytesPerChannel :: "config \<Rightarrow> u64 \<Rightarrow> u64" where
  "MaxRLPBytesPerChannel c t = (if IsFjord c t then 100000000 else 10000000)"

definition IsFeatMaxSequencerDriftConstant :: "config \<Rightarrow> u64 \<Rightarrow> bool" where
  "IsFeatMaxSequencerDriftConstant c t = IsFjord c t"

definition MaxSequencerDrift :: "config \<Rightarrow> u64 \<Rightarrow> u64" where
  "MaxSequencerDrift c t =
     (if IsFeatMaxSequencerDriftConstant c t then 1800 else cfg_MaxSequencerDrift c)"

text \<open>The first branch of \<open>CheckForkActivation\<close>: detect the fork of the first block seen.\<close>

definition detectFork :: "config \<Rightarrow> u64 \<Rightarrow> fork_name" where
  "detectFork c t =
     (let f = Bedrock;
          f = (if IsRegolith c t then Regolith else f);
          f = (if IsCanyon c t then Canyon else f);
          f = (if IsDelta c t then Delta else f);
          f = (if IsEcotone c t then Ecotone else f);
          f = (if IsFjord c t then Fjord else f);
          f = (if IsGranite c t then Granite else f);
          f = (if IsHolocene c t then Holocene else f);
          f = (if IsIsthmus c t then Isthmus else f);
          f = (if IsJovian c t then Jovian else f);
          f = (if IsInterop c t then Interop else f)
      in f)"

definition CheckForkActivation :: "chain_spec \<Rightarrow> l2_block_ref \<Rightarrow> chain_spec" where
  "CheckForkActivation s block =
     (let c = spec_config s; t = l2_time block
      in if spec_currentFork s = Interop then s
         else if spec_currentFork s = ForkEmpty then s\<lparr>spec_currentFork := detectFork c t\<rparr>
         else case nextFork (spec_currentFork s) of
                None \<Rightarrow> s
              | Some nxt \<Rightarrow>
                  let foundActivationBlock =
                    (case nxt of
                       Regolith \<Rightarrow> IsRegolithActivationBlock c t
                     | Canyon \<Rightarrow> IsCanyonActivationBlock c t
                     | Delta \<Rightarrow> IsDeltaActivationBlock c t
                     | Ecotone \<Rightarrow> IsEcotoneActivationBlock c t
                     | Fjord \<Rightarrow> IsFjordActivationBlock c t
                     | Granite \<Rightarrow> IsGraniteActivationBlock c t
                     | Holocene \<Rightarrow> IsHoloceneActivationBlock c t
                     | Isthmus \<Rightarrow> IsIsthmusActivationBlock c t
                     | Jovian \<Rightarrow> IsJovianActivationBlock c t
                     | Interop \<Rightarrow> IsInteropActivationBlock c t
                     | _ \<Rightarrow> False)
                  in if foundActivationBlock then s\<lparr>spec_currentFork := nxt\<rparr> else s)"

section \<open>Forks, once active, stay active\<close>

text \<open>
  What the rest of the program relies on of a network upgrade: its test is monotone in the
  timestamp. The facts about activation blocks follow once for all ten forks.
\<close>

locale upgrade =
  fixes active :: "u64 \<Rightarrow> bool"
  assumes active_mono: "active s \<Longrightarrow> s \<le> t \<Longrightarrow> active t"
begin

lemma activation_first: "activation_block active bt t \<Longrightarrow> s \<le> t - bt \<Longrightarrow> \<not> active s"
  using active_mono by (auto simp: activation_block_def)

lemma activation_unique:
  assumes "activation_block active bt s" and "activation_block active bt t" and "s < t"
  shows "t - bt < s"
proof (rule ccontr)
  assume "\<not> t - bt < s"
  then have "s \<le> t - bt" by simp
  then show False
    using activation_first [OF assms(2)] assms(1) by (auto simp: activation_block_def)
qed

lemma activation_step:
  assumes "t \<le> t + bt" and "bt \<le> t + bt"
  shows "activation_block active bt (t + bt) \<longleftrightarrow> active (t + bt) \<and> \<not> active t"
  using assms by (auto simp: activation_block_def)

end

lemma fork_active_mono: "fork_active tm s \<Longrightarrow> s \<le> t \<Longrightarrow> fork_active tm t"
  by (auto simp: fork_active_def split: option.splits)

interpretation regolith: upgrade "IsRegolith c" for c
  by unfold_locales (auto simp: IsRegolith_def intro: fork_active_mono)

interpretation canyon: upgrade "IsCanyon c" for c
  by unfold_locales (auto simp: IsCanyon_def intro: fork_active_mono)

interpretation delta: upgrade "IsDelta c" for c
  by unfold_locales (auto simp: IsDelta_def intro: fork_active_mono)

interpretation ecotone: upgrade "IsEcotone c" for c
  by unfold_locales (auto simp: IsEcotone_def intro: fork_active_mono)

interpretation fjord: upgrade "IsFjord c" for c
  by unfold_locales (auto simp: IsFjord_def intro: fork_active_mono)

interpretation granite: upgrade "IsGranite c" for c
  by unfold_locales (auto simp: IsGranite_def intro: fork_active_mono)

interpretation holocene: upgrade "IsHolocene c" for c
  by unfold_locales (auto simp: IsHolocene_def intro: fork_active_mono)

interpretation isthmus: upgrade "IsIsthmus c" for c
  by unfold_locales (auto simp: IsIsthmus_def intro: fork_active_mono)

interpretation jovian: upgrade "IsJovian c" for c
  by unfold_locales (auto simp: IsJovian_def intro: fork_active_mono)

interpretation interop: upgrade "IsInterop c" for c
  by unfold_locales (auto simp: IsInterop_def intro: fork_active_mono)

lemmas activation_steps = regolith.activation_step canyon.activation_step delta.activation_step
  ecotone.activation_step fjord.activation_step granite.activation_step holocene.activation_step
  isthmus.activation_step jovian.activation_step interop.activation_step

section \<open>What a checked configuration guarantees\<close>

lemma or_else_None [simp]: "or_else a b = None \<longleftrightarrow> a = None \<and> b = None"
  by (auto simp: or_else_def split: option.splits)

lemma checkFork_ok:
  "checkFork a b an bn = None \<Longrightarrow> fork_active b t \<Longrightarrow> fork_active a t"
  by (auto simp: checkFork_def fork_active_def split: option.splits if_splits)

lemma Config_Check_forks:
  assumes "Config_Check c = None"
  shows "checkFork (cfg_RegolithTime c) (cfg_CanyonTime c) Regolith Canyon = None"
    and "checkFork (cfg_CanyonTime c) (cfg_DeltaTime c) Canyon Delta = None"
    and "checkFork (cfg_DeltaTime c) (cfg_EcotoneTime c) Delta Ecotone = None"
    and "checkFork (cfg_EcotoneTime c) (cfg_FjordTime c) Ecotone Fjord = None"
    and "checkFork (cfg_FjordTime c) (cfg_GraniteTime c) Fjord Granite = None"
    and "checkFork (cfg_GraniteTime c) (cfg_HoloceneTime c) Granite Holocene = None"
    and "checkFork (cfg_HoloceneTime c) (cfg_IsthmusTime c) Holocene Isthmus = None"
  using assms by (simp_all add: Config_Check_def split: if_splits option.splits)

lemma Config_Check_block_time: "Config_Check c = None \<Longrightarrow> cfg_BlockTime c \<noteq> 0"
  by (auto simp: Config_Check_def)

text \<open>A configuration for a chain with a block time of two seconds, used by the witnesses.\<close>

definition example_config :: config where
  "example_config =
     \<lparr>cfg_Genesis = \<lparr>gen_L2 = \<lparr>bid_hash = 7, bid_number = 10\<rparr>, gen_L2Time = 1000,
        gen_SystemConfig = \<lparr>sc_GasLimit = 30000000, sc_EIP1559Params = 0, sc_OperatorFeeParams = 0,
          sc_MarshalPreHolocene = False\<rparr>\<rparr>,
      cfg_BlockTime = 2, cfg_MaxSequencerDrift = 600, cfg_SeqWindowSize = 3600,
      cfg_ChannelTimeoutBedrock = 300, cfg_L2ChainID = Some 90210,
      cfg_RegolithTime = Some 0, cfg_CanyonTime = Some 0, cfg_DeltaTime = Some 0,
      cfg_EcotoneTime = Some 1004, cfg_FjordTime = Some 1008, cfg_GraniteTime = Some 1012,
      cfg_HoloceneTime = Some 1016, cfg_IsthmusTime = None, cfg_JovianTime = None,
      cfg_InteropTime = None, cfg_PectraBlobScheduleTime = None\<rparr>"

lemma example_config_ok: "Config_Check example_config = None"
  by (simp add: Config_Check_def example_config_def validateAltDAConfig_def checkFork_def)

section \<open>The fork tracker\<close>

text \<open>The test of the fork with a given name.\<close>

definition fork_active_at :: "config \<Rightarrow> fork_name \<Rightarrow> u64 \<Rightarrow> bool" where
  "fork_active_at c f t =
     (case f of
        Bedrock \<Rightarrow> True
      | Regolith \<Rightarrow> IsRegolith c t
      | Canyon \<Rightarrow> IsCanyon c t
      | Delta \<Rightarrow> IsDelta c t
      | Ecotone \<Rightarrow> IsEcotone c t
      | Fjord \<Rightarrow> IsFjord c t
      | Granite \<Rightarrow> IsGranite c t
      | Holocene \<Rightarrow> IsHolocene c t
      | Isthmus \<Rightarrow> IsIsthmus c t
      | Jovian \<Rightarrow> IsJovian c t
      | Interop \<Rightarrow> IsInterop c t
      | _ \<Rightarrow> False)"

text \<open>What one increment per block needs between the times \<open>s\<close> and \<open>t\<close> of two consecutive blocks: a fork is active at \<open>t\<close>
  only if the fork ahead of it in the list was active at \<open>s\<close>.\<close>

definition fork_steps :: "config \<Rightarrow> u64 \<Rightarrow> u64 \<Rightarrow> bool" where
  "fork_steps c s t \<longleftrightarrow>
     list_all (\<lambda>(f, g). fork_active_at c g t \<longrightarrow> fork_active_at c f s) (zip AllForks (tl AllForks))"

lemma fork_steps_unfold:
  "fork_steps c s t \<longleftrightarrow>
     (IsCanyon c t \<longrightarrow> IsRegolith c s) \<and> (IsDelta c t \<longrightarrow> IsCanyon c s) \<and>
     (IsEcotone c t \<longrightarrow> IsDelta c s) \<and> (IsFjord c t \<longrightarrow> IsEcotone c s) \<and>
     (IsGranite c t \<longrightarrow> IsFjord c s) \<and> (IsHolocene c t \<longrightarrow> IsGranite c s) \<and>
     (IsIsthmus c t \<longrightarrow> IsHolocene c s) \<and> (IsJovian c t \<longrightarrow> IsIsthmus c s) \<and>
     (IsInterop c t \<longrightarrow> IsJovian c s)"
  by (simp add: fork_steps_def AllForks_def fork_active_at_def)

lemmas fork_monos = regolith.active_mono canyon.active_mono delta.active_mono ecotone.active_mono
  fjord.active_mono granite.active_mono holocene.active_mono isthmus.active_mono jovian.active_mono
  interop.active_mono

lemma nextFork_simps [simp]:
  "nextFork Bedrock = Some Regolith" "nextFork Regolith = Some Canyon" "nextFork Canyon = Some Delta"
  "nextFork Delta = Some Ecotone" "nextFork Ecotone = Some Fjord" "nextFork Fjord = Some Granite"
  "nextFork Granite = Some Holocene" "nextFork Holocene = Some Isthmus"
  "nextFork Isthmus = Some Jovian" "nextFork Jovian = Some Interop"
  "nextFork Interop = Some ForkNone" "nextFork ForkNone = None" "nextFork ForkEmpty = None"
  by (simp_all add: nextFork_def AllForks_def)

lemma fork_cases:
  obtains "IsInterop c t" | "\<not> IsInterop c t" "IsJovian c t" | "\<not> IsJovian c t" "IsIsthmus c t"
    | "\<not> IsIsthmus c t" "IsHolocene c t" | "\<not> IsHolocene c t" "IsGranite c t"
    | "\<not> IsGranite c t" "IsFjord c t" | "\<not> IsFjord c t" "IsEcotone c t"
    | "\<not> IsEcotone c t" "IsDelta c t" | "\<not> IsDelta c t" "IsCanyon c t"
    | "\<not> IsCanyon c t" "IsRegolith c t" | "\<not> IsRegolith c t"
  by blast

lemma CheckForkActivation_tracks:
  assumes ord: "fork_steps c t t"
    and one: "fork_steps c t (t + cfg_BlockTime c)"
    and le: "t \<le> t + cfg_BlockTime c" "cfg_BlockTime c \<le> t + cfg_BlockTime c"
    and s: "spec_config s = c" "spec_currentFork s = detectFork c t"
    and b: "l2_time b = t + cfg_BlockTime c"
  shows "spec_currentFork (CheckForkActivation s b) = detectFork c (l2_time b)"
proof -
  note facts = ord [unfolded fork_steps_unfold] one [unfolded fork_steps_unfold]
    fork_monos [OF _ le(1), of c] s b
  note defs = CheckForkActivation_def activation_block_defs activation_steps [OF le] detectFork_def Let_def
  show ?thesis
    by (rule fork_cases [of c t]; insert facts; elim conjE; simp add: defs)
qed


text \<open>At most one fork of the list activates between two times.\<close>

definition activates :: "config \<Rightarrow> u64 \<Rightarrow> u64 \<Rightarrow> fork_name \<Rightarrow> bool" where
  "activates c s t f \<longleftrightarrow> fork_active_at c f t \<and> \<not> fork_active_at c f s"

definition one_fork_per_block :: "config \<Rightarrow> u64 \<Rightarrow> u64 \<Rightarrow> bool" where
  "one_fork_per_block c s t \<longleftrightarrow>
     list_all (\<lambda>f. list_all (\<lambda>g. activates c s t f \<and> activates c s t g \<longrightarrow> f = g) AllForks) AllForks"

text \<open>A run of consecutive blocks: each block is one block time after the one before, without
  overflow, and at most one fork activates per block.\<close>

fun block_run :: "config \<Rightarrow> l2_block_ref list \<Rightarrow> bool" where
  "block_run c [] = True"
| "block_run c [b] = True"
| "block_run c (b # b' # bs) =
     (let t = l2_time b; t' = l2_time b'
      in t' = t + cfg_BlockTime c \<and> t \<le> t' \<and> cfg_BlockTime c \<le> t'
         \<and> one_fork_per_block c t t' \<and> block_run c (b' # bs))"

text \<open>\<open>Check\<close> keeps the forks in order up to Isthmus; the order of the last two is a condition on the configuration.\<close>

definition late_forks_in_order :: "config \<Rightarrow> bool" where
  "late_forks_in_order c \<longleftrightarrow> (\<forall>t. (IsJovian c t \<longrightarrow> IsIsthmus c t) \<and> (IsInterop c t \<longrightarrow> IsJovian c t))"

lemma checked_in_order:
  assumes "Config_Check c = None" and "late_forks_in_order c"
  shows "fork_steps c t t"
  using Config_Check_forks [OF assms(1)] assms(2)
  by (auto simp: fork_steps_unfold late_forks_in_order_def is_fork_defs intro: checkFork_ok)

lemma one_step:
  assumes "one_fork_per_block c s t" and "f \<in> set AllForks" and "g \<in> set AllForks" and "f \<noteq> g"
    and "fork_active_at c g t \<longrightarrow> fork_active_at c f t" and "fork_active_at c g s \<longrightarrow> fork_active_at c f s"
  shows "fork_active_at c g t \<longrightarrow> fork_active_at c f s"
  using assms unfolding one_fork_per_block_def activates_def list_all_iff by blast

lemma ordered_steps:
  assumes "one_fork_per_block c s t" and "fork_steps c s s" and "fork_steps c t t"
  shows "fork_steps c s t"
proof -
  let ?P = "set (zip AllForks (tl AllForks))"
  have D: "\<forall>p \<in> ?P. fst p \<in> set AllForks \<and> snd p \<in> set AllForks \<and> fst p \<noteq> snd p" by (simp add: AllForks_def)
  have O: "\<forall>p \<in> ?P. fork_active_at c (snd p) u \<longrightarrow> fork_active_at c (fst p) u" if "fork_steps c u u" for u
    using that by (simp add: fork_steps_def list_all_iff case_prod_beta)
  have "fork_active_at c (snd p) t \<longrightarrow> fork_active_at c (fst p) s" if p: "p \<in> ?P" for p
    by (rule one_step [OF assms(1)]) (use bspec [OF D p] bspec [OF O [OF assms(2)] p] bspec [OF O [OF assms(3)] p] in blast)+
  then show ?thesis by (simp add: fork_steps_def list_all_iff case_prod_beta)
qed

lemma CheckForkActivation_config [simp]: "spec_config (CheckForkActivation s b) = spec_config s"
  by (simp add: CheckForkActivation_def Let_def split: option.split)

lemma fork_tracker_run:
  assumes "\<And>t. fork_steps c t t" and "block_run c (b # bs)" and "spec_config s = c"
    and "spec_currentFork s = detectFork c (l2_time b)"
  shows "spec_currentFork (foldl CheckForkActivation s bs) = detectFork c (l2_time (last (b # bs)))"
  using assms(2-)
proof (induction bs arbitrary: b s)
  case Nil
  then show ?case by simp
next
  case (Cons b' bs)
  then have "spec_currentFork (CheckForkActivation s b') = detectFork c (l2_time b')"
    by (intro CheckForkActivation_tracks [OF assms(1), of "l2_time b"] ordered_steps [OF _ assms(1) assms(1)]) (auto simp: Let_def)
  with Cons.prems show ?case
    using Cons.IH [of b' "CheckForkActivation s b'"] by (simp add: Let_def)
qed

lemma NewChainSpec_config: "spec_config (NewChainSpec c) = c"
  by (simp add: NewChainSpec_def)

lemma CheckForkActivation_first:
  "spec_currentFork (CheckForkActivation (NewChainSpec c) b) = detectFork c (l2_time b)"
  by (simp add: CheckForkActivation_def NewChainSpec_def)

text \<open>C26: take a configuration that passes \<open>Check\<close> and in which Jovian is active only with Isthmus and Interop only
  with Jovian (an order \<open>Check\<close> does not test). Along every run of consecutive blocks in which at most one fork
  activates per block, the fork the tracker holds after the last block is the fork of that block's timestamp: the
  increments at activation blocks never miss a fork and never run ahead.\<close>
theorem fork_tracker_correct:
  assumes "Config_Check c = None" and "late_forks_in_order c" and "block_run c (b # bs)"
  shows "spec_currentFork (foldl CheckForkActivation (NewChainSpec c) (b # bs))
           = detectFork c (l2_time (last (b # bs)))"
  using fork_tracker_run [OF checked_in_order [OF assms(1,2)] assms(3), of "CheckForkActivation (NewChainSpec c) b"]
  by (simp add: CheckForkActivation_first NewChainSpec_config)

definition example_block :: "u64 \<Rightarrow> l2_block_ref" where
  "example_block t = zero_l2\<lparr>l2_time := t\<rparr>"

theorem fork_tracker_correct_witness:
  "block_run example_config (map example_block [1002, 1004, 1006, 1008])
   \<and> spec_currentFork (foldl CheckForkActivation (NewChainSpec example_config)
         (map example_block [1002, 1004, 1006, 1008])) = Fjord"
proof -
  have run: "block_run example_config (example_block 1002 # map example_block [1004, 1006, 1008])"
    by (simp add: one_fork_per_block_def activates_def AllForks_def fork_active_at_def is_fork_defs fork_active_def
        example_config_def example_block_def Let_def)
  have late: "late_forks_in_order example_config"
    by (simp add: late_forks_in_order_def is_fork_defs fork_active_def example_config_def)
  show ?thesis
    using run fork_tracker_correct [OF example_config_ok late run]
    by (simp add: detectFork_def is_fork_defs fork_active_def example_config_def example_block_def Let_def)
qed

text \<open>Two forks that activate at the same block: the tracker takes the first and then never sees
  the activation block of the second.\<close>

lemma fork_tracker_stuck:
  "let c = example_config\<lparr>cfg_FjordTime := Some 1004\<rparr>
   in Config_Check c = None
      \<and> spec_currentFork (foldl CheckForkActivation (NewChainSpec c)
            (map example_block [1002, 1004, 1006, 1008])) = Ecotone
      \<and> detectFork c 1008 = Fjord"
  by (simp add: Config_Check_def validateAltDAConfig_def checkFork_def CheckForkActivation_def
      NewChainSpec_def activation_block_defs activation_block_def detectFork_def is_fork_defs
      fork_active_def example_config_def example_block_def Let_def)

text \<open>The order of the last forks is not tested: with Interop set and Jovian not, the tracker never reaches Interop.\<close>

lemma unordered_tracker_stuck:
  "let c = example_config\<lparr>cfg_InteropTime := Some 1006\<rparr>
   in Config_Check c = None
      \<and> spec_currentFork (foldl CheckForkActivation (NewChainSpec c)
            (map example_block [1002, 1004, 1006, 1008])) = Fjord
      \<and> detectFork c 1008 = Interop"
  by (simp add: Config_Check_def validateAltDAConfig_def checkFork_def CheckForkActivation_def
      NewChainSpec_def activation_block_defs activation_block_def detectFork_def is_fork_defs
      fork_active_def example_config_def example_block_def Let_def)

lemma unchecked_forks:
  "let c = example_config\<lparr>cfg_InteropTime := Some 0\<rparr>
   in Config_Check c = None \<and> IsInterop c 0 \<and> \<not> IsIsthmus c t \<and> \<not> IsJovian c t"
  by (simp add: Config_Check_def validateAltDAConfig_def checkFork_def is_fork_defs
      fork_active_def example_config_def Let_def)

text \<open>The comment on \<open>MaxSequencerDrift\<close> lets a chain with Fjord at genesis leave the field
  empty; \<open>Check\<close> refuses it.\<close>

lemma empty_drift_refused:
  "let c = (ActivateAtGenesis example_config Fjord)\<lparr>cfg_MaxSequencerDrift := 0\<rparr>
   in Config_Check c = Some ErrInvalidMaxSeqDrift \<and> MaxSequencerDrift c t = 1800"
  by (simp add: Config_Check_def ActivateAtGenesis_def MaxSequencerDrift_def
      IsFeatMaxSequencerDriftConstant_def IsFjord_def fork_active_def example_config_def)

text \<open>C36: a configuration that passes \<open>Check\<close> activates its forks in order: at every timestamp,
  from Regolith to Isthmus, a fork that is active has every earlier fork active.\<close>
theorem Config_Check_fork_order:
  assumes "Config_Check c = None"
  shows "(IsIsthmus c t \<longrightarrow> IsHolocene c t) \<and> (IsHolocene c t \<longrightarrow> IsGranite c t) \<and>
    (IsGranite c t \<longrightarrow> IsFjord c t) \<and> (IsFjord c t \<longrightarrow> IsEcotone c t) \<and>
    (IsEcotone c t \<longrightarrow> IsDelta c t) \<and> (IsDelta c t \<longrightarrow> IsCanyon c t) \<and>
    (IsCanyon c t \<longrightarrow> IsRegolith c t)"
  using Config_Check_forks [OF assms]
  by (auto simp: is_fork_defs intro: checkFork_ok)

theorem Config_Check_fork_order_witness:
  "IsHolocene example_config 1020 \<and> IsCanyon example_config 1020"
proof -
  have "IsHolocene example_config 1020"
    by (simp add: IsHolocene_def fork_active_def example_config_def)
  with Config_Check_fork_order [OF example_config_ok, of 1020] show ?thesis by blast
qed

lemma block_grid:
  fixes d n :: nat
  assumes "0 < n"
  shows "d div n * n \<le> d" and "d < d div n * n + n"
  using assms div_mult_mod_eq [of d n] mod_less_divisor [of n d] by linarith+

text \<open>C37: for a checked configuration and a timestamp from genesis on, \<open>TargetBlockNumber\<close> returns
  the number of the block in whose slot the timestamp falls: the block's own timestamp is not
  after it, and the next block's is. The third hypothesis excludes a block number above 64 bits.\<close>
theorem TargetBlockNumber_correct:
  assumes "Config_Check c = None"
    and "gen_L2Time (cfg_Genesis c) \<le> ts"
    and "unat (bid_number (gen_L2 (cfg_Genesis c)))
           + (unat ts - unat (gen_L2Time (cfg_Genesis c))) div unat (cfg_BlockTime c) < 2 ^ 64"
  shows "\<exists>n. TargetBlockNumber c ts = Inr n \<and> bid_number (gen_L2 (cfg_Genesis c)) \<le> n
    \<and> TimestampForBlock c n \<le> ts
    \<and> unat ts < unat (TimestampForBlock c n) + unat (cfg_BlockTime c)"
proof -
  let ?g = "gen_L2Time (cfg_Genesis c)" and ?b = "cfg_BlockTime c"
    and ?o = "bid_number (gen_L2 (cfg_Genesis c))"
  let ?k = "(ts - ?g) div ?b"
  have b: "0 < unat ?b"
    using Config_Check_block_time [OF assms(1)] by (simp add: unat_gt_0)
  have d: "unat (ts - ?g) = unat ts - unat ?g" using assms(2) by (rule unat_sub)
  have k: "unat ?k = (unat ts - unat ?g) div unat ?b" by (simp add: unat_div d)
  have kb: "unat ?k * unat ?b \<le> unat ts - unat ?g" "unat ts - unat ?g < unat ?k * unat ?b + unat ?b"
    using block_grid [OF b] by (simp_all add: k)
  have le: "unat ?g \<le> unat ts" using assms(2) by (simp add: word_le_nat_alt)
  have tsb: "unat ts < 2 ^ 64" using unsigned_less [of ts] by simp
  have kb': "unat (?k * ?b) = unat ?k * unat ?b"
    using kb tsb by (subst unat_mult_lem [symmetric]) simp
  have gkb: "unat (?g + ?k * ?b) = unat ?g + unat ?k * unat ?b"
    using kb le tsb kb' by (subst unat_add_lem [THEN iffD1]) simp_all
  have n: "unat (?o + ?k) = unat ?o + unat ?k"
    using assms(3) by (subst unat_add_lem [THEN iffD1]) (simp_all add: k)
  have "TargetBlockNumber c ts = Inr (?o + ?k)"
    using assms(2) Config_Check_block_time [OF assms(1)]
    by (simp add: TargetBlockNumber_def Let_def)
  moreover have "?o \<le> ?o + ?k" by (simp add: word_le_nat_alt n)
  moreover have "TimestampForBlock c (?o + ?k) = ?g + ?k * ?b"
    by (simp add: TimestampForBlock_def)
  ultimately show ?thesis
    using kb le by (auto simp: word_le_nat_alt gkb)
qed

theorem TargetBlockNumber_correct_witness:
  "\<exists>n. TargetBlockNumber example_config 1007 = Inr n \<and> TimestampForBlock example_config n \<le> 1007"
  using TargetBlockNumber_correct [OF example_config_ok, of 1007]
  by (auto simp: example_config_def)

text \<open>C38: the block number of the timestamp of a block is that block's number, for every block from
  genesis on whose timestamp fits 64 bits.\<close>
theorem TimestampForBlock_roundtrip:
  assumes "Config_Check c = None"
    and "bid_number (gen_L2 (cfg_Genesis c)) \<le> n"
    and "unat (gen_L2Time (cfg_Genesis c))
           + (unat n - unat (bid_number (gen_L2 (cfg_Genesis c)))) * unat (cfg_BlockTime c) < 2 ^ 64"
  shows "TargetBlockNumber c (TimestampForBlock c n) = Inr n"
proof -
  let ?g = "gen_L2Time (cfg_Genesis c)" and ?b = "cfg_BlockTime c"
    and ?o = "bid_number (gen_L2 (cfg_Genesis c))"
  have d: "unat (n - ?o) = unat n - unat ?o" using assms(2) by (rule unat_sub)
  have m: "unat ((n - ?o) * ?b) = unat (n - ?o) * unat ?b"
    using assms(3) by (subst unat_mult_lem [symmetric]) (simp add: d)
  have a: "unat (?g + (n - ?o) * ?b) = unat ?g + unat ((n - ?o) * ?b)"
    using assms(3) by (subst unat_add_lem [THEN iffD1]) (simp_all add: d m)
  have b: "?b \<noteq> 0" "0 < unat ?b"
    using Config_Check_block_time [OF assms(1)] by (simp_all add: unat_gt_0)
  have "(n - ?o) * ?b div ?b = n - ?o"
    using b by (simp add: word_unat_eq_iff unat_div m)
  moreover have "\<not> ?g + (n - ?o) * ?b < ?g"
    by (simp add: word_less_nat_alt a)
  ultimately show ?thesis
    using b by (simp add: TargetBlockNumber_def TimestampForBlock_def Let_def)
qed

theorem TimestampForBlock_roundtrip_witness:
  "TargetBlockNumber example_config (TimestampForBlock example_config 13) = Inr 13"
  by (rule TimestampForBlock_roundtrip [OF example_config_ok]) (simp_all add: example_config_def)

end
