(* ===== verification/Frames.thy ===== *)
theory Frames
  imports Rollup_Config "HOL-Library.Sublist"
begin

text \<open>
  Frames, the unit in which channel data is posted to the data-availability layer
  (\<^verbatim>\<open>rhs-node/rollup/derive/params.go\<close>, \<^verbatim>\<open>frame.go\<close>): their wire format, the parser of one
  frame and of a transaction's frames, with every error path. A \<open>ChannelID\<close> (\<open>[16]byte\<close>) is
  a \<open>128 word\<close>.
\<close>

type_synonym channel_id = "128 word"

record frame =
  fr_ID :: channel_id
  fr_FrameNumber :: u16
  fr_Data :: bytes
  fr_IsLast :: bool

definition frameOverhead :: u64 where
  "frameOverhead = 200"

definition MaxFrameLen :: u32 where
  "MaxFrameLen = 1000000"

definition frameSize :: "frame \<Rightarrow> u64" where
  "frameSize f = of_nat (length (fr_Data f)) + frameOverhead"

section \<open>Wire format\<close>

text \<open>The bytes written to a writer that does not fail.\<close>

definition MarshalBinary :: "frame \<Rightarrow> bytes" where
  "MarshalBinary f =
     be_bytes 16 (fr_ID f) @ be_bytes 2 (fr_FrameNumber f)
     @ be_bytes 4 (of_nat (length (fr_Data f)) :: u32) @ fr_Data f @ [if fr_IsLast f then 1 else 0]"

datatype frame_error =
  ReadingChannelID read_error
  | ReadingFrameNumber read_error
  | ReadingFrameDataLength read_error
  | FrameDataTooLarge u32
  | ReadingFrameData read_error
  | ReadingIsLast read_error
  | InvalidIsLast

fun eofAsUnexpectedMissing :: "read_error \<Rightarrow> read_error" where
  "eofAsUnexpectedMissing EOF = ErrUnexpectedEOF"
| "eofAsUnexpectedMissing e = e"

text \<open>The argument is what the reader still holds; the result is the frame and the rest.\<close>

definition UnmarshalBinary :: "bytes \<Rightarrow> frame_error + frame \<times> bytes" where
  "UnmarshalBinary r =
     (case read_full 16 r of
        Inl e \<Rightarrow> Inl (ReadingChannelID e)
      | Inr (ID, r) \<Rightarrow>
     (case read_full 2 r of
        Inl e \<Rightarrow> Inl (ReadingFrameNumber (eofAsUnexpectedMissing e))
      | Inr (num, r) \<Rightarrow>
     (case read_full 4 r of
        Inl e \<Rightarrow> Inl (ReadingFrameDataLength (eofAsUnexpectedMissing e))
      | Inr (len, r) \<Rightarrow>
     (let frameLength = (of_be_bytes len :: u32) in
      if frameLength > MaxFrameLen then Inl (FrameDataTooLarge frameLength)
      else case read_full (unat frameLength) r of
        Inl e \<Rightarrow> Inl (ReadingFrameData (eofAsUnexpectedMissing e))
      | Inr (data, r) \<Rightarrow>
     (case read_byte r of
        Inl e \<Rightarrow> Inl (ReadingIsLast (eofAsUnexpectedMissing e))
      | Inr (isLastByte, r) \<Rightarrow>
          let f = \<lparr>fr_ID = of_be_bytes ID, fr_FrameNumber = of_be_bytes num, fr_Data = data,
                   fr_IsLast = (isLastByte = 1)\<rparr>
          in if isLastByte = 0 \<or> isLastByte = 1 then Inr (f, r) else Inl InvalidIsLast)))))"

definition frame_ok :: "frame \<Rightarrow> bool" where
  "frame_ok f \<longleftrightarrow> length (fr_Data f) \<le> unat MaxFrameLen"

lemma frame_ok_len: "frame_ok f \<Longrightarrow> length (fr_Data f) \<le> 1000000"
  by (simp add: frame_ok_def MaxFrameLen_def)

lemma frame_ok_length: "frame_ok f \<Longrightarrow> unat (of_nat (length (fr_Data f)) :: u32) = length (fr_Data f)"
  using frame_ok_len [of f] by (simp add: unat_of_nat)

lemma MarshalBinary_not_Nil [simp]: "MarshalBinary f \<noteq> []"
  by (simp add: MarshalBinary_def)

lemma Unmarshal_Marshal:
  assumes "frame_ok f"
  shows "UnmarshalBinary (MarshalBinary f @ rest) = Inr (f, rest)"
proof -
  have "\<not> (of_nat (length (fr_Data f)) :: u32) > MaxFrameLen"
    using assms by (simp add: word_less_nat_alt frame_ok_length) (simp add: frame_ok_def)
  then show ?thesis
    using frame_ok_length [OF assms]
    by (simp add: UnmarshalBinary_def MarshalBinary_def read_full_append of_be_be_bytes Let_def)
qed

lemma UnmarshalBinary_InrE:
  assumes "UnmarshalBinary r = Inr (f, r6)"
  obtains ID r1 num r2 len r3 data r4 b where
    "read_full 16 r = Inr (ID, r1)" "read_full 2 r1 = Inr (num, r2)" "read_full 4 r2 = Inr (len, r3)"
    "\<not> (of_be_bytes len :: u32) > MaxFrameLen" "read_full (unat (of_be_bytes len :: u32)) r3 = Inr (data, r4)"
    "read_byte r4 = Inr (b, r6)" "b = 0 \<or> b = 1"
    "f = \<lparr>fr_ID = of_be_bytes ID, fr_FrameNumber = of_be_bytes num, fr_Data = data, fr_IsLast = (b = 1)\<rparr>"
  using assms unfolding UnmarshalBinary_def Let_def
  by (auto split: sum.splits prod.splits if_splits)

lemma Unmarshal_InrD:
  assumes "UnmarshalBinary r = Inr (f, rest)"
  shows "r = MarshalBinary f @ rest \<and> frame_ok f"
proof -
  from assms obtain ID r1 num r2 len r3 data r4 b where *:
    "r = ID @ r1" "length ID = 16" "r1 = num @ r2" "length num = 2" "r2 = len @ r3" "length len = 4"
    "\<not> (of_be_bytes len :: u32) > MaxFrameLen"
    "r3 = data @ r4" "length data = unat (of_be_bytes len :: u32)" "r4 = b # rest" "b = 0 \<or> b = 1"
    "f = \<lparr>fr_ID = of_be_bytes ID, fr_FrameNumber = of_be_bytes num, fr_Data = data, fr_IsLast = (b = 1)\<rparr>"
    by (elim UnmarshalBinary_InrE) (auto dest!: read_full_InrD read_byte_InrD)
  have "be_bytes 16 (of_be_bytes ID :: channel_id) = ID" "be_bytes 2 (of_be_bytes num :: u16) = num"
    "be_bytes 4 (of_be_bytes len :: u32) = len"
    using be_of_be_bytes [of ID, where 'a = 128] be_of_be_bytes [of num, where 'a = 16]
      be_of_be_bytes [of len, where 'a = 32] * by simp_all
  with * show ?thesis
    by (auto simp: MarshalBinary_def frame_ok_def word_less_nat_alt)
qed

section \<open>The frames of a transaction\<close>

datatype parse_error =
  DataEmpty
  | InvalidDerivationVersion u8
  | ParsingFrame nat frame_error
  | DidNotFullyConsume nat nat
  | NoFramesFound

function parse_frames_loop :: "bytes \<Rightarrow> frame list \<Rightarrow> parse_error + frame list \<times> bytes" where
  "parse_frames_loop buf frames =
     (if length buf > 0
      then case UnmarshalBinary buf of
             Inl e \<Rightarrow> Inl (ParsingFrame (length frames) e)
           | Inr (f, rest) \<Rightarrow> parse_frames_loop rest (frames @ [f])
      else Inr (frames, buf))"
  by pat_completeness auto
termination
  by (relation "measure (\<lambda>(buf, frames). length buf)") (auto dest: Unmarshal_InrD)

definition DerivationVersion0 :: u8 where
  "DerivationVersion0 = 0"

definition ParseFrames :: "bytes \<Rightarrow> parse_error + frame list" where
  "ParseFrames data =
     (case data of
        [] \<Rightarrow> Inl DataEmpty
      | v # body \<Rightarrow>
          if v \<noteq> DerivationVersion0 then Inl (InvalidDerivationVersion v)
          else case parse_frames_loop body [] of
                 Inl e \<Rightarrow> Inl e
               | Inr (frames, buf) \<Rightarrow>
                   if length buf \<noteq> 0 then Inl (DidNotFullyConsume (length frames) (length buf))
                   else if length frames = 0 then Inl NoFramesFound
                   else Inr frames)"

lemma parse_frames_loop_sound:
  "parse_frames_loop buf frames = Inr (fs, rest) \<Longrightarrow>
     rest = [] \<and> (\<exists>gs. fs = frames @ gs \<and> buf = concat (map MarshalBinary gs) \<and> list_all frame_ok gs)"
proof (induction buf frames arbitrary: fs rest rule: parse_frames_loop.induct)
  case (1 buf frames)
  show ?case
  proof (cases "buf = []")
    case True
    with 1 show ?thesis by simp
  next
    case False
    with "1.prems" obtain f r where u: "UnmarshalBinary buf = Inr (f, r)"
      and p: "parse_frames_loop r (frames @ [f]) = Inr (fs, rest)"
      by (subst (asm) parse_frames_loop.simps) (auto split: sum.splits prod.splits)
    from "1.IH" [OF _ u _ p] False obtain gs where "rest = []" "fs = (frames @ [f]) @ gs"
      "r = concat (map MarshalBinary gs)" "list_all frame_ok gs" by auto
    with Unmarshal_InrD [OF u] show ?thesis
      by (intro conjI exI [of _ "f # gs"]) auto
  qed
qed

lemma parse_frames_loop_complete:
  "list_all frame_ok fs \<Longrightarrow>
     parse_frames_loop (concat (map MarshalBinary fs)) frames = Inr (frames @ fs, [])"
  by (induction fs arbitrary: frames) (simp_all add: parse_frames_loop.simps Unmarshal_Marshal)

declare parse_frames_loop.simps [simp del]

text \<open>C1: \<open>ParseFrames\<close> accepts exactly the encodings of non-empty lists of frames of at most
  \<open>MaxFrameLen\<close> bytes of data, and returns the frames that were encoded: nothing is left over,
  nothing is dropped, and every such list comes back.\<close>
theorem ParseFrames_iff:
  "ParseFrames data = Inr fs \<longleftrightarrow>
     fs \<noteq> [] \<and> list_all frame_ok fs \<and> data = DerivationVersion0 # concat (map MarshalBinary fs)"
proof
  assume "ParseFrames data = Inr fs"
  then obtain body rest where "data = DerivationVersion0 # body"
    and "parse_frames_loop body [] = Inr (fs, rest)" and "fs \<noteq> []"
    by (auto simp: ParseFrames_def split: list.splits if_splits sum.splits)
  with parse_frames_loop_sound show
    "fs \<noteq> [] \<and> list_all frame_ok fs \<and> data = DerivationVersion0 # concat (map MarshalBinary fs)"
    by fastforce
next
  assume "fs \<noteq> [] \<and> list_all frame_ok fs \<and> data = DerivationVersion0 # concat (map MarshalBinary fs)"
  then show "ParseFrames data = Inr fs"
    using parse_frames_loop_complete [of fs "[]"] by (simp add: ParseFrames_def)
qed

lemma parse_frames_loop_error: "parse_frames_loop buf frames \<noteq> Inl (DidNotFullyConsume n m)"
  by (induction buf frames rule: parse_frames_loop.induct)
    (subst parse_frames_loop.simps, auto split: sum.splits prod.splits)

lemma ParseFrames_consumes: "ParseFrames data \<noteq> Inl (DidNotFullyConsume n m)"
  using parse_frames_loop_sound [of "tl data" "[]"]
  by (auto simp: ParseFrames_def parse_frames_loop_error split: list.splits sum.splits if_splits)

section \<open>Truncated input\<close>

text \<open>The \<open>io\<close> error at the end of the chain of wrapped errors.\<close>

fun frame_error_cause :: "frame_error \<Rightarrow> read_error option" where
  "frame_error_cause (ReadingChannelID e) = Some e"
| "frame_error_cause (ReadingFrameNumber e) = Some e"
| "frame_error_cause (ReadingFrameDataLength e) = Some e"
| "frame_error_cause (FrameDataTooLarge _) = None"
| "frame_error_cause (ReadingFrameData e) = Some e"
| "frame_error_cause (ReadingIsLast e) = Some e"
| "frame_error_cause InvalidIsLast = None"

lemma eofAsUnexpectedMissing_const [simp]: "eofAsUnexpectedMissing e = ErrUnexpectedEOF"
  by (cases e) auto

lemma read_full_Inl: "read_full n bs = Inl e \<longleftrightarrow> length bs < n \<and> e = (if bs = [] then EOF else ErrUnexpectedEOF)"
  by (auto simp: read_full_def)

lemma read_full_Inr: "read_full n bs = Inr (xs, ys) \<longleftrightarrow> n \<le> length bs \<and> xs = take n bs \<and> ys = drop n bs"
  by (auto simp: read_full_def)

lemma read_full_mono: "read_full n bs = Inr (xs, ys) \<Longrightarrow> read_full n (bs @ s) = Inr (xs, ys @ s)"
  by (auto simp: read_full_Inr)

lemma read_byte_mono: "read_byte bs = Inr (b, ys) \<Longrightarrow> read_byte (bs @ s) = Inr (b, ys @ s)"
  by (cases bs) auto

text \<open>An error that is not a failed read does not depend on what follows.\<close>

lemma UnmarshalBinary_header:
  assumes "UnmarshalBinary r = Inl e" and "frame_error_cause e = None"
  obtains ID r1 num r2 len r3 where
    "read_full 16 r = Inr (ID, r1)" "read_full 2 r1 = Inr (num, r2)" "read_full 4 r2 = Inr (len, r3)"
  using assms unfolding UnmarshalBinary_def by (auto split: sum.splits prod.splits)

lemma UnmarshalBinary_format_error:
  assumes "UnmarshalBinary r = Inl e" and "frame_error_cause e = None"
  shows "UnmarshalBinary (r @ s) = Inl e"
proof -
  obtain ID r1 num r2 len r3 where h:
    "read_full 16 r = Inr (ID, r1)" "read_full 2 r1 = Inr (num, r2)" "read_full 4 r2 = Inr (len, r3)"
    by (rule UnmarshalBinary_header [OF assms])
  note hs = h [THEN read_full_mono [where s = s]]
  show ?thesis
  proof (cases "(of_be_bytes len :: u32) > MaxFrameLen")
    case True
    with assms(1) h hs show ?thesis by (simp add: UnmarshalBinary_def)
  next
    case False
    with assms h obtain data r4 b r5 where
      "read_full (unat (of_be_bytes len :: u32)) r3 = Inr (data, r4)" "read_byte r4 = Inr (b, r5)"
      by (auto simp: UnmarshalBinary_def split: sum.splits prod.splits)
    note this this(1) [THEN read_full_mono [where s = s]] this(2) [THEN read_byte_mono [where s = s]]
    with False assms(1) h hs show ?thesis by (auto simp: UnmarshalBinary_def Let_def)
  qed
qed

lemma UnmarshalBinary_Nil: "UnmarshalBinary [] = Inl (ReadingChannelID EOF)"
  by (simp add: UnmarshalBinary_def read_full_def)

lemma UnmarshalBinary_cause:
  assumes "UnmarshalBinary r = Inl e" and "frame_error_cause e \<noteq> None" and "r \<noteq> []"
  shows "frame_error_cause e = Some ErrUnexpectedEOF"
  using assms
  by (auto simp: UnmarshalBinary_def read_full_Inl Let_def split: sum.splits prod.splits if_splits)

text \<open>C39: the documented error behaviour on truncated input. A reader with no byte at all gives
  \<open>io.EOF\<close>, and a reader that stops anywhere inside a well-formed frame gives
  \<open>io.ErrUnexpectedEOF\<close>, at whichever field it stops.\<close>
theorem UnmarshalBinary_truncated:
  assumes "frame_ok f" and "strict_prefix r (MarshalBinary f)"
  shows "\<exists>e. UnmarshalBinary r = Inl e
           \<and> frame_error_cause e = Some (if r = [] then EOF else ErrUnexpectedEOF)"
proof (cases "UnmarshalBinary r")
  case (Inr res)
  obtain g rest where "res = (g, rest)" by (cases res)
  with Inr have g: "r = MarshalBinary g @ rest" "frame_ok g" by (auto dest: Unmarshal_InrD)
  from assms(2) obtain s where s: "MarshalBinary f = r @ s" "s \<noteq> []"
    by (auto simp: strict_prefix_def prefix_def)
  have "UnmarshalBinary (MarshalBinary f @ []) = UnmarshalBinary (MarshalBinary g @ (rest @ s))"
    by (simp add: s g)
  then have "f = g \<and> rest @ s = []"
    by (simp only: Unmarshal_Marshal [OF assms(1)] Unmarshal_Marshal [OF g(2)]) simp
  with s show ?thesis by simp
next
  case (Inl e)
  from assms(2) obtain s where s: "MarshalBinary f = r @ s" "s \<noteq> []"
    by (auto simp: strict_prefix_def prefix_def)
  have "frame_error_cause e \<noteq> None"
    using UnmarshalBinary_format_error [OF Inl, of s] Unmarshal_Marshal [OF assms(1), of "[]"]
    by (auto simp: s)
  with Inl UnmarshalBinary_cause [OF Inl] show ?thesis
    by (cases "r = []") (auto simp: UnmarshalBinary_Nil)
qed

definition example_frame :: "channel_id \<Rightarrow> u16 \<Rightarrow> bytes \<Rightarrow> bool \<Rightarrow> frame" where
  "example_frame i n d l = \<lparr>fr_ID = i, fr_FrameNumber = n, fr_Data = d, fr_IsLast = l\<rparr>"

theorem UnmarshalBinary_truncated_witness:
  "\<exists>e. UnmarshalBinary (take 20 (MarshalBinary (example_frame 5 0 [1, 2, 3] True))) = Inl e
     \<and> frame_error_cause e = Some ErrUnexpectedEOF"
proof -
  let ?f = "example_frame 5 0 [1, 2, 3] True"
  have ok: "frame_ok ?f" by (simp add: frame_ok_def example_frame_def MaxFrameLen_def)
  have l: "length (MarshalBinary ?f) = 26" by (simp add: MarshalBinary_def example_frame_def)
  have p: "strict_prefix (take 20 (MarshalBinary ?f)) (MarshalBinary ?f)"
    using take_is_prefix [of 20 "MarshalBinary ?f"] l by (auto simp: strict_prefix_def dest: arg_cong [of _ _ length])
  show ?thesis using UnmarshalBinary_truncated [OF ok p] l by auto
qed

end
