(* ===== verification/Derive_Errors.thy ===== *)
theory Derive_Errors
  imports Main
begin

text \<open>
  The errors of the derivation pipeline and their severity
  (\<^verbatim>\<open>rhs-node/rollup/derive/error.go\<close>), with \<open>errors.Is\<close> of the standard library on them.
  \<open>D_EOF\<close> is \<open>io.EOF\<close>, \<open>D_Wrap\<close> an error wrapped with \<open>fmt.Errorf("...: %w")\<close>,
  \<open>D_New\<close> one made by \<open>errors.New\<close> or by \<open>fmt.Errorf\<close> without a wrapped error.
\<close>

datatype error_level = LevelTemporary | LevelReset | LevelCritical

datatype derive_error =
  D_EOF
  | ErrTypedTxTooShort
  | NotEnoughData
  | EngineELSyncing
  | D_New string
  | D_Wrap string derive_error
  | D_Error "derive_error option" error_level

definition NewTemporaryError :: "derive_error option \<Rightarrow> derive_error" where
  "NewTemporaryError err = D_Error err LevelTemporary"

definition NewResetError :: "derive_error option \<Rightarrow> derive_error" where
  "NewResetError err = D_Error err LevelReset"

definition NewCriticalError :: "derive_error option \<Rightarrow> derive_error" where
  "NewCriticalError err = D_Error err LevelCritical"

fun Error_Is :: "error_level \<Rightarrow> derive_error \<Rightarrow> bool" where
  "Error_Is lvl (D_Error _ l) = (lvl = l)"
| "Error_Is lvl _ = False"

fun errors_Is :: "derive_error \<Rightarrow> derive_error \<Rightarrow> bool" where
  "errors_Is (D_Error None l) target = (D_Error None l = target \<or> Error_Is l target)"
| "errors_Is (D_Error (Some e) l) target =
     (D_Error (Some e) l = target \<or> Error_Is l target \<or> errors_Is e target)"
| "errors_Is (D_Wrap m e) target = (D_Wrap m e = target \<or> errors_Is e target)"
| "errors_Is e target = (e = target)"

lemma errors_Is_level [simp]:
  "errors_Is (NewTemporaryError err) (NewTemporaryError None)"
  "errors_Is (NewResetError err) (NewResetError None)"
  "errors_Is (NewCriticalError err) (NewCriticalError None)"
  by (cases err; simp add: NewTemporaryError_def NewResetError_def NewCriticalError_def)+

end
