(* ===== verification/Channels.thy ===== *)
theory Channels
  imports Frames Derive_Errors "HOL-Library.Multiset"
begin

text \<open>
  A channel: the buffer in which the frames of one channel identifier are collected, out of order
  before Holocene and strictly in order from Holocene on
  (\<^verbatim>\<open>rhs-node/rollup/derive/channel.go\<close>).
\<close>

record channel =
  ch_id :: channel_id
  ch_openBlock :: l1_block_ref
  ch_requireInOrder :: bool
  ch_size :: u64
  ch_closed :: bool
  ch_highestFrameNumber :: u16
  ch_endFrameNumber :: u16
  ch_inputs :: "(u64, frame) gomap"
  ch_highestL1InclusionBlock :: l1_block_ref

definition NewChannel :: "channel_id \<Rightarrow> l1_block_ref \<Rightarrow> bool \<Rightarrow> channel" where
  "NewChannel i openBlock requireInOrder =
     \<lparr>ch_id = i, ch_openBlock = openBlock, ch_requireInOrder = requireInOrder, ch_size = 0,
      ch_closed = False, ch_highestFrameNumber = 0, ch_endFrameNumber = 0, ch_inputs = [],
      ch_highestL1InclusionBlock = zero_l1\<rparr>"

datatype add_frame_error =
  FrameIDMismatch | EndingFrameOnClosed | DuplicateErr | BeyondEndFrame | FrameOutOfOrder

text \<open>
  The scan over \<open>ch.inputs\<close> when a closing frame arrives below the highest frame seen. It visits
  every entry, deletes those at or above the end frame, and subtracts the size of each visited
  entry.
\<close>

fun prune_inputs :: "u64 \<Rightarrow> (u64, frame) gomap \<Rightarrow> (u64, frame) gomap \<times> u64 \<Rightarrow> (u64, frame) gomap \<times> u64" where
  "prune_inputs e [] (m, sz) = (m, sz)"
| "prune_inputs e ((idx, prunedFrame) # rest) (m, sz) =
     prune_inputs e rest (if idx \<ge> e then gm_del idx m else m, sz - frameSize prunedFrame)"

definition AddFrame :: "channel \<Rightarrow> frame \<Rightarrow> l1_block_ref \<Rightarrow> add_frame_error + channel" where
  "AddFrame ch f l1InclusionBlock =
     (let num = (ucast (fr_FrameNumber f) :: u64) in
      if fr_ID f \<noteq> ch_id ch then Inl FrameIDMismatch
      else if fr_IsLast f \<and> ch_closed ch then Inl EndingFrameOnClosed
      else if gm_get (ch_inputs ch) num \<noteq> None then Inl DuplicateErr
      else if ch_closed ch \<and> fr_FrameNumber f \<ge> ch_endFrameNumber ch then Inl BeyondEndFrame
      else if ch_requireInOrder ch \<and> unat (fr_FrameNumber f) \<noteq> gm_len (ch_inputs ch)
        then Inl FrameOutOfOrder
      else
        let ch = (if fr_IsLast f
                  then ch\<lparr>ch_endFrameNumber := fr_FrameNumber f, ch_closed := True\<rparr> else ch);
            ch = (if fr_IsLast f \<and> ch_endFrameNumber ch < ch_highestFrameNumber ch
                  then let (m, sz) = prune_inputs (ucast (ch_endFrameNumber ch)) (ch_inputs ch)
                                       (ch_inputs ch, ch_size ch)
                       in ch\<lparr>ch_inputs := m, ch_size := sz,
                             ch_highestFrameNumber := ch_endFrameNumber ch\<rparr>
                  else ch);
            ch = (if fr_FrameNumber f > ch_highestFrameNumber ch
                  then ch\<lparr>ch_highestFrameNumber := fr_FrameNumber f\<rparr> else ch);
            ch = (if l1_number (ch_highestL1InclusionBlock ch) < l1_number l1InclusionBlock
                  then ch\<lparr>ch_highestL1InclusionBlock := l1InclusionBlock\<rparr> else ch)
        in Inr (ch\<lparr>ch_inputs := gm_put num f (ch_inputs ch), ch_size := ch_size ch + frameSize f\<rparr>))"

definition OpenBlockNumber :: "channel \<Rightarrow> u64" where
  "OpenBlockNumber ch = l1_number (ch_openBlock ch)"

definition HighestBlock :: "channel \<Rightarrow> l1_block_ref" where
  "HighestBlock ch = ch_highestL1InclusionBlock ch"

definition IsReady :: "channel \<Rightarrow> bool" where
  "IsReady ch \<longleftrightarrow>
     ch_closed ch \<and> gm_len (ch_inputs ch) = unat (ch_endFrameNumber ch) + 1
     \<and> list_all (\<lambda>i. gm_get (ch_inputs ch) (of_nat i) \<noteq> None) [0..<unat (ch_endFrameNumber ch) + 1]"

text \<open>The data the reader yields; \<open>None\<close> is the panic of a missing frame.\<close>

definition Reader :: "channel \<Rightarrow> bytes option" where
  "Reader ch =
     map_option (concat \<circ> map fr_Data)
       (those (map (\<lambda>i. gm_get (ch_inputs ch) (of_nat i)) [0..<unat (ch_endFrameNumber ch) + 1]))"

section \<open>The channel invariant\<close>

text \<open>
  Keys are the numbers of the frames they map to; no key exceeds the highest frame number seen;
  a channel is closed exactly when it holds its last frame, which is its highest.
\<close>

definition chan_inv :: "channel \<Rightarrow> bool" where
  "chan_inv ch \<longleftrightarrow>
     gm_inv (ch_inputs ch)
     \<and> (\<forall>(k, f) \<in> set (ch_inputs ch). k = ucast (fr_FrameNumber f) \<and> fr_ID f = ch_id ch
          \<and> fr_FrameNumber f \<le> ch_highestFrameNumber ch
          \<and> (fr_IsLast f \<longleftrightarrow> ch_closed ch \<and> fr_FrameNumber f = ch_endFrameNumber ch))
     \<and> (ch_closed ch \<longrightarrow> ch_highestFrameNumber ch = ch_endFrameNumber ch
          \<and> gm_get (ch_inputs ch) (ucast (ch_endFrameNumber ch)) \<noteq> None)"

lemma prune_inputs_size:
  "snd (prune_inputs e es (m, sz)) = sz - sum_list (map (frameSize \<circ> snd) es)"
  by (induction es arbitrary: m sz) (auto simp: algebra_simps)

lemma prune_inputs_get:
  "gm_get (fst (prune_inputs e es (m, sz))) k =
     (if k \<in> fst ` set es \<and> k \<ge> e then None else gm_get m k)"
proof (induction es arbitrary: m sz)
  case (Cons x es)
  obtain idx f where "x = (idx, f)" by (cases x)
  with Cons show ?case by (auto simp: gm.get_del)
qed simp

lemma prune_inputs_inv: "gm_inv m \<Longrightarrow> gm_inv (fst (prune_inputs e es (m, sz)))"
  by (induction es arbitrary: m sz) (auto simp: gm.inv_del)

lemma prune_inputs_self:
  assumes "prune_inputs e m (m, sz) = (m', sz')"
  shows "gm_get m' k = (if k \<ge> e then None else gm_get m k)"
    and "gm_inv m \<Longrightarrow> gm_inv m'"
    and "sz' = sz - sum_list (map (frameSize \<circ> snd) m)"
proof -
  have m': "m' = fst (prune_inputs e m (m, sz))" "sz' = snd (prune_inputs e m (m, sz))"
    using assms by simp_all
  have "k \<notin> fst ` set m \<Longrightarrow> gm_get m k = None"
    by (simp add: gm_get_def map_of_eq_None_iff)
  then show "gm_get m' k = (if k \<ge> e then None else gm_get m k)"
    by (simp add: m' prune_inputs_get)
  show "gm_inv m \<Longrightarrow> gm_inv m'" by (simp add: m' prune_inputs_inv)
  show "sz' = sz - sum_list (map (frameSize \<circ> snd) m)" by (simp add: m' prune_inputs_size)
qed

text \<open>The channel after a successful \<open>AddFrame\<close>, field by field.\<close>

definition added_frame :: "channel \<Rightarrow> frame \<Rightarrow> l1_block_ref \<Rightarrow> channel" where
  "added_frame ch f b =
     (let num = fr_FrameNumber f; cut = (fr_IsLast f \<and> num < ch_highestFrameNumber ch);
          p = prune_inputs (ucast num) (ch_inputs ch) (ch_inputs ch, ch_size ch)
      in \<lparr>ch_id = ch_id ch, ch_openBlock = ch_openBlock ch, ch_requireInOrder = ch_requireInOrder ch,
          ch_size = (if cut then snd p else ch_size ch) + frameSize f,
          ch_closed = (ch_closed ch \<or> fr_IsLast f),
          ch_highestFrameNumber =
            (if cut then num else if ch_highestFrameNumber ch < num then num else ch_highestFrameNumber ch),
          ch_endFrameNumber = (if fr_IsLast f then num else ch_endFrameNumber ch),
          ch_inputs = gm_put (ucast num) f (if cut then fst p else ch_inputs ch),
          ch_highestL1InclusionBlock =
            (if l1_number (ch_highestL1InclusionBlock ch) < l1_number b then b
             else ch_highestL1InclusionBlock ch)\<rparr>)"

lemma AddFrame_eq:
  "AddFrame ch f b =
     (if fr_ID f \<noteq> ch_id ch then Inl FrameIDMismatch
      else if fr_IsLast f \<and> ch_closed ch then Inl EndingFrameOnClosed
      else if gm_get (ch_inputs ch) (ucast (fr_FrameNumber f)) \<noteq> None then Inl DuplicateErr
      else if ch_closed ch \<and> fr_FrameNumber f \<ge> ch_endFrameNumber ch then Inl BeyondEndFrame
      else if ch_requireInOrder ch \<and> unat (fr_FrameNumber f) \<noteq> gm_len (ch_inputs ch)
        then Inl FrameOutOfOrder
      else Inr (added_frame ch f b))"
  by (cases "fr_IsLast f"; cases "fr_FrameNumber f < ch_highestFrameNumber ch";
      cases "ch_highestFrameNumber ch < fr_FrameNumber f";
      cases "l1_number (ch_highestL1InclusionBlock ch) < l1_number b"; cases ch;
      simp add: AddFrame_def added_frame_def Let_def case_prod_beta)

lemma AddFrame_Inr:
  assumes "AddFrame ch f b = Inr ch'"
  shows "fr_ID f = ch_id ch" "\<not> (fr_IsLast f \<and> ch_closed ch)"
    "gm_get (ch_inputs ch) (ucast (fr_FrameNumber f)) = None"
    "ch_closed ch \<Longrightarrow> fr_FrameNumber f < ch_endFrameNumber ch"
    "ch_requireInOrder ch \<Longrightarrow> unat (fr_FrameNumber f) = gm_len (ch_inputs ch)"
    "ch' = added_frame ch f b"
  using assms by (auto simp: AddFrame_eq split: if_splits)

lemma added_frame_simps [simp]:
  "ch_id (added_frame ch f b) = ch_id ch"
  "ch_openBlock (added_frame ch f b) = ch_openBlock ch"
  "ch_requireInOrder (added_frame ch f b) = ch_requireInOrder ch"
  "ch_closed (added_frame ch f b) = (ch_closed ch \<or> fr_IsLast f)"
  "ch_endFrameNumber (added_frame ch f b) =
     (if fr_IsLast f then fr_FrameNumber f else ch_endFrameNumber ch)"
  "ch_highestFrameNumber (added_frame ch f b) =
     (if fr_IsLast f \<and> fr_FrameNumber f < ch_highestFrameNumber ch then fr_FrameNumber f
      else if ch_highestFrameNumber ch < fr_FrameNumber f then fr_FrameNumber f
      else ch_highestFrameNumber ch)"
  by (simp_all add: added_frame_def Let_def)

lemma added_frame_size:
  "\<not> (fr_IsLast f \<and> fr_FrameNumber f < ch_highestFrameNumber ch) \<Longrightarrow>
     ch_size (added_frame ch f b) = ch_size ch + frameSize f"
  by (auto simp: added_frame_def Let_def)

lemma added_frame_get:
  "gm_get (ch_inputs (added_frame ch f b)) k =
     (if k = ucast (fr_FrameNumber f) then Some f
      else if fr_IsLast f \<and> fr_FrameNumber f < ch_highestFrameNumber ch
              \<and> ucast (fr_FrameNumber f) \<le> k then None
      else gm_get (ch_inputs ch) k)"
  by (simp add: added_frame_def Let_def gm.get_put prune_inputs_self(1) [OF prod.collapse [symmetric]])

lemma added_frame_inv: "gm_inv (ch_inputs ch) \<Longrightarrow> gm_inv (ch_inputs (added_frame ch f b))"
  by (simp add: added_frame_def Let_def gm.inv_put prune_inputs_self(2) [OF prod.collapse [symmetric]])

section \<open>Every operation keeps the invariant\<close>

lemma chan_inv_get:
  assumes "chan_inv ch" and "gm_get (ch_inputs ch) k = Some f"
  shows "k = ucast (fr_FrameNumber f)" "fr_ID f = ch_id ch" "fr_FrameNumber f \<le> ch_highestFrameNumber ch"
    "fr_IsLast f \<longleftrightarrow> ch_closed ch \<and> fr_FrameNumber f = ch_endFrameNumber ch"
  using assms gm_get_mem [OF assms(2)] by (auto simp: chan_inv_def)

lemma chan_invI:
  assumes "gm_inv (ch_inputs ch)"
    and "\<And>k f. gm_get (ch_inputs ch) k = Some f \<Longrightarrow> k = ucast (fr_FrameNumber f) \<and> fr_ID f = ch_id ch
          \<and> fr_FrameNumber f \<le> ch_highestFrameNumber ch
          \<and> (fr_IsLast f \<longleftrightarrow> ch_closed ch \<and> fr_FrameNumber f = ch_endFrameNumber ch)"
    and "ch_closed ch \<Longrightarrow> ch_highestFrameNumber ch = ch_endFrameNumber ch
          \<and> gm_get (ch_inputs ch) (ucast (ch_endFrameNumber ch)) \<noteq> None"
  shows "chan_inv ch"
  using assms by (auto simp: chan_inv_def simp flip: gm_get_eq_mem)

lemma chan_inv_NewChannel [simp]: "chan_inv (NewChannel i b r)"
  by (rule chan_invI) (simp_all add: NewChannel_def gomap_simps)

lemma chan_inv_gm: "chan_inv ch \<Longrightarrow> gm_inv (ch_inputs ch)"
  by (simp add: chan_inv_def)

lemma chan_inv_closed:
  "chan_inv ch \<Longrightarrow> ch_closed ch \<Longrightarrow> ch_highestFrameNumber ch = ch_endFrameNumber ch"
  "chan_inv ch \<Longrightarrow> ch_closed ch \<Longrightarrow> gm_get (ch_inputs ch) (ucast (ch_endFrameNumber ch)) \<noteq> None"
  by (simp_all add: chan_inv_def)

lemma chan_inv_AddFrame:
  assumes "chan_inv ch" and "AddFrame ch f b = Inr ch'"
  shows "chan_inv ch'"
proof (rule chan_invI)
  note A = AddFrame_Inr [OF assms(2)]
  note C = chan_inv_closed [OF assms(1)]
  show "gm_inv (ch_inputs ch')" using assms(1) by (simp add: A(6) added_frame_inv chan_inv_gm)
  show "k = ucast (fr_FrameNumber g) \<and> fr_ID g = ch_id ch' \<and> fr_FrameNumber g \<le> ch_highestFrameNumber ch'
      \<and> (fr_IsLast g \<longleftrightarrow> ch_closed ch' \<and> fr_FrameNumber g = ch_endFrameNumber ch')"
    if "gm_get (ch_inputs ch') k = Some g" for k g
  proof (cases "k = ucast (fr_FrameNumber f)")
    case True
    with that have "g = f" by (simp add: A(6) added_frame_get)
    with True A(1,2) A(4) show ?thesis by (auto simp: A(6))
  next
    case False
    with that have old: "gm_get (ch_inputs ch) k = Some g"
      and low: "\<not> (fr_IsLast f \<and> fr_FrameNumber f < ch_highestFrameNumber ch \<and> ucast (fr_FrameNumber f) \<le> k)"
      by (simp_all add: A(6) added_frame_get split: if_splits)
    note G = chan_inv_get [OF assms(1) old]
    have ne: "fr_FrameNumber f \<noteq> fr_FrameNumber g" using False G(1) by auto
    show ?thesis
    proof (cases "fr_IsLast f")
      case True
      with A(2) have open_ch: "\<not> ch_closed ch" by simp
      have "fr_FrameNumber g < fr_FrameNumber f"
        using low True G(1,3) ne by (cases "fr_FrameNumber f < ch_highestFrameNumber ch") auto
      with True G open_ch ne show ?thesis by (auto simp: A(6) intro: less_imp_le)
    next
      case False
      with G show ?thesis by (auto simp: A(6))
    qed
  qed
  show "ch_highestFrameNumber ch' = ch_endFrameNumber ch'
      \<and> gm_get (ch_inputs ch') (ucast (ch_endFrameNumber ch')) \<noteq> None" if "ch_closed ch'"
    using that A(4) C by (cases "fr_IsLast f") (auto simp: A(6) added_frame_get)
qed

section \<open>Reading a complete channel\<close>

text \<open>The frames of a complete channel, in order: numbered from zero, only the last one marked.\<close>

definition channel_frames :: "channel_id \<Rightarrow> frame list \<Rightarrow> bool" where
  "channel_frames i fs \<longleftrightarrow>
     fs \<noteq> [] \<and> length fs \<le> 65536
     \<and> list_all (\<lambda>n. fr_ID (fs ! n) = i \<and> unat (fr_FrameNumber (fs ! n)) = n
                    \<and> (fr_IsLast (fs ! n) \<longleftrightarrow> Suc n = length fs)) [0..<length fs]"

lemma channel_frames_nth:
  assumes "channel_frames i fs" and "n < length fs"
  shows "fr_ID (fs ! n) = i" "unat (fr_FrameNumber (fs ! n)) = n" "fr_IsLast (fs ! n) \<longleftrightarrow> Suc n = length fs"
  using assms by (auto simp: channel_frames_def list_all_iff)

lemma of_nat_u64_eq_ucast: "unat (a :: u16) = n \<Longrightarrow> (of_nat n :: u64) = ucast a"
  by auto

lemma IsReady_frames:
  assumes "chan_inv ch" and "IsReady ch"
  obtains fs where "channel_frames (ch_id ch) fs" "Reader ch = Some (concat (map fr_Data fs))"
    "length fs = unat (ch_endFrameNumber ch) + 1"
    "\<And>n. n < length fs \<Longrightarrow> gm_get (ch_inputs ch) (of_nat n) = Some (fs ! n)"
proof -
  let ?e = "unat (ch_endFrameNumber ch)"
  define fs where "fs = map (\<lambda>n. the (gm_get (ch_inputs ch) (of_nat n))) [0..<?e + 1]"
  have e: "?e < 65536" by (rule unat_u16_less)
  have len: "length fs = ?e + 1" by (simp add: fs_def)
  have get: "gm_get (ch_inputs ch) (of_nat n) = Some (fs ! n)" if "n < length fs" for n
  proof -
    have "gm_get (ch_inputs ch) (of_nat n) \<noteq> None"
      using assms(2) that by (auto simp: IsReady_def list_all_iff len less_Suc_eq_le)
    then show ?thesis using that by (auto simp: fs_def simp del: upt_Suc)
  qed
  have "fr_ID (fs ! n) = ch_id ch \<and> unat (fr_FrameNumber (fs ! n)) = n
      \<and> (fr_IsLast (fs ! n) \<longleftrightarrow> Suc n = length fs)" if "n < length fs" for n
  proof -
    note G = chan_inv_get [OF assms(1) get [OF that]]
    have "unat (of_nat n :: u64) = n" using that e len by (simp add: unat_of_nat)
    with G(1) have num: "unat (fr_FrameNumber (fs ! n)) = n" by (metis unat_ucast_u16)
    moreover have "ch_closed ch" using assms(2) by (simp add: IsReady_def)
    ultimately show ?thesis using G(2,4) len by (auto simp: word_unat_eq_iff)
  qed
  then have cf: "channel_frames (ch_id ch) fs"
    using e len by (auto simp: channel_frames_def list_all_iff)
  have "those (map (\<lambda>n. gm_get (ch_inputs ch) (of_nat n)) [0..<?e + 1]) = Some (map ((!) fs) [0..<?e + 1])"
    by (intro those_map ballI get) (simp only: set_upt atLeastLessThan_iff len)
  moreover have "map ((!) fs) [0..<?e + 1] = fs" using len by (metis map_nth)
  ultimately have "Reader ch = Some (concat (map fr_Data fs))" by (simp add: Reader_def)
  with cf len get show thesis by (intro that)
qed

text \<open>C35: reading a ready channel never hits the panic of a missing frame. The data is that of frames
  numbered from 0 to the end frame, in this order, all of the channel's identifier, of which exactly
  the final one is marked as last.\<close>
theorem Reader_ready:
  assumes "chan_inv ch" and "IsReady ch"
  shows "\<exists>fs. channel_frames (ch_id ch) fs \<and> Reader ch = Some (concat (map fr_Data fs))
     \<and> length fs = gm_len (ch_inputs ch) \<and> set fs = snd ` set (ch_inputs ch)"
proof -
  from IsReady_frames [OF assms] obtain fs where fs: "channel_frames (ch_id ch) fs"
    "Reader ch = Some (concat (map fr_Data fs))" "length fs = unat (ch_endFrameNumber ch) + 1"
    "\<And>n. n < length fs \<Longrightarrow> gm_get (ch_inputs ch) (of_nat n) = Some (fs ! n)" by blast
  have "set fs \<subseteq> snd ` set (ch_inputs ch)"
    using gm_get_mem [OF fs(4)] by (force simp: in_set_conv_nth)
  moreover have "f \<in> set fs" if "(k, f) \<in> set (ch_inputs ch)" for k f
  proof -
    have k: "gm_get (ch_inputs ch) k = Some f"
      using that assms(1) by (simp add: gm_get_eq_mem chan_inv_gm)
    note G = chan_inv_get [OF assms(1) k]
    let ?n = "unat (fr_FrameNumber f)"
    have "fr_FrameNumber f \<le> ch_endFrameNumber ch"
      using G(3) assms chan_inv_closed(1) [OF assms(1)] by (simp add: IsReady_def)
    then have n: "?n < length fs" using fs(3) by (simp add: word_le_nat_alt less_Suc_eq_le)
    have "gm_get (ch_inputs ch) (of_nat ?n) = Some f" using k G(1) by simp
    with fs(4) [OF n] have "f = fs ! ?n" by simp
    with n show ?thesis by (metis nth_mem)
  qed
  then have "snd ` set (ch_inputs ch) \<subseteq> set fs" by auto
  moreover have "length fs = gm_len (ch_inputs ch)" using assms(2) fs(3) by (simp add: IsReady_def)
  ultimately show ?thesis using fs(1,2) by blast
qed

section \<open>Frames in any order\<close>

fun add_frames :: "channel \<Rightarrow> (frame \<times> l1_block_ref) list \<Rightarrow> add_frame_error + channel" where
  "add_frames ch [] = Inr ch"
| "add_frames ch ((f, b) # fs) = (case AddFrame ch f b of Inl e \<Rightarrow> Inl e | Inr ch \<Rightarrow> add_frames ch fs)"

text \<open>A channel that has received exactly the frames \<open>S\<close> of the complete channel \<open>fs\<close>.\<close>

definition received :: "frame list \<Rightarrow> channel \<Rightarrow> frame set \<Rightarrow> bool" where
  "received fs ch S \<longleftrightarrow>
     chan_inv ch \<and> channel_frames (ch_id ch) fs \<and> \<not> ch_requireInOrder ch \<and> S \<subseteq> set fs
     \<and> (\<forall>k g. gm_get (ch_inputs ch) k = Some g \<longleftrightarrow> g \<in> S \<and> k = ucast (fr_FrameNumber g))
     \<and> (ch_closed ch \<longleftrightarrow> last fs \<in> S) \<and> (ch_closed ch \<longrightarrow> ch_endFrameNumber ch = fr_FrameNumber (last fs))
     \<and> ch_highestFrameNumber ch \<le> fr_FrameNumber (last fs)"

lemma channel_frames_mem:
  assumes "channel_frames i fs" and "f \<in> set fs"
  shows "fr_ID f = i" "fr_FrameNumber f \<le> fr_FrameNumber (last fs)" "fr_IsLast f \<longleftrightarrow> f = last fs"
    "g \<in> set fs \<Longrightarrow> fr_FrameNumber f = fr_FrameNumber g \<Longrightarrow> f = g" "last fs \<in> set fs"
proof -
  from assms(1) have ne: "fs \<noteq> []" by (simp add: channel_frames_def)
  from assms(2) obtain n where n: "f = fs ! n" "n < length fs" by (auto simp: in_set_conv_nth)
  note N = channel_frames_nth [OF assms(1)]
  have last: "last fs = fs ! (length fs - 1)" "unat (fr_FrameNumber (last fs)) = length fs - 1"
    using ne N(2) [of "length fs - 1"] by (simp_all add: last_conv_nth)
  show "fr_ID f = i" using N(1) n by simp
  show "fr_FrameNumber f \<le> fr_FrameNumber (last fs)"
    using N(2) [OF n(2)] n last(2) by (simp add: word_le_nat_alt)
  show "f = g" if "g \<in> set fs" "fr_FrameNumber f = fr_FrameNumber g" for g
    using that n N(2) by (metis in_set_conv_nth)
  show "last fs \<in> set fs" using ne by simp
  show "fr_IsLast f \<longleftrightarrow> f = last fs"
    using N(3) [OF n(2)] N(2) [OF n(2)] n last by (metis Suc_diff_1 diff_Suc_1 length_greater_0_conv ne)
qed

lemma received_AddFrame:
  assumes "received fs ch S" and "f \<in> set fs" and "f \<notin> S"
  shows "\<exists>ch'. AddFrame ch f b = Inr ch' \<and> received fs ch' (insert f S) \<and> ch_id ch' = ch_id ch"
proof -
  note R = assms(1) [unfolded received_def]
  from R have cf: "channel_frames (ch_id ch) fs" and inv: "chan_inv ch" and S: "S \<subseteq> set fs" by auto
  note M = channel_frames_mem [OF cf assms(2)]
  have none: "gm_get (ch_inputs ch) (ucast (fr_FrameNumber f)) = None"
    using R M(4) S assms(3) by (cases "gm_get (ch_inputs ch) (ucast (fr_FrameNumber f))") auto
  have cl: "f = last fs \<Longrightarrow> \<not> ch_closed ch" using R assms(3) by auto
  have lt: "ch_closed ch \<Longrightarrow> fr_FrameNumber f < ch_endFrameNumber ch"
    using R M(2) M(4) [OF M(5)] cl by (metis order.not_eq_order_implies_strict)
  have cut: "\<not> (fr_IsLast f \<and> fr_FrameNumber f < ch_highestFrameNumber ch)"
    using R M(3) by auto
  have add: "AddFrame ch f b = Inr (added_frame ch f b)"
    using R M(1,3) none cl lt by (auto simp: AddFrame_eq not_le)
  moreover have "received fs (added_frame ch f b) (insert f S)"
    unfolding received_def
  proof (intro conjI allI)
    show "chan_inv (added_frame ch f b)" by (rule chan_inv_AddFrame [OF inv add])
    show "gm_get (ch_inputs (added_frame ch f b)) k = Some g \<longleftrightarrow>
        g \<in> insert f S \<and> k = ucast (fr_FrameNumber g)" for k g
      using R cut M(4) S by (auto simp: added_frame_get)
  qed (use R M assms(2) cl cut in auto)
  ultimately show ?thesis by auto
qed

lemma received_add_frames:
  "received fs ch S \<Longrightarrow> distinct (map fst ps) \<Longrightarrow> fst ` set ps \<subseteq> set fs - S \<Longrightarrow>
     \<exists>ch'. add_frames ch ps = Inr ch' \<and> received fs ch' (S \<union> fst ` set ps) \<and> ch_id ch' = ch_id ch"
proof (induction ps arbitrary: ch S)
  case (Cons p ps)
  obtain f b where p: "p = (f, b)" by (cases p)
  from Cons.prems p obtain ch1 where 1: "AddFrame ch f b = Inr ch1" "received fs ch1 (insert f S)"
    "ch_id ch1 = ch_id ch"
    using received_AddFrame [of fs ch S f b] by auto
  from Cons.IH [OF 1(2)] Cons.prems p obtain ch2 where "add_frames ch1 ps = Inr ch2"
    "received fs ch2 (insert f S \<union> fst ` set ps)" "ch_id ch2 = ch_id ch1" by auto
  with 1 p show ?case by auto
qed simp

lemma received_NewChannel: "channel_frames i fs \<Longrightarrow> received fs (NewChannel i b False) {}"
  by (auto simp: received_def NewChannel_def gomap_simps chan_inv_NewChannel [unfolded NewChannel_def])

lemma received_all:
  assumes "received fs ch (set fs)"
  shows "IsReady ch" "Reader ch = Some (concat (map fr_Data fs))"
proof -
  note R = assms [unfolded received_def]
  from R have cf: "channel_frames (ch_id ch) fs" and inv: "chan_inv ch" by auto
  note N = channel_frames_nth [OF cf]
  have ne: "fs \<noteq> []" "length fs \<le> 65536" using cf by (auto simp: channel_frames_def)
  have closed: "ch_closed ch" using R ne by auto
  have e: "unat (ch_endFrameNumber ch) + 1 = length fs"
    using R closed ne N(2) [of "length fs - 1"] by (simp add: last_conv_nth)
  have get: "gm_get (ch_inputs ch) (of_nat n) = Some (fs ! n)" if "n < length fs" for n
    using R that of_nat_u64_eq_ucast [OF N(2) [OF that]] by auto
  have "dom (gm_get (ch_inputs ch)) = (\<lambda>g. ucast (fr_FrameNumber g)) ` set fs"
    using R by (auto simp: dom_def)
  moreover have "inj_on (\<lambda>g. ucast (fr_FrameNumber g) :: u64) (set fs)"
    using channel_frames_mem(4) [OF cf] by (auto simp: inj_on_def)
  moreover have "distinct fs" using N(2) by (auto simp: distinct_conv_nth) metis
  ultimately have "gm_len (ch_inputs ch) = length fs"
    using gm.len_dom [OF chan_inv_gm [OF inv]] by (simp add: card_image distinct_card)
  then show ready: "IsReady ch"
    using closed e get by (auto simp: IsReady_def list_all_iff simp del: upt_Suc)
  from IsReady_frames [OF inv ready] obtain fs' where fs': "Reader ch = Some (concat (map fr_Data fs'))"
    "length fs' = unat (ch_endFrameNumber ch) + 1"
    "\<And>n. n < length fs' \<Longrightarrow> gm_get (ch_inputs ch) (of_nat n) = Some (fs' ! n)" by metis
  have "fs' = fs" using fs'(2,3) e get by (intro nth_equalityI) auto
  with fs'(1) show "Reader ch = Some (concat (map fr_Data fs))" by simp
qed

text \<open>C5: before Holocene, the frames of a complete channel can arrive in any order and in any L1
  blocks: every one of them is accepted, the channel becomes ready, and reading it gives the data of
  the frames in the order of their numbers, so what the batcher split is put together again.\<close>
theorem channel_any_order:
  assumes "channel_frames i fs" and "mset (map fst ps) = mset fs"
  shows "\<exists>ch. add_frames (NewChannel i b False) ps = Inr ch \<and> IsReady ch
     \<and> Reader ch = Some (concat (map fr_Data fs))"
proof -
  have "distinct fs"
    using channel_frames_nth(2) [OF assms(1)] by (auto simp: distinct_conv_nth) metis
  with assms(2) have "distinct (map fst ps)" "fst ` set ps = set fs"
    by (metis mset_eq_imp_distinct_iff) (metis assms(2) list.set_map mset_eq_setD)
  then show ?thesis
    using received_add_frames [OF received_NewChannel [OF assms(1), of b], of ps] received_all by auto
qed

theorem channel_any_order_witness:
  "\<exists>ch. add_frames (NewChannel 5 zero_l1 False)
          [(example_frame 5 2 [4] True, zero_l1), (example_frame 5 0 [1, 2] False, zero_l1),
           (example_frame 5 1 [3] False, zero_l1)] = Inr ch
     \<and> Reader ch = Some [1, 2, 3, 4]"
proof -
  let ?fs = "[example_frame 5 0 [1, 2] False, example_frame 5 1 [3] False, example_frame 5 2 [4] True]"
  let ?ps = "[(example_frame 5 2 [4] True, zero_l1), (example_frame 5 0 [1, 2] False, zero_l1),
           (example_frame 5 1 [3] False, zero_l1)]"
  have "channel_frames 5 ?fs" by (simp add: channel_frames_def example_frame_def upt_rec)
  moreover have "mset (map fst ?ps) = mset ?fs" by simp
  ultimately have "\<exists>ch. add_frames (NewChannel 5 zero_l1 False) ?ps = Inr ch \<and> IsReady ch
      \<and> Reader ch = Some (concat (map fr_Data ?fs))"
    by (rule channel_any_order)
  then show ?thesis by (auto simp: example_frame_def)
qed

definition example_channel :: channel where
  "example_channel =
     \<lparr>ch_id = 5, ch_openBlock = zero_l1, ch_requireInOrder = False, ch_size = 403, ch_closed = True,
      ch_highestFrameNumber = 1, ch_endFrameNumber = 1,
      ch_inputs = [(0, example_frame 5 0 [1, 2] False), (1, example_frame 5 1 [3] True)],
      ch_highestL1InclusionBlock = zero_l1\<rparr>"

theorem Reader_ready_witness: "\<exists>fs. channel_frames 5 fs \<and> Reader example_channel = Some (concat (map fr_Data fs))"
proof -
  have "chan_inv example_channel"
    by (simp add: chan_inv_def example_channel_def example_frame_def gm_inv_def gm_get_def)
  moreover have "IsReady example_channel"
    by (simp add: IsReady_def example_channel_def gm_len_def gm_get_def)
  ultimately show ?thesis using Reader_ready [of example_channel] by (auto simp: example_channel_def)
qed

section \<open>Frames in order\<close>

text \<open>A channel that follows the Holocene rules and has received \<open>fs\<close>, not yet the last frame.\<close>

definition holds_frames :: "channel \<Rightarrow> frame list \<Rightarrow> bool" where
  "holds_frames ch fs \<longleftrightarrow>
     chan_inv ch \<and> ch_requireInOrder ch \<and> \<not> ch_closed ch
     \<and> gm_len (ch_inputs ch) = length fs \<and> length fs \<le> 65536
     \<and> (\<forall>n < length fs. gm_get (ch_inputs ch) (of_nat n) = Some (fs ! n))
     \<and> unat (ch_highestFrameNumber ch) = length fs - 1
     \<and> ch_size ch = sum_list (map frameSize fs)"

lemma holds_NewChannel: "holds_frames (NewChannel i b True) []"
  using chan_inv_NewChannel by (simp add: holds_frames_def) (simp add: NewChannel_def gm_len_def)

text \<open>With in-order delivery the pruning branch of \<open>AddFrame\<close> is never taken, and the size of the
  channel is the sum of the sizes of its frames.\<close>

lemma holds_AddFrame:
  assumes "holds_frames ch fs" and "AddFrame ch f b = Inr ch'"
  shows "\<not> (fr_IsLast f \<and> fr_FrameNumber f < ch_highestFrameNumber ch)"
    "fr_ID f = ch_id ch" "unat (fr_FrameNumber f) = length fs" "ch_id ch' = ch_id ch"
    "\<And>n. n < length (fs @ [f]) \<Longrightarrow> gm_get (ch_inputs ch') (of_nat n) = Some ((fs @ [f]) ! n)"
    "gm_len (ch_inputs ch') = length (fs @ [f])"
    "ch_size ch' = sum_list (map frameSize (fs @ [f]))"
    "\<not> fr_IsLast f \<Longrightarrow> holds_frames ch' (fs @ [f])"
proof -
  note A = AddFrame_Inr [OF assms(2)] and H = assms(1) [unfolded holds_frames_def]
  have high: "unat (ch_highestFrameNumber ch) = length fs - 1" using H by blast
  show num: "unat (fr_FrameNumber f) = length fs" using A(5) H by simp
  then have key: "(of_nat (length fs) :: u64) = ucast (fr_FrameNumber f)" by (rule of_nat_u64_eq_ucast)
  have small: "length fs < 65536" using num unat_u16_less [of "fr_FrameNumber f"] by simp
  show cut: "\<not> (fr_IsLast f \<and> fr_FrameNumber f < ch_highestFrameNumber ch)"
  proof -
    have "unat (ch_highestFrameNumber ch) \<le> unat (fr_FrameNumber f)" using H num by simp
    then show ?thesis by (simp add: word_less_nat_alt)
  qed
  show "fr_ID f = ch_id ch" "ch_id ch' = ch_id ch" using A by simp_all
  have nkey: "(of_nat n :: u64) \<noteq> ucast (fr_FrameNumber f)" if "n < length fs" for n
  proof
    assume "(of_nat n :: u64) = ucast (fr_FrameNumber f)"
    then have "unat (of_nat n :: u64) = length fs" by (simp add: num)
    with that small show False by (simp add: unat_of_nat)
  qed
  show get: "gm_get (ch_inputs ch') (of_nat n) = Some ((fs @ [f]) ! n)" if "n < length (fs @ [f])" for n
  proof (cases "n = length fs")
    case True
    then show ?thesis by (simp add: A(6) added_frame_get key)
  next
    case False
    with that have "n < length fs" by simp
    with nkey [of n] H cut show ?thesis by (auto simp: A(6) added_frame_get nth_append)
  qed
  have dom: "dom (gm_get (ch_inputs ch')) = insert (ucast (fr_FrameNumber f)) (dom (gm_get (ch_inputs ch)))"
    using cut by (auto simp: A(6) added_frame_get dom_def)
  have inv: "chan_inv ch" "chan_inv ch'" using H chan_inv_AddFrame [OF _ assms(2)] by auto
  show len: "gm_len (ch_inputs ch') = length (fs @ [f])"
    using gm.len_dom [OF chan_inv_gm [OF inv(1)]] gm.len_dom [OF chan_inv_gm [OF inv(2)]] A(3) H
    by (simp add: dom gm.fin_dom domIff)
  show size: "ch_size ch' = sum_list (map frameSize (fs @ [f]))"
    using H cut by (simp add: A(6) added_frame_size)
  have "unat (ch_highestFrameNumber ch') = length fs"
    using high num
    by (cases fs) (auto simp: A(6) word_less_nat_alt)
  then show "\<not> fr_IsLast f \<Longrightarrow> holds_frames ch' (fs @ [f])"
    using inv H get len size small by (simp add: holds_frames_def A(6))
qed

lemma holds_not_ready: "holds_frames ch fs \<Longrightarrow> \<not> IsReady ch"
  by (simp add: holds_frames_def IsReady_def)

lemma holds_AddFrame_last:
  assumes "holds_frames ch fs" and "AddFrame ch f b = Inr ch'" and "fr_IsLast f"
  shows "IsReady ch'" "Reader ch' = Some (concat (map fr_Data (fs @ [f])))"
    "channel_frames (ch_id ch) (fs @ [f])"
proof -
  note A = AddFrame_Inr [OF assms(2)] and F = holds_AddFrame [OF assms(1,2)]
  have inv: "chan_inv ch'" using assms chan_inv_AddFrame by (auto simp: holds_frames_def)
  have e: "unat (ch_endFrameNumber ch') = length fs" using F(3) assms(3) by (simp add: A(6))
  show ready: "IsReady ch'"
    using assms(3) e F(5,6) by (auto simp: IsReady_def list_all_iff A(6) simp del: upt_Suc)
  from IsReady_frames [OF inv ready] obtain fs' where fs': "channel_frames (ch_id ch') fs'"
    "Reader ch' = Some (concat (map fr_Data fs'))" "length fs' = unat (ch_endFrameNumber ch') + 1"
    "\<And>n. n < length fs' \<Longrightarrow> gm_get (ch_inputs ch') (of_nat n) = Some (fs' ! n)" by blast
  have "fs' = fs @ [f]" using fs'(3,4) e F(5) by (intro nth_equalityI) auto
  with fs' F(4) show "Reader ch' = Some (concat (map fr_Data (fs @ [f])))"
    "channel_frames (ch_id ch) (fs @ [f])" by simp_all
qed

section \<open>The size of a channel after pruning\<close>

text \<open>
  The size of a channel is meant to be the sum of the sizes of its frames. The scan that prunes
  frames beyond the end frame subtracts the sizes of the frames it keeps, too: here two frames are
  left, and the size is that of one.
\<close>

lemma AddFrame_size_after_pruning:
  "let f1 = example_frame 5 1 [1] False; f5 = example_frame 5 5 [1] False; f3 = example_frame 5 3 [1] True
   in \<exists>ch. add_frames (NewChannel 5 zero_l1 False) [(f1, zero_l1), (f5, zero_l1), (f3, zero_l1)] = Inr ch
        \<and> map snd (ch_inputs ch) = [f1, f3] \<and> ch_size ch = frameSize f3
        \<and> frameSize f1 + frameSize f3 = 402"
  by (simp add: AddFrame_eq added_frame_def NewChannel_def example_frame_def gm_get_def gm_put_def
      gm_del_def frameSize_def frameOverhead_def) (simp add: word_le_nat_alt)

end
