(* ===== verification/Channel_Bank.thy ===== *)
theory Channel_Bank
  imports Channels
begin

text \<open>
  The channel bank, the channel stage before Holocene
  (\<^verbatim>\<open>rhs-node/rollup/derive/channel_bank.go\<close>): channels by identifier, a FIFO queue of
  identifiers, pruning by total size, timeouts, and reading of ready channels.

  A panic of the source (a nil channel dereferenced, an index out of range) is \<open>None\<close>. The
  stage in front is the parameter \<open>next_frame\<close> on that stage's state, with its L1 \<open>Origin\<close>.
\<close>

record channel_bank =
  cb_cfg :: config
  cb_channels :: "(channel_id, channel) gomap"
  cb_channelQueue :: "channel_id list"

definition NewChannelBank :: "config \<Rightarrow> channel_bank" where
  "NewChannelBank c = \<lparr>cb_cfg = c, cb_channels = [], cb_channelQueue = []\<rparr>"

section \<open>Pruning\<close>

text \<open>The size the source adds up over the map, with the wrap-around of \<open>uint64\<close>.\<close>

definition bank_size :: "(channel_id, channel) gomap \<Rightarrow> u64" where
  "bank_size m = sum_list (map (ch_size \<circ> snd) m)"

fun bank_prune_loop ::
  "u64 \<Rightarrow> u64 \<Rightarrow> channel_id list \<Rightarrow> (channel_id, channel) gomap
     \<Rightarrow> (channel_id list \<times> (channel_id, channel) gomap) option" where
  "bank_prune_loop limit totalSize [] m = (if totalSize > limit then None else Some ([], m))"
| "bank_prune_loop limit totalSize (i # queue) m =
     (if totalSize > limit
      then case gm_get m i of
             None \<Rightarrow> None
           | Some ch \<Rightarrow> bank_prune_loop limit (totalSize - ch_size ch) queue (gm_del i m)
      else Some (i # queue, m))"

definition bank_prune :: "channel_bank \<Rightarrow> l1_block_ref \<Rightarrow> channel_bank option" where
  "bank_prune cb origin =
     map_option (\<lambda>(queue, m). cb\<lparr>cb_channelQueue := queue, cb_channels := m\<rparr>)
       (bank_prune_loop (MaxChannelBankSize (cb_cfg cb) (l1_time origin)) (bank_size (cb_channels cb))
          (cb_channelQueue cb) (cb_channels cb))"

section \<open>Ingesting a frame\<close>

text \<open>\<open>ch.OpenBlockNumber()+spec.ChannelTimeout(origin.Time) < origin.Number\<close>, wrapping.\<close>

definition bank_timed_out :: "config \<Rightarrow> l1_block_ref \<Rightarrow> channel \<Rightarrow> bool" where
  "bank_timed_out c origin ch \<longleftrightarrow> OpenBlockNumber ch + ChannelTimeout c (l1_time origin) < l1_number origin"

definition IngestFrame :: "channel_bank \<Rightarrow> l1_block_ref \<Rightarrow> frame \<Rightarrow> channel_bank option" where
  "IngestFrame cb origin f =
     (let (cb, currentCh) =
            (case gm_get (cb_channels cb) (fr_ID f) of
               Some ch \<Rightarrow> (cb, ch)
             | None \<Rightarrow>
                 let ch = NewChannel (fr_ID f) origin False
                 in (cb\<lparr>cb_channels := gm_put (fr_ID f) ch (cb_channels cb),
                        cb_channelQueue := cb_channelQueue cb @ [fr_ID f]\<rparr>, ch))
      in if bank_timed_out (cb_cfg cb) origin currentCh then Some cb
         else case AddFrame currentCh f origin of
                Inl err \<Rightarrow> Some cb
              | Inr ch \<Rightarrow> bank_prune (cb\<lparr>cb_channels := gm_put (fr_ID f) ch (cb_channels cb)\<rparr>) origin)"

section \<open>Reading\<close>

text \<open>\<open>Inl D_EOF\<close> with an unchanged bank when the channel cannot be read. The outer option is
  a panic: an index beyond the queue, a nil channel, or a missing frame in \<open>Reader\<close>.\<close>

definition tryReadChannelAtIndex ::
  "channel_bank \<Rightarrow> l1_block_ref \<Rightarrow> nat \<Rightarrow> ((derive_error + bytes) \<times> channel_bank) option" where
  "tryReadChannelAtIndex cb origin i =
     (if i \<ge> length (cb_channelQueue cb) then None
      else let chanID = cb_channelQueue cb ! i
           in case gm_get (cb_channels cb) chanID of
                None \<Rightarrow> None
              | Some ch \<Rightarrow>
                  if bank_timed_out (cb_cfg cb) origin ch \<or> \<not> IsReady ch then Some (Inl D_EOF, cb)
                  else let cb = cb\<lparr>cb_channels := gm_del chanID (cb_channels cb),
                                   cb_channelQueue := take i (cb_channelQueue cb)
                                                        @ drop (i + 1) (cb_channelQueue cb)\<rparr>
                       in map_option (\<lambda>data. (Inr data, cb)) (Reader ch))"

text \<open>The loop over the queue from Canyon on; it does not modify the bank until a read succeeds.\<close>

fun read_loop :: "channel_bank \<Rightarrow> l1_block_ref \<Rightarrow> nat list \<Rightarrow> ((derive_error + bytes) \<times> channel_bank) option" where
  "read_loop cb origin [] = Some (Inl D_EOF, cb)"
| "read_loop cb origin (i # is) =
     (case tryReadChannelAtIndex cb origin i of
        None \<Rightarrow> None
      | Some (Inr data, cb') \<Rightarrow> Some (Inr data, cb')
      | Some (Inl err, cb') \<Rightarrow> read_loop cb' origin is)"

text \<open>A timed-out head channel is dropped and \<open>nil, nil\<close> returned: no data, no error.\<close>

definition bank_Read :: "channel_bank \<Rightarrow> l1_block_ref \<Rightarrow> ((derive_error + bytes) \<times> channel_bank) option" where
  "bank_Read cb origin =
     (case cb_channelQueue cb of
        [] \<Rightarrow> Some (Inl D_EOF, cb)
      | first # queue \<Rightarrow>
          (case gm_get (cb_channels cb) first of
             None \<Rightarrow> None
           | Some ch \<Rightarrow>
               if bank_timed_out (cb_cfg cb) origin ch
               then Some (Inr [], cb\<lparr>cb_channels := gm_del first (cb_channels cb), cb_channelQueue := queue\<rparr>)
               else if \<not> IsCanyon (cb_cfg cb) (l1_time origin) then tryReadChannelAtIndex cb origin 0
               else read_loop cb origin [0..<length (cb_channelQueue cb)]))"

definition bank_NextRawChannel ::
  "('p \<Rightarrow> (derive_error + frame) \<times> 'p) \<Rightarrow> ('p \<Rightarrow> l1_block_ref) \<Rightarrow> channel_bank \<Rightarrow> 'p
     \<Rightarrow> ((derive_error + bytes) \<times> channel_bank \<times> 'p) option" where
  "bank_NextRawChannel next_frame Origin cb p =
     (case bank_Read cb (Origin p) of
        None \<Rightarrow> None
      | Some (Inr data, cb) \<Rightarrow> Some (Inr data, cb, p)
      | Some (Inl err, cb) \<Rightarrow>
          if err \<noteq> D_EOF then Some (Inl err, cb, p)
          else case next_frame p of
                 (Inl err, p) \<Rightarrow> Some (Inl err, cb, p)
               | (Inr frame, p) \<Rightarrow>
                   map_option (\<lambda>cb. (Inl NotEnoughData, cb, p)) (IngestFrame cb (Origin p) frame))"

definition bank_Reset :: "channel_bank \<Rightarrow> derive_error \<times> channel_bank" where
  "bank_Reset cb = (D_EOF, cb\<lparr>cb_channels := [], cb_channelQueue := []\<rparr>)"

text \<open>\<open>FlushChannel\<close> always panics.\<close>

definition bank_FlushChannel :: "channel_bank \<Rightarrow> channel_bank option" where
  "bank_FlushChannel cb = None"

section \<open>The bank invariant\<close>

text \<open>The queue lists the identifiers of the map, each once; every channel is well formed.\<close>

definition bank_inv :: "channel_bank \<Rightarrow> bool" where
  "bank_inv cb \<longleftrightarrow>
     gm_inv (cb_channels cb) \<and> distinct (cb_channelQueue cb)
     \<and> set (cb_channelQueue cb) = fst ` set (cb_channels cb)
     \<and> (\<forall>(i, ch) \<in> set (cb_channels cb). ch_id ch = i \<and> chan_inv ch)"

lemma dom_gm_get: "dom (gm_get m) = fst ` set m"
  by (simp add: gm_get_def [abs_def] dom_map_of_conv_image_fst)

lemma bank_inv_iff:
  "bank_inv cb \<longleftrightarrow>
     gm_inv (cb_channels cb) \<and> distinct (cb_channelQueue cb)
     \<and> set (cb_channelQueue cb) = dom (gm_get (cb_channels cb))
     \<and> (\<forall>i ch. gm_get (cb_channels cb) i = Some ch \<longrightarrow> ch_id ch = i \<and> chan_inv ch)"
  unfolding bank_inv_def dom_gm_get using gm_get_eq_mem [of "cb_channels cb"] by fast

lemma bank_inv_NewChannelBank [simp]: "bank_inv (NewChannelBank c)"
  by (simp add: bank_inv_def NewChannelBank_def gomap_simps)

lemma bank_size_del:
  assumes "gm_inv m" and "gm_get m i = Some ch"
  shows "bank_size (gm_del i m) = bank_size m - ch_size ch"
  using assms
  by (induction m) (auto simp: gm_inv_def gm_get_def gm_del_def bank_size_def image_iff split: if_splits)

lemma bank_size_put_new: "gm_get m i = None \<Longrightarrow> bank_size (gm_put i ch m) = bank_size m + ch_size ch"
  by (induction m) (auto simp: gm_get_def gm_put_def bank_size_def split: if_splits)

lemma bank_inv_remove:
  assumes "bank_inv cb" and "cb_channelQueue cb = xs @ i # ys"
  shows "bank_inv (cb\<lparr>cb_channels := gm_del i (cb_channels cb), cb_channelQueue := xs @ ys\<rparr>)"
  using assms by (auto simp: bank_inv_iff gomap_simps gm.dom_del)

lemma bank_inv_get:
  assumes "bank_inv cb" and "i \<in> set (cb_channelQueue cb)"
  obtains ch where "gm_get (cb_channels cb) i = Some ch" "chan_inv ch" "ch_id ch = i"
  using assms by (auto simp: bank_inv_iff)

section \<open>Pruning drops the oldest channels, no more than needed\<close>

abbreviation del_all :: "(channel_id, channel) gomap \<Rightarrow> channel_id list \<Rightarrow> (channel_id, channel) gomap" where
  "del_all \<equiv> foldl (\<lambda>m i. gm_del i m)"

lemma bank_size_empty: "gm_inv m \<Longrightarrow> dom (gm_get m) = {} \<Longrightarrow> bank_size m = 0"
  by (simp add: dom_gm_get bank_size_def)

lemma bank_prune_loop_ok:
  assumes "gm_inv m" and "distinct queue" and "set queue = dom (gm_get m)"
  shows "\<exists>d q. bank_prune_loop limit (bank_size m) queue m = Some (q, del_all m d) \<and> queue = d @ q
     \<and> bank_size (del_all m d) \<le> limit
     \<and> (\<forall>k < length d. limit < bank_size (del_all m (take k d)))"
  using assms
proof (induction queue arbitrary: m)
  case Nil
  then have "bank_size m = 0" by (simp add: bank_size_empty)
  then show ?case by (intro exI [of _ "[]"]) simp
next
  case (Cons i queue)
  show ?case
  proof (cases "bank_size m > limit")
    case False
    then show ?thesis by (intro exI [of _ "[]"] exI [of _ "i # queue"]) simp
  next
    case True
    from Cons.prems obtain ch where ch: "gm_get m i = Some ch" by (metis domD list.set_intros(1))
    have "set queue = dom (gm_get (gm_del i m))"
      using Cons.prems by (auto simp: gm.dom_del)
    with Cons.IH [of "gm_del i m"] Cons.prems obtain d q where dq:
      "bank_prune_loop limit (bank_size (gm_del i m)) queue (gm_del i m) = Some (q, del_all (gm_del i m) d)"
      "queue = d @ q" "bank_size (del_all (gm_del i m) d) \<le> limit"
      "\<forall>k < length d. limit < bank_size (del_all (gm_del i m) (take k d))"
      by (auto simp: gm.inv_del)
    have "limit < bank_size (del_all m (take k (i # d)))" if "k < length (i # d)" for k
      using that True dq(4) by (cases k) auto
    with dq(1-3) True ch show ?thesis
      by (intro exI [of _ "i # d"] exI [of _ q]) (simp add: bank_size_del [OF Cons.prems(1) ch])
  qed
qed

lemma bank_inv_del_all:
  assumes "bank_inv cb" and "cb_channelQueue cb = d @ q"
  shows "bank_inv (cb\<lparr>cb_channelQueue := q, cb_channels := del_all (cb_channels cb) d\<rparr>)"
  using assms
proof (induction d arbitrary: cb)
  case Nil
  then show ?case by (simp add: bank_inv_def)
next
  case (Cons i d)
  let ?cb = "cb\<lparr>cb_channels := gm_del i (cb_channels cb), cb_channelQueue := d @ q\<rparr>"
  have "bank_inv ?cb" using bank_inv_remove [of cb "[]" i "d @ q"] Cons.prems by simp
  from Cons.IH [OF this] show ?case by simp
qed

lemma bank_prune_ok:
  assumes "bank_inv cb"
  shows "\<exists>d cb'. bank_prune cb origin = Some cb' \<and> bank_inv cb' \<and> cb_cfg cb' = cb_cfg cb
     \<and> cb_channelQueue cb = d @ cb_channelQueue cb' \<and> cb_channels cb' = del_all (cb_channels cb) d
     \<and> bank_size (cb_channels cb') \<le> MaxChannelBankSize (cb_cfg cb) (l1_time origin)
     \<and> (\<forall>k < length d. MaxChannelBankSize (cb_cfg cb) (l1_time origin)
            < bank_size (del_all (cb_channels cb) (take k d)))"
proof -
  from assms have "gm_inv (cb_channels cb)" "distinct (cb_channelQueue cb)"
    "set (cb_channelQueue cb) = dom (gm_get (cb_channels cb))" by (auto simp: bank_inv_iff)
  from bank_prune_loop_ok [OF this] obtain d q where dq:
    "bank_prune_loop (MaxChannelBankSize (cb_cfg cb) (l1_time origin)) (bank_size (cb_channels cb))
       (cb_channelQueue cb) (cb_channels cb) = Some (q, del_all (cb_channels cb) d)"
    "cb_channelQueue cb = d @ q"
    "bank_size (del_all (cb_channels cb) d) \<le> MaxChannelBankSize (cb_cfg cb) (l1_time origin)"
    "\<forall>k < length d. MaxChannelBankSize (cb_cfg cb) (l1_time origin) < bank_size (del_all (cb_channels cb) (take k d))"
    by blast
  then show ?thesis
    using bank_inv_del_all [OF assms dq(2)]
    by (intro exI [of _ d]
        exI [of _ "cb\<lparr>cb_channelQueue := q, cb_channels := del_all (cb_channels cb) d\<rparr>"])
      (simp add: bank_prune_def)
qed

section \<open>Ingesting keeps the bank within its limit\<close>

lemma bank_inv_put:
  assumes "bank_inv cb" and "chan_inv ch" and "ch_id ch = i"
  shows "bank_inv (cb\<lparr>cb_channels := gm_put i ch (cb_channels cb),
     cb_channelQueue := (if gm_get (cb_channels cb) i = None then cb_channelQueue cb @ [i] else cb_channelQueue cb)\<rparr>)"
  using assms by (auto simp: bank_inv_iff gomap_simps gm.dom_put domIff)

text \<open>The bank with the channel of the frame, opened if it is not there yet.\<close>

definition with_channel :: "channel_bank \<Rightarrow> l1_block_ref \<Rightarrow> channel_id \<Rightarrow> channel_bank \<times> channel" where
  "with_channel cb origin i =
     (case gm_get (cb_channels cb) i of
        Some ch \<Rightarrow> (cb, ch)
      | None \<Rightarrow> let ch = NewChannel i origin False
                in (cb\<lparr>cb_channels := gm_put i ch (cb_channels cb),
                       cb_channelQueue := cb_channelQueue cb @ [i]\<rparr>, ch))"

lemma with_channel_inv:
  assumes "bank_inv cb" and "with_channel cb origin i = (cb', ch)"
  shows "bank_inv cb'" "chan_inv ch" "ch_id ch = i" "gm_get (cb_channels cb') i = Some ch"
    "cb_cfg cb' = cb_cfg cb" "bank_size (cb_channels cb') = bank_size (cb_channels cb)"
proof -
  let ?new = "NewChannel i origin False"
  have n: "ch_id ?new = i" "ch_size ?new = 0" by (simp_all add: NewChannel_def)
  have "bank_inv cb' \<and> chan_inv ch \<and> ch_id ch = i \<and> gm_get (cb_channels cb') i = Some ch
      \<and> cb_cfg cb' = cb_cfg cb \<and> bank_size (cb_channels cb') = bank_size (cb_channels cb)"
  proof (cases "gm_get (cb_channels cb) i")
    case None
    with assms(2) have "ch = ?new" and "cb' = cb\<lparr>cb_channels := gm_put i ?new (cb_channels cb),
        cb_channelQueue := cb_channelQueue cb @ [i]\<rparr>"
      by (auto simp: with_channel_def Let_def)
    with None bank_inv_put [OF assms(1) chan_inv_NewChannel n(1)] n show ?thesis
      by (simp add: bank_size_put_new gm.get_put)
  next
    case (Some c)
    with assms(2) have "ch = c" "cb' = cb" by (simp_all add: with_channel_def)
    with Some assms(1) show ?thesis by (simp add: bank_inv_iff)
  qed
  then show "bank_inv cb'" "chan_inv ch" "ch_id ch = i" "gm_get (cb_channels cb') i = Some ch"
    "cb_cfg cb' = cb_cfg cb" "bank_size (cb_channels cb') = bank_size (cb_channels cb)" by blast+
qed

lemma IngestFrame_with_channel:
  "IngestFrame cb origin f =
     (let (cb, currentCh) = with_channel cb origin (fr_ID f)
      in if bank_timed_out (cb_cfg cb) origin currentCh then Some cb
         else case AddFrame currentCh f origin of
                Inl err \<Rightarrow> Some cb
              | Inr ch \<Rightarrow> bank_prune (cb\<lparr>cb_channels := gm_put (fr_ID f) ch (cb_channels cb)\<rparr>) origin)"
  by (simp only: IngestFrame_def with_channel_def)

text \<open>The frame goes into its channel: the channel is not timed out and takes it.\<close>

definition frame_taken :: "channel_bank \<Rightarrow> l1_block_ref \<Rightarrow> frame \<Rightarrow> bool" where
  "frame_taken cb origin f \<longleftrightarrow>
     (let ch = snd (with_channel cb origin (fr_ID f))
      in \<not> bank_timed_out (cb_cfg cb) origin ch \<and> (case AddFrame ch f origin of Inl _ \<Rightarrow> False | Inr _ \<Rightarrow> True))"

lemma IngestFrame_ok:
  assumes "bank_inv cb"
  shows "\<exists>cb'. IngestFrame cb origin f = Some cb' \<and> bank_inv cb' \<and> cb_cfg cb' = cb_cfg cb
     \<and> (if frame_taken cb origin f then bank_size (cb_channels cb') \<le> MaxChannelBankSize (cb_cfg cb) (l1_time origin)
        else cb' = fst (with_channel cb origin (fr_ID f)) \<and> bank_size (cb_channels cb') = bank_size (cb_channels cb))"
proof -
  obtain cb1 ch where w: "with_channel cb origin (fr_ID f) = (cb1, ch)" by (cases "with_channel cb origin (fr_ID f)")
  note W = with_channel_inv [OF assms w]
  show ?thesis
  proof (cases "bank_timed_out (cb_cfg cb1) origin ch")
    case True
    with W show ?thesis by (simp add: IngestFrame_with_channel frame_taken_def w)
  next
    case False
    show ?thesis
    proof (cases "AddFrame ch f origin")
      case (Inl err)
      with W False show ?thesis by (simp add: IngestFrame_with_channel frame_taken_def w)
    next
      case (Inr ch')
      let ?cb = "cb1\<lparr>cb_channels := gm_put (fr_ID f) ch' (cb_channels cb1)\<rparr>"
      have "chan_inv ch'" "ch_id ch' = fr_ID f"
        using chan_inv_AddFrame [OF W(2) Inr] AddFrame_Inr(6) [OF Inr] W(3) by simp_all
      from bank_inv_put [OF W(1) this] W(4) have "bank_inv ?cb" by (simp add: bank_inv_def)
      from bank_prune_ok [OF this, of origin] Inr False W(5) show ?thesis
        by (auto simp: IngestFrame_with_channel frame_taken_def w)
    qed
  qed
qed

text \<open>C25: ingesting a frame into a well-formed bank, of whatever size, never panics: the pruning loop never runs
  past the end of the queue and never meets an identifier without a channel. The bank stays well formed. When the frame
  goes into its channel, the bank is within the size limit of the current origin afterwards; when it does not (the channel
  is timed out, or refuses it), nothing but an empty new channel for it can have been added, the total size is the same, and
  nothing is pruned.\<close>
theorem IngestFrame_bounded:
  assumes "bank_inv cb"
  shows "\<exists>cb'. IngestFrame cb origin f = Some cb' \<and> bank_inv cb'
     \<and> (if frame_taken cb origin f then bank_size (cb_channels cb') \<le> MaxChannelBankSize (cb_cfg cb) (l1_time origin)
        else cb' = fst (with_channel cb origin (fr_ID f)) \<and> bank_size (cb_channels cb') = bank_size (cb_channels cb))"
  using IngestFrame_ok [OF assms, of origin f] by blast

theorem IngestFrame_bounded_witness:
  "\<exists>cb'. IngestFrame (NewChannelBank example_config) zero_l1 (example_frame 5 0 [1] True) = Some cb'
     \<and> bank_inv cb' \<and> bank_size (cb_channels cb') \<le> 100000000"
proof -
  have "frame_taken (NewChannelBank example_config) zero_l1 (example_frame 5 0 [1] True)" by code_simp
  moreover have "MaxChannelBankSize (cb_cfg (NewChannelBank example_config)) (l1_time zero_l1) = 100000000" by code_simp
  ultimately show ?thesis
    using IngestFrame_bounded [OF bank_inv_NewChannelBank, of example_config zero_l1 "example_frame 5 0 [1] True"] by auto
qed

text \<open>C33: pruning removes channels from the front of the queue only, oldest first, until the total size
  is within the limit, and stops there: with any channel less removed the bank is still too large.\<close>
theorem bank_prune_fifo:
  assumes "bank_inv cb"
  shows "\<exists>d cb'. bank_prune cb origin = Some cb' \<and> cb_channelQueue cb = d @ cb_channelQueue cb'
     \<and> cb_channels cb' = foldl (\<lambda>m i. gm_del i m) (cb_channels cb) d
     \<and> bank_size (cb_channels cb') \<le> MaxChannelBankSize (cb_cfg cb) (l1_time origin)
     \<and> (\<forall>k < length d. MaxChannelBankSize (cb_cfg cb) (l1_time origin)
            < bank_size (foldl (\<lambda>m i. gm_del i m) (cb_channels cb) (take k d)))"
  using bank_prune_ok [OF assms, of origin] by blast

definition example_bank :: channel_bank where
  "example_bank = \<lparr>cb_cfg = example_config,
     cb_channels = [(5, example_channel), (6, (NewChannel 6 zero_l1 False)\<lparr>ch_size := 99999999\<rparr>)],
     cb_channelQueue = [5, 6]\<rparr>"

lemma chan_inv_example: "chan_inv example_channel"
  by (simp add: chan_inv_def example_channel_def example_frame_def gm_inv_def gm_get_def)

lemma bank_inv_example: "bank_inv example_bank"
  using chan_inv_NewChannel [of 6 zero_l1 False] chan_inv_example
  by (auto simp: bank_inv_def example_bank_def gm_inv_def chan_inv_def NewChannel_def example_channel_def)

theorem bank_prune_fifo_witness:
  "\<exists>cb'. bank_prune example_bank zero_l1 = Some cb' \<and> cb_channelQueue cb' = [6]"
proof -
  have eq: "bank_prune example_bank zero_l1 = Some (example_bank\<lparr>cb_channelQueue := [6],
      cb_channels := gm_del 5 (cb_channels example_bank)\<rparr>)"
    by (simp add: bank_prune_def example_bank_def bank_size_def MaxChannelBankSize_def IsFjord_def
        fork_active_def example_config_def zero_l1_def example_channel_def NewChannel_def gm_get_def gm_del_def)
  show ?thesis using eq bank_prune_fifo [OF bank_inv_example, of zero_l1] by auto
qed

section \<open>Reading takes the first ready channel\<close>

definition readable :: "channel_bank \<Rightarrow> l1_block_ref \<Rightarrow> channel_id \<Rightarrow> bool" where
  "readable cb origin i =
     (case gm_get (cb_channels cb) i of
        None \<Rightarrow> False
      | Some ch \<Rightarrow> \<not> bank_timed_out (cb_cfg cb) origin ch \<and> IsReady ch)"

lemma tryRead_not_readable:
  assumes "bank_inv cb" and "n < length (cb_channelQueue cb)" and "\<not> readable cb origin (cb_channelQueue cb ! n)"
  shows "tryReadChannelAtIndex cb origin n = Some (Inl D_EOF, cb)"
proof -
  obtain ch where "gm_get (cb_channels cb) (cb_channelQueue cb ! n) = Some ch"
    using bank_inv_get [OF assms(1) nth_mem [OF assms(2)]] by blast
  with assms show ?thesis by (auto simp: tryReadChannelAtIndex_def readable_def Let_def)
qed

lemma tryRead_readable:
  assumes "bank_inv cb" and "cb_channelQueue cb = pre @ i # post" and "readable cb origin i"
  shows "\<exists>fs. channel_frames i fs \<and> tryReadChannelAtIndex cb origin (length pre) =
     Some (Inr (concat (map fr_Data fs)),
       cb\<lparr>cb_channels := gm_del i (cb_channels cb), cb_channelQueue := pre @ post\<rparr>)"
proof -
  obtain ch where ch: "gm_get (cb_channels cb) i = Some ch" "chan_inv ch" "ch_id ch = i"
    using bank_inv_get [OF assms(1), of i] assms(2) by auto
  with assms(3) have r: "\<not> bank_timed_out (cb_cfg cb) origin ch" "IsReady ch" by (auto simp: readable_def)
  from IsReady_frames [OF ch(2) r(2)] obtain fs where
    "channel_frames i fs" "Reader ch = Some (concat (map fr_Data fs))" using ch(3) by metis
  with ch r assms(2) show ?thesis by (auto simp: tryReadChannelAtIndex_def Let_def)
qed

lemma read_loop_skip:
  assumes "bank_inv cb" and "\<forall>n \<in> set is. n < length (cb_channelQueue cb) \<and> \<not> readable cb origin (cb_channelQueue cb ! n)"
  shows "read_loop cb origin (is @ js) = read_loop cb origin js"
  using assms(2) by (induction "is") (auto simp: tryRead_not_readable [OF assms(1)])

lemma bank_Read_cases:
  assumes "bank_inv cb" and "cb_channelQueue cb \<noteq> []"
    and "\<not> bank_timed_out (cb_cfg cb) origin (the (gm_get (cb_channels cb) (hd (cb_channelQueue cb))))"
    and "IsCanyon (cb_cfg cb) (l1_time origin)"
  shows "(\<exists>pre i post fs. cb_channelQueue cb = pre @ i # post \<and> readable cb origin i
       \<and> (\<forall>j \<in> set pre. \<not> readable cb origin j) \<and> channel_frames i fs
       \<and> bank_Read cb origin = Some (Inr (concat (map fr_Data fs)),
           cb\<lparr>cb_channels := gm_del i (cb_channels cb), cb_channelQueue := pre @ post\<rparr>))
     \<or> (\<forall>j \<in> set (cb_channelQueue cb). \<not> readable cb origin j) \<and> bank_Read cb origin = Some (Inl D_EOF, cb)"
proof -
  let ?q = "cb_channelQueue cb"
  obtain ch where "gm_get (cb_channels cb) (hd ?q) = Some ch"
    using bank_inv_get [OF assms(1), of "hd ?q"] assms(2) by auto
  with assms(2-4) have read: "bank_Read cb origin = read_loop cb origin [0..<length ?q]"
    by (cases ?q) (simp_all add: bank_Read_def del: upt_Suc)
  show ?thesis
  proof (cases "\<exists>j \<in> set ?q. readable cb origin j")
    case False
    then have "read_loop cb origin ([0..<length ?q] @ []) = read_loop cb origin []"
      by (intro read_loop_skip [OF assms(1)]) auto
    with False read show ?thesis by auto
  next
    case True
    from split_list_first_prop [OF True] obtain pre i post where q: "?q = pre @ i # post"
      "readable cb origin i" "\<forall>j \<in> set pre. \<not> readable cb origin j" by blast
    have "[0..<length ?q] = [0..<length pre] @ length pre # [Suc (length pre)..<length ?q]"
      by (rule nth_equalityI) (auto simp: q(1) nth_append nth_Cons' simp del: upt_Suc)
    moreover have "read_loop cb origin ([0..<length pre] @ length pre # [Suc (length pre)..<length ?q])
        = read_loop cb origin (length pre # [Suc (length pre)..<length ?q])"
      using q by (intro read_loop_skip [OF assms(1)]) (auto simp: nth_append)
    moreover obtain fs where "channel_frames i fs" "tryReadChannelAtIndex cb origin (length pre) =
        Some (Inr (concat (map fr_Data fs)),
          cb\<lparr>cb_channels := gm_del i (cb_channels cb), cb_channelQueue := pre @ post\<rparr>)"
      using tryRead_readable [OF assms(1) q(1,2)] by blast
    ultimately show ?thesis using q read by (auto simp del: upt_Suc)
  qed
qed

text \<open>C34: from Canyon on, when the head of the queue is not timed out, \<open>Read\<close> hands out the data of the
  first channel of the queue that is ready and not timed out, the concatenation of its frames in
  order, and removes exactly that channel; if there is none it answers \<open>io.EOF\<close> and changes
  nothing.\<close>
theorem bank_Read_first_ready:
  assumes "bank_inv cb" and "cb_channelQueue cb \<noteq> []"
    and "\<not> bank_timed_out (cb_cfg cb) origin (the (gm_get (cb_channels cb) (hd (cb_channelQueue cb))))"
    and "IsCanyon (cb_cfg cb) (l1_time origin)"
  shows "(\<exists>pre i post fs. cb_channelQueue cb = pre @ i # post \<and> readable cb origin i
       \<and> (\<forall>j \<in> set pre. \<not> readable cb origin j) \<and> channel_frames i fs
       \<and> bank_Read cb origin = Some (Inr (concat (map fr_Data fs)),
           cb\<lparr>cb_channels := gm_del i (cb_channels cb), cb_channelQueue := pre @ post\<rparr>))
     \<or> (\<forall>j \<in> set (cb_channelQueue cb). \<not> readable cb origin j) \<and> bank_Read cb origin = Some (Inl D_EOF, cb)"
  by (rule bank_Read_cases [OF assms])

theorem bank_Read_first_ready_witness:
  "\<exists>fs cb'. channel_frames 5 fs \<and> bank_Read example_bank zero_l1 = Some (Inr (concat (map fr_Data fs)), cb')"
proof -
  have h: "cb_channelQueue example_bank = [5, 6]" "gm_get (cb_channels example_bank) 5 = Some example_channel"
    by (simp_all add: example_bank_def gm_get_def)
  have t: "\<not> bank_timed_out (cb_cfg example_bank) zero_l1 example_channel"
    by (simp add: bank_timed_out_def zero_l1_def)
  have c: "IsCanyon (cb_cfg example_bank) (l1_time zero_l1)"
    by (simp add: example_bank_def example_config_def IsCanyon_def fork_active_def)
  have r: "readable example_bank zero_l1 5"
    using h t by (simp add: readable_def IsReady_def example_channel_def gm_len_def gm_get_def)
  show ?thesis
    using bank_Read_first_ready [OF bank_inv_example, of zero_l1] h t c r
    by (auto simp: Cons_eq_append_conv)
qed

lemma bank_Read_ok:
  assumes "bank_inv cb"
  shows "\<exists>res cb'. bank_Read cb origin = Some (res, cb') \<and> bank_inv cb' \<and> cb_cfg cb' = cb_cfg cb
     \<and> (\<forall>err. res = Inl err \<longrightarrow> err = D_EOF \<and> cb' = cb)"
proof (cases "cb_channelQueue cb")
  case Nil
  with assms show ?thesis by (simp add: bank_Read_def)
next
  case (Cons i q)
  obtain ch where ch: "gm_get (cb_channels cb) i = Some ch"
    using bank_inv_get [OF assms, of i] Cons by auto
  show ?thesis
  proof (cases "bank_timed_out (cb_cfg cb) origin ch")
    case True
    with ch Cons show ?thesis using bank_inv_remove [OF assms, of "[]" i q] by (simp add: bank_Read_def)
  next
    case False
    show ?thesis
    proof (cases "IsCanyon (cb_cfg cb) (l1_time origin)")
      case True
      from bank_Read_cases [OF assms _ _ True] Cons ch False bank_inv_remove [OF assms] assms show ?thesis
        by fastforce
    next
      case canyon: False
      then have "bank_Read cb origin = tryReadChannelAtIndex cb origin 0"
        using Cons ch False by (simp add: bank_Read_def)
      then show ?thesis
        using tryRead_readable [OF assms, of "[]" i q origin] tryRead_not_readable [OF assms, of 0 origin]
          bank_inv_remove [OF assms, of "[]" i q] Cons assms
        by (cases "readable cb origin i") auto
    qed
  qed
qed

text \<open>C16: no call of \<open>NextRawChannel\<close> panics and every call leaves the bank well formed, whatever
  frames or errors the stage in front delivers and whatever the L1 origin is.\<close>
theorem bank_NextRawChannel_safe:
  assumes "bank_inv cb"
  shows "\<exists>res cb' p'. bank_NextRawChannel next_frame Origin cb p = Some (res, cb', p')
     \<and> bank_inv cb' \<and> cb_cfg cb' = cb_cfg cb"
proof -
  from bank_Read_ok [OF assms] obtain res cb1 where r: "bank_Read cb (Origin p) = Some (res, cb1)"
    "bank_inv cb1" "cb_cfg cb1 = cb_cfg cb" by blast
  show ?thesis
  proof (cases res)
    case (Inr data)
    with r show ?thesis by (simp add: bank_NextRawChannel_def)
  next
    case (Inl err)
    obtain fr p1 where "next_frame p = (fr, p1)" by (cases "next_frame p")
    with Inl r IngestFrame_ok [OF r(2), of "Origin p1"] show ?thesis
      by (cases fr) (fastforce simp: bank_NextRawChannel_def)+
  qed
qed

theorem bank_NextRawChannel_safe_witness:
  "\<exists>res cb' p'. bank_NextRawChannel (\<lambda>p :: nat. (Inr (example_frame 5 0 [1] True), p + 1)) (\<lambda>p. zero_l1)
      (NewChannelBank example_config) 0 = Some (res, cb', p') \<and> bank_inv cb'"
  using bank_NextRawChannel_safe [OF bank_inv_NewChannelBank [of example_config],
      of "\<lambda>p :: nat. (Inr (example_frame 5 0 [1] True), p + 1)" "\<lambda>p. zero_l1" 0]
  by blast

end
