(* ===== verification/Frame_Queue.thy ===== *)
theory Frame_Queue
  imports Frames Derive_Errors
begin

text \<open>
  The frame queue of the derivation pipeline (\<^verbatim>\<open>rhs-node/rollup/derive/frame_queue.go\<close>): it
  parses the data of one transaction at a time into frames and, from Holocene on, prunes the
  queue to contiguous, ordered frames.

  The stage in front of it is the parameter \<open>NextData\<close>, a function of that stage's state
  \<open>'p\<close>, with \<open>Origin\<close> its L1 origin.
\<close>

record frame_queue =
  fq_frames :: "frame list"
  fq_cfg :: config

definition NewFrameQueue :: "config \<Rightarrow> frame_queue" where
  "NewFrameQueue c = \<lparr>fq_frames = [], fq_cfg = c\<rparr>"

section \<open>Pruning\<close>

text \<open>The loop of \<open>pruneFrameQueue\<close>; \<open>discard d\<close> is the closure of the source.\<close>

function prune_loop :: "frame list \<Rightarrow> nat \<Rightarrow> frame list" where
  "prune_loop frames i =
     (if i + 1 < length frames
      then let current = frames ! i; next_fr = frames ! (i + 1);
               discard = (\<lambda>d. take (i + d) frames @ drop (i + 1 + d) frames)
           in if fr_ID current = fr_ID next_fr
              then if fr_IsLast current then prune_loop (discard 1) i
                   else if fr_FrameNumber next_fr \<noteq> fr_FrameNumber current + 1
                        then prune_loop (discard 1) i
                        else prune_loop frames (i + 1)
              else if fr_FrameNumber next_fr = 0 \<and> \<not> fr_IsLast current
                   then prune_loop (discard 0) (if i > 0 then i - 1 else i)
                   else if fr_FrameNumber next_fr \<noteq> 0 then prune_loop (discard 1) i
                        else prune_loop frames (i + 1)
      else frames)"
  by pat_completeness auto
termination
  by (relation "measure (\<lambda>(frames, i). 2 * length frames - i)") auto

declare prune_loop.simps [simp del]

definition pruneFrameQueue :: "frame list \<Rightarrow> frame list" where
  "pruneFrameQueue frames = prune_loop frames 0"

definition FrameQueue_prune :: "frame_queue \<Rightarrow> frame_queue" where
  "FrameQueue_prune fq = fq\<lparr>fq_frames := pruneFrameQueue (fq_frames fq)\<rparr>"

definition FrameQueue_reset :: "frame_queue \<Rightarrow> frame_queue" where
  "FrameQueue_reset fq = fq\<lparr>fq_frames := []\<rparr>"

definition FrameQueue_Transform :: "fork_name \<Rightarrow> frame_queue \<Rightarrow> frame_queue" where
  "FrameQueue_Transform f fq = (if f = Holocene then FrameQueue_reset fq else fq)"

text \<open>\<open>Reset\<close> always answers \<open>io.EOF\<close>, the sign that the stage is done resetting.\<close>

definition FrameQueue_Reset :: "frame_queue \<Rightarrow> derive_error \<times> frame_queue" where
  "FrameQueue_Reset fq = (D_EOF, FrameQueue_reset fq)"

section \<open>Loading and handing out frames\<close>

definition loadNextFrames ::
  "('p \<Rightarrow> (derive_error + bytes) \<times> 'p) \<Rightarrow> ('p \<Rightarrow> l1_block_ref) \<Rightarrow> frame_queue \<Rightarrow> 'p
     \<Rightarrow> derive_error option \<times> frame_queue \<times> 'p" where
  "loadNextFrames NextData Origin fq p =
     (case NextData p of
        (Inl err, p) \<Rightarrow> (Some err, fq, p)
      | (Inr data, p) \<Rightarrow>
          (case ParseFrames data of
             Inl err \<Rightarrow> (None, fq, p)
           | Inr frames \<Rightarrow>
               let fq = fq\<lparr>fq_frames := fq_frames fq @ frames\<rparr>;
                   fq = (if IsHolocene (fq_cfg fq) (l1_time (Origin p)) then FrameQueue_prune fq else fq)
               in (None, fq, p)))"

definition NextFrame ::
  "('p \<Rightarrow> (derive_error + bytes) \<times> 'p) \<Rightarrow> ('p \<Rightarrow> l1_block_ref) \<Rightarrow> frame_queue \<Rightarrow> 'p
     \<Rightarrow> (derive_error + frame) \<times> frame_queue \<times> 'p" where
  "NextFrame NextData Origin fq p =
     (case (if fq_frames fq = [] then loadNextFrames NextData Origin fq p else (None, fq, p)) of
        (Some err, fq, p) \<Rightarrow> (Inl err, fq, p)
      | (None, fq, p) \<Rightarrow>
          (case fq_frames fq of
             [] \<Rightarrow> (Inl NotEnoughData, fq, p)
           | ret # rest \<Rightarrow> (Inr ret, fq\<lparr>fq_frames := rest\<rparr>, p)))"

section \<open>The interfaces between stages\<close>

text \<open>
  \<open>NextDataProvider\<close> and \<open>NextFrameProvider\<close>. What a stage relies on: asking the stage in front
  for data does not move that stage's L1 origin, so an origin read at the start of an operation is
  still the origin at its end.
\<close>

locale data_provider =
  fixes NextData :: "'p \<Rightarrow> (derive_error + bytes) \<times> 'p" and Origin :: "'p \<Rightarrow> l1_block_ref"
  assumes data_origin: "NextData p = (res, p') \<Longrightarrow> Origin p' = Origin p"

locale frame_provider =
  fixes next_frame :: "'s \<Rightarrow> (derive_error + frame) \<times> 's" and stage_origin :: "'s \<Rightarrow> l1_block_ref"
  assumes frame_origin: "next_frame s = (res, s') \<Longrightarrow> stage_origin s' = stage_origin s"

text \<open>The frame queue and the stage in front of it, seen as one provider of frames.\<close>

definition fq_next ::
  "('p \<Rightarrow> (derive_error + bytes) \<times> 'p) \<Rightarrow> ('p \<Rightarrow> l1_block_ref) \<Rightarrow> frame_queue \<times> 'p
     \<Rightarrow> (derive_error + frame) \<times> (frame_queue \<times> 'p)" where
  "fq_next NextData Origin s = (case s of (fq, p) \<Rightarrow> NextFrame NextData Origin fq p)"

definition FrameQueue_Origin :: "('p \<Rightarrow> l1_block_ref) \<Rightarrow> frame_queue \<times> 'p \<Rightarrow> l1_block_ref" where
  "FrameQueue_Origin Origin s = Origin (snd s)"

context data_provider
begin

lemma load_origin: "loadNextFrames NextData Origin fq p = (e, fq', p') \<Longrightarrow> Origin p' = Origin p"
  by (auto simp: loadNextFrames_def Let_def dest: data_origin split: prod.splits sum.splits)

lemma next_frame_origin: "NextFrame NextData Origin fq p = (res, fq', p') \<Longrightarrow> Origin p' = Origin p"
  by (auto simp: NextFrame_def dest: load_origin split: prod.splits option.splits list.splits if_splits)

end

sublocale data_provider \<subseteq> frames: frame_provider "fq_next NextData Origin" "FrameQueue_Origin Origin"
  by unfold_locales (auto simp: fq_next_def FrameQueue_Origin_def dest: next_frame_origin split: prod.splits)

section \<open>The loop computes a fold over a stack\<close>

text \<open>
  A reference definition: the frames kept so far are a stack; a new frame is dropped, pushed, or
  first pops the frames of a channel it leaves unclosed.
\<close>

fun push_frame :: "frame list \<Rightarrow> frame \<Rightarrow> frame list" where
  "push_frame [] n = [n]"
| "push_frame (c # st) n =
     (if fr_ID c = fr_ID n
      then if fr_IsLast c \<or> fr_FrameNumber n \<noteq> fr_FrameNumber c + 1 then c # st else n # c # st
      else if fr_FrameNumber n = 0 \<and> \<not> fr_IsLast c then push_frame st n
      else if fr_FrameNumber n \<noteq> 0 then c # st
      else n # c # st)"

text \<open>What two neighbours of a Holocene frame queue satisfy.\<close>

definition frame_follows :: "frame \<Rightarrow> frame \<Rightarrow> bool" where
  "frame_follows c n \<longleftrightarrow>
     (if fr_ID c = fr_ID n then \<not> fr_IsLast c \<and> fr_FrameNumber n = fr_FrameNumber c + 1
      else fr_IsLast c \<and> fr_FrameNumber n = 0)"

lemma prune_loop_step:
  "prune_loop (A @ c # n # R) (length A) =
     (if fr_ID c = fr_ID n
      then if fr_IsLast c \<or> fr_FrameNumber n \<noteq> fr_FrameNumber c + 1
           then prune_loop (A @ c # R) (length A)
           else prune_loop ((A @ [c]) @ n # R) (length (A @ [c]))
      else if fr_FrameNumber n = 0 \<and> \<not> fr_IsLast c then prune_loop (A @ n # R) (length A - 1)
      else if fr_FrameNumber n \<noteq> 0 then prune_loop (A @ c # R) (length A)
      else prune_loop ((A @ [c]) @ n # R) (length (A @ [c])))"
  by (subst prune_loop.simps) (auto simp: nth_append Let_def)

lemma prune_loop_fold:
  "prune_loop (A @ c # R) (length A) = rev (foldl push_frame (c # rev A) R)"
proof (induction "2 * length (A @ c # R) - length A" arbitrary: A c R rule: less_induct)
  case less
  show ?case
  proof (cases R)
    case Nil
    then show ?thesis by (simp add: prune_loop.simps)
  next
    case (Cons n R')
    have drop_next: "prune_loop (A @ c # R') (length A) = rev (foldl push_frame (c # rev A) R')"
      by (rule less) (simp add: Cons)
    have keep: "prune_loop ((A @ [c]) @ n # R') (length (A @ [c])) =
        rev (foldl push_frame (n # rev (A @ [c])) R')"
      by (rule less) (simp add: Cons)
    have stepback: "prune_loop (A @ n # R') (length A - 1) = rev (foldl push_frame (push_frame (rev A) n) R')"
    proof (cases A rule: rev_cases)
      case Nil
      then show ?thesis using less [of "[]" n R'] by (simp add: Cons)
    next
      case (snoc A' a)
      then show ?thesis using less [of A' a "n # R'"] by (simp add: Cons)
    qed
    show ?thesis
      using drop_next keep stepback by (simp add: Cons prune_loop_step)
  qed
qed

lemma prune_eq_fold: "pruneFrameQueue frames = rev (foldl push_frame [] frames)"
  using prune_loop_fold [of "[]"]
  by (cases frames) (simp_all add: pruneFrameQueue_def prune_loop.simps [of "[]"])

section \<open>What pruning guarantees\<close>

lemma push_frame_Cons:
  "push_frame (c # st) n =
     (if frame_follows c n then n # c # st
      else if fr_ID c \<noteq> fr_ID n \<and> fr_FrameNumber n = 0 then push_frame st n
      else c # st)"
  by (auto simp: frame_follows_def)

declare push_frame.simps(2) [simp del]

abbreviation frames_follow :: "frame list \<Rightarrow> bool" where
  "frames_follow \<equiv> successively (\<lambda>n c. frame_follows c n)"

lemma push_frame_follows: "frames_follow st \<Longrightarrow> frames_follow (push_frame st n)"
  by (induction st) (auto simp: push_frame_Cons successively_Cons)

lemma push_frame_subseq: "subseq (push_frame st n) (n # st)"
  by (induction st) (auto simp: push_frame_Cons intro: subseq_order.order_trans)

lemma fold_push_follows: "frames_follow st \<Longrightarrow> frames_follow (foldl push_frame st fs)"
  by (induction fs arbitrary: st) (auto simp: push_frame_follows)

lemma fold_push_subseq: "subseq (foldl push_frame st fs) (rev fs @ st)"
proof (induction fs arbitrary: st)
  case (Cons f fs)
  have "subseq (foldl push_frame (push_frame st f) fs) (rev fs @ push_frame st f)" by (rule Cons)
  also have "subseq (rev fs @ push_frame st f) (rev fs @ f # st)"
    by (intro list_emb_append_mono push_frame_subseq) simp
  finally show ?case by simp
qed simp

lemma fold_push_id: "frames_follow (rev fs @ st) \<Longrightarrow> foldl push_frame st fs = rev fs @ st"
proof (induction fs arbitrary: st)
  case (Cons f fs)
  then have "frames_follow (f # st)" by (simp add: successively_append_iff)
  then have "push_frame st f = f # st" by (cases st) (auto simp: push_frame_Cons)
  with Cons show ?case by simp
qed simp

lemma subseq_revI: "subseq xs ys \<Longrightarrow> subseq (rev xs) (rev ys)"
  by (induction rule: list_emb.induct) (auto intro: list_emb_append_mono subseq_order.order_trans)

lemma prune_follows: "successively frame_follows (pruneFrameQueue frames)"
  using fold_push_follows [of "[]" frames] by (simp add: prune_eq_fold successively_rev)

lemma prune_id: "successively frame_follows frames \<Longrightarrow> pruneFrameQueue frames = frames"
  using fold_push_id [of frames "[]"] by (simp add: prune_eq_fold successively_rev)

text \<open>C20: the pruned queue is a subsequence of the queue, in which every frame rightfully follows its
  neighbour: the next frame of the same open channel, or the first frame of a new channel after the
  last frame of the one before. A queue that already has this form, and only such a queue, is left
  unchanged.\<close>
theorem pruneFrameQueue_contiguous:
  "subseq (pruneFrameQueue frames) frames
   \<and> successively frame_follows (pruneFrameQueue frames)
   \<and> (successively frame_follows frames \<longleftrightarrow> pruneFrameQueue frames = frames)"
proof -
  have "subseq (rev (pruneFrameQueue frames)) (rev frames)"
    using fold_push_subseq [of "[]" frames] by (simp add: prune_eq_fold)
  then have "subseq (pruneFrameQueue frames) frames"
    using subseq_revI by fastforce
  then show ?thesis using prune_follows [of frames] prune_id [of frames] by metis
qed

text \<open>C19: the in-place index loop of \<open>pruneFrameQueue\<close>, which removes frames at the cursor and steps
  back, is one left-to-right pass over a stack; so pruning after each transaction, on top of an
  already pruned queue, gives the queue that pruning all frames at once gives.\<close>
theorem pruneFrameQueue_incremental:
  "pruneFrameQueue (xs @ ys) = rev (foldl push_frame (rev (pruneFrameQueue xs)) ys)
   \<and> pruneFrameQueue (pruneFrameQueue xs @ ys) = pruneFrameQueue (xs @ ys)"
proof -
  have "foldl push_frame [] (pruneFrameQueue xs) = rev (pruneFrameQueue xs)"
    using fold_push_id [of "pruneFrameQueue xs" "[]"] prune_follows [of xs] by (simp add: successively_rev)
  then show ?thesis by (simp add: prune_eq_fold)
qed

text \<open>C31: from Holocene on, \<open>NextFrame\<close> keeps the queue in the Holocene form, whatever data the stage
  in front delivers, and the frame it hands out is rightfully followed by the next one in the queue;
  the frames of a pruned queue stay valid when frames are taken out of it.\<close>
theorem NextFrame_holocene:
  assumes "NextFrame NextData Origin fq p = (res, fq', p')"
    and "successively frame_follows (fq_frames fq)"
    and "IsHolocene (fq_cfg fq) (l1_time (Origin p'))"
  shows "successively frame_follows (fq_frames fq') \<and> fq_cfg fq' = fq_cfg fq
    \<and> (\<forall>f. res = Inr f \<longrightarrow> fq_frames fq' = [] \<or> frame_follows f (hd (fq_frames fq')))"
proof -
  have "fq_frames fq' = fs \<Longrightarrow> successively frame_follows (f # fs) \<Longrightarrow>
      successively frame_follows fs \<and> (fs = [] \<or> frame_follows f (hd fs))" for f fs
    by (auto simp: successively_Cons)
  then show ?thesis
    using assms
    by (auto simp: NextFrame_def loadNextFrames_def FrameQueue_prune_def Let_def
        split: sum.splits prod.splits if_splits list.splits
        dest!: arg_cong [of "pruneFrameQueue _" _ "successively frame_follows"])
      (auto simp: prune_follows)
qed

definition example_data :: bytes where
  "example_data = DerivationVersion0 # concat (map MarshalBinary
     [example_frame 5 0 [1, 2] False, example_frame 5 1 [3] True, example_frame 6 3 [4] True])"

theorem NextFrame_holocene_witness:
  "\<exists>f fq' p'. NextFrame (\<lambda>n :: nat. (Inr example_data, Suc n)) (\<lambda>n. zero_l1\<lparr>l1_time := 1016\<rparr>)
       (NewFrameQueue example_config) 0 = (Inr f, fq', p') \<and> successively frame_follows (fq_frames fq')
     \<and> fq_frames fq' \<noteq> [] \<and> frame_follows f (hd (fq_frames fq'))"
proof -
  let ?ND = "\<lambda>n :: nat. (Inr example_data, Suc n)" and ?O = "\<lambda>n. zero_l1\<lparr>l1_time := 1016\<rparr>"
  let ?fs = "[example_frame 5 0 [1, 2] False, example_frame 5 1 [3] True, example_frame 6 3 [4] True]"
  have p: "ParseFrames example_data = Inr ?fs"
    using parse_frames_loop_complete [of ?fs "[]"]
    by (simp add: ParseFrames_def example_data_def frame_ok_def MaxFrameLen_def example_frame_def)
  have "pruneFrameQueue ?fs = [example_frame 5 0 [1, 2] False, example_frame 5 1 [3] True]"
    by (simp add: prune_eq_fold push_frame_Cons frame_follows_def example_frame_def)
  then have n: "NextFrame ?ND ?O (NewFrameQueue example_config) 0
      = (Inr (example_frame 5 0 [1, 2] False),
         (NewFrameQueue example_config)\<lparr>fq_frames := [example_frame 5 1 [3] True]\<rparr>, 1)"
    by (simp add: NextFrame_def loadNextFrames_def p FrameQueue_prune_def NewFrameQueue_def
        IsHolocene_def fork_active_def example_config_def)
  show ?thesis
    using n NextFrame_holocene [OF n]
    by (simp add: NewFrameQueue_def IsHolocene_def fork_active_def example_config_def)
qed

end
