(* ===== verification/Solabi.thy ===== *)
theory Solabi
  imports Go_Prelude
begin

text \<open>
  Reading and writing Solidity ABI words (\<^verbatim>\<open>rhs-service/solabi/util.go\<close>). A writer that does
  not fail is the list of bytes it is given; a reader returns what it read and what is left.
  A \<^verbatim>\<open>common.Address\<close> is a \<open>160 word\<close>; a \<^verbatim>\<open>*big.Int\<close> is an \<open>int\<close>.
\<close>

type_synonym address = "160 word"

datatype solabi_error =
  SolIO read_error
  | PaddingNotEmpty bytes
  | NumberLength
  | InvalidSignature
  | BigIntTooLarge int

definition ReadSignature :: "bytes \<Rightarrow> solabi_error + bytes \<times> bytes" where
  "ReadSignature r = (case read_full 4 r of Inl e \<Rightarrow> Inl (SolIO e) | Inr (sig, r) \<Rightarrow> Inr (sig, r))"

definition ReadAndValidateSignature :: "bytes \<Rightarrow> bytes \<Rightarrow> solabi_error + bytes \<times> bytes" where
  "ReadAndValidateSignature r expected =
     (case read_full 4 r of
        Inl e \<Rightarrow> Inl (SolIO e)
      | Inr (sig, r) \<Rightarrow> if sig \<noteq> expected then Inl InvalidSignature else Inr (sig, r))"

definition ReadHash :: "bytes \<Rightarrow> solabi_error + hash \<times> bytes" where
  "ReadHash r = (case read_full 32 r of Inl e \<Rightarrow> Inl (SolIO e) | Inr (h, r) \<Rightarrow> Inr (of_be_bytes h, r))"

definition ReadEthBytes32 :: "bytes \<Rightarrow> solabi_error + hash \<times> bytes" where
  "ReadEthBytes32 r = (case read_full 32 r of Inl e \<Rightarrow> Inl (SolIO e) | Inr (b, r) \<Rightarrow> Inr (of_be_bytes b, r))"

definition ReadAddress :: "bytes \<Rightarrow> solabi_error + address \<times> bytes" where
  "ReadAddress r =
     (case read_full 12 r of
        Inl e \<Rightarrow> Inl (SolIO e)
      | Inr (pad, r) \<Rightarrow>
          if pad \<noteq> replicate 12 0 then Inl (PaddingNotEmpty pad)
          else case read_full 20 r of Inl e \<Rightarrow> Inl (SolIO e) | Inr (a, r) \<Rightarrow> Inr (of_be_bytes a, r))"

definition ReadUint64 :: "bytes \<Rightarrow> solabi_error + u64 \<times> bytes" where
  "ReadUint64 r =
     (case read_full 24 r of
        Inl e \<Rightarrow> Inl (SolIO e)
      | Inr (pad, r) \<Rightarrow>
          if pad \<noteq> replicate 24 0 then Inl (PaddingNotEmpty pad)
          else case read_full 8 r of Inl e \<Rightarrow> Inl NumberLength | Inr (n, r) \<Rightarrow> Inr (of_be_bytes n, r))"

definition ReadUint256 :: "bytes \<Rightarrow> solabi_error + int \<times> bytes" where
  "ReadUint256 r =
     (case read_full 32 r of
        Inl e \<Rightarrow> Inl (SolIO e)
      | Inr (n, r) \<Rightarrow> Inr (uint (of_be_bytes n :: 256 word), r))"

definition EmptyReader :: "bytes \<Rightarrow> bool" where
  "EmptyReader r \<longleftrightarrow> r = []"

definition WriteSignature :: "bytes \<Rightarrow> bytes" where
  "WriteSignature sig = sig"

definition WriteHash :: "hash \<Rightarrow> bytes" where
  "WriteHash h = be_bytes 32 h"

definition WriteEthBytes32 :: "hash \<Rightarrow> bytes" where
  "WriteEthBytes32 b = be_bytes 32 b"

definition WriteAddress :: "address \<Rightarrow> bytes" where
  "WriteAddress a = replicate 12 0 @ be_bytes 20 a"

text \<open>\<open>BitLen\<close> and \<open>FillBytes\<close> read the absolute value.\<close>

definition WriteUint256 :: "int \<Rightarrow> solabi_error + bytes" where
  "WriteUint256 n =
     (if \<bar>n\<bar> \<ge> 2 ^ 256 then Inl (BigIntTooLarge n) else Inr (be_bytes 32 (of_int \<bar>n\<bar> :: 256 word)))"

definition WriteUint64 :: "u64 \<Rightarrow> bytes" where
  "WriteUint64 n = replicate 24 0 @ be_bytes 8 n"

definition WriteUint8 :: "u8 \<Rightarrow> bytes" where
  "WriteUint8 n = replicate 31 0 @ be_bytes 1 n"

section \<open>Readers accept exactly what the writers write\<close>

text \<open>The contract between a reader and a writer of a fixed-size value.\<close>

locale abi_word =
  fixes enc :: "'a \<Rightarrow> bytes" and dec :: "bytes \<Rightarrow> solabi_error + 'a \<times> bytes"
  assumes dec_enc: "dec (enc x @ rest) = Inr (x, rest)"
    and enc_dec: "dec r = Inr (x, rest) \<Longrightarrow> r = enc x @ rest"
begin

lemma dec_iff: "dec r = Inr (x, rest) \<longleftrightarrow> r = enc x @ rest"
  using dec_enc enc_dec by blast

lemma enc_inject: "enc x @ r = enc y @ s \<Longrightarrow> x = y \<and> r = s"
  by (metis Pair_inject dec_enc sum.inject(2))

end

lemma be_of_be_bytes': "length bs = n \<Longrightarrow> 8 * n \<le> LENGTH('a) \<Longrightarrow> be_bytes n (of_be_bytes bs :: 'a::len word) = bs"
  using be_of_be_bytes by metis

interpretation abi_hash: abi_word WriteHash ReadHash
  by unfold_locales
    (auto simp: WriteHash_def ReadHash_def read_full_append of_be_be_bytes be_of_be_bytes'
      split: sum.splits prod.splits dest!: read_full_InrD)

interpretation abi_bytes32: abi_word WriteEthBytes32 ReadEthBytes32
  by unfold_locales
    (auto simp: WriteEthBytes32_def ReadEthBytes32_def read_full_append of_be_be_bytes be_of_be_bytes'
      split: sum.splits prod.splits dest!: read_full_InrD)

interpretation abi_address: abi_word WriteAddress ReadAddress
  by unfold_locales
    (auto simp: WriteAddress_def ReadAddress_def read_full_append of_be_be_bytes be_of_be_bytes'
      split: sum.splits prod.splits if_splits dest!: read_full_InrD)

interpretation abi_uint64: abi_word WriteUint64 ReadUint64
  by unfold_locales
    (auto simp: WriteUint64_def ReadUint64_def read_full_append of_be_be_bytes be_of_be_bytes'
      split: sum.splits prod.splits if_splits dest!: read_full_InrD)

text \<open>C40: a value of the \<open>uint256\<close> range is written as 32 bytes and reads back as itself, for every following input.
  Of the other integers, one of magnitude $2^{256}$ or more is refused and not truncated; a smaller negative one
  is not refused: it is written, and reads back, as its absolute value.\<close>
theorem WriteUint256_roundtrip:
  "(if 0 \<le> n \<and> n < 2 ^ 256 then \<exists>bs. WriteUint256 n = Inr bs \<and> length bs = 32 \<and> ReadUint256 (bs @ rest) = Inr (n, rest)
    else if \<bar>n\<bar> < 2 ^ 256 then \<exists>bs. WriteUint256 n = Inr bs \<and> ReadUint256 (bs @ rest) = Inr (- n, rest)
    else WriteUint256 n = Inl (BigIntTooLarge n))"
proof -
  have "uint (of_int \<bar>n\<bar> :: 256 word) = \<bar>n\<bar>" if "\<bar>n\<bar> < 2 ^ 256"
    using that by (simp add: uint_word_of_int_eq take_bit_int_eq_self)
  then show ?thesis
    by (auto simp: WriteUint256_def ReadUint256_def read_full_append of_be_be_bytes not_le)
qed

end
