(* ===== verification/System_Config.thy ===== *)
theory System_Config
  imports Rollup_Config Solabi Derive_Errors
begin

text \<open>
  Updates of the system configuration from L1 logs
  (\<^verbatim>\<open>rhs-node/rollup/derive/system_config.go\<close>). The hash of the event signature, a Keccak hash,
  is the parameter \<open>abi\<close>.
\<close>

record event_log =
  log_Topics :: "hash list"
  log_Data :: bytes

record receipt =
  rec_Status :: u64
  rec_Logs :: "event_log list"

definition SystemConfigUpdateBatcher :: hash where "SystemConfigUpdateBatcher = 0"
definition SystemConfigUpdateFeeScalars :: hash where "SystemConfigUpdateFeeScalars = 1"
definition SystemConfigUpdateGasLimit :: hash where "SystemConfigUpdateGasLimit = 2"
definition SystemConfigUpdateUnsafeBlockSigner :: hash where "SystemConfigUpdateUnsafeBlockSigner = 3"
definition SystemConfigUpdateEIP1559Params :: hash where "SystemConfigUpdateEIP1559Params = 4"
definition SystemConfigUpdateOperatorFeeParams :: hash where "SystemConfigUpdateOperatorFeeParams = 5"

lemmas update_types = SystemConfigUpdateBatcher_def SystemConfigUpdateFeeScalars_def
  SystemConfigUpdateGasLimit_def SystemConfigUpdateUnsafeBlockSigner_def
  SystemConfigUpdateEIP1559Params_def SystemConfigUpdateOperatorFeeParams_def

datatype update_error =
  ExpectedThreeTopics nat | InvalidUpdateEvent | UnrecognizedVersion hash
  | InvalidPointer | InvalidLength | TooManyBytes
  | CouldNotReadGasLimit | CouldNotReadEIP1559Params | CouldNotReadOperatorFeeParams
  | UnrecognizedUpdateType hash

text \<open>\<open>NewCriticalError\<close> is around exactly the errors of malformed data.\<close>

fun update_error_critical :: "update_error \<Rightarrow> bool" where
  "update_error_critical (ExpectedThreeTopics _) = False"
| "update_error_critical InvalidUpdateEvent = False"
| "update_error_critical (UnrecognizedVersion _) = False"
| "update_error_critical (UnrecognizedUpdateType _) = False"
| "update_error_critical _ = True"

text \<open>The two words every update starts with; the result is what is left of the data.\<close>

definition read_pointer_length :: "u64 \<Rightarrow> bytes \<Rightarrow> update_error + bytes" where
  "read_pointer_length len reader =
     (case ReadUint64 reader of
        Inl _ \<Rightarrow> Inl InvalidPointer
      | Inr (pointer, reader) \<Rightarrow>
          if pointer \<noteq> 32 then Inl InvalidPointer
          else case ReadUint64 reader of
                 Inl _ \<Rightarrow> Inl InvalidLength
               | Inr (n, reader) \<Rightarrow> if n \<noteq> len then Inl InvalidLength else Inr reader)"

definition ProcessSystemConfigUpdateLogEvent ::
  "hash \<Rightarrow> system_config \<Rightarrow> event_log \<Rightarrow> update_error + system_config" where
  "ProcessSystemConfigUpdateLogEvent abi destSysCfg ev =
     (case log_Topics ev of
        [event, version, updateType] \<Rightarrow>
          if event \<noteq> abi then Inl InvalidUpdateEvent
          else if version \<noteq> 0 then Inl (UnrecognizedVersion version)
          else if updateType = SystemConfigUpdateBatcher
          then (case read_pointer_length 32 (log_Data ev) of
                  Inl e \<Rightarrow> Inl e
                | Inr reader \<Rightarrow> if \<not> EmptyReader reader then Inl TooManyBytes else Inr destSysCfg)
          else if updateType = SystemConfigUpdateFeeScalars
          then (case read_pointer_length 64 (log_Data ev) of Inl e \<Rightarrow> Inl e | Inr reader \<Rightarrow> Inr destSysCfg)
          else if updateType = SystemConfigUpdateGasLimit
          then (case read_pointer_length 32 (log_Data ev) of
                  Inl e \<Rightarrow> Inl e
                | Inr reader \<Rightarrow>
                    (case ReadUint64 reader of
                       Inl _ \<Rightarrow> Inl CouldNotReadGasLimit
                     | Inr (gasLimit, reader) \<Rightarrow>
                         if \<not> EmptyReader reader then Inl TooManyBytes
                         else Inr (destSysCfg\<lparr>sc_GasLimit := gasLimit\<rparr>)))
          else if updateType = SystemConfigUpdateEIP1559Params
          then (case read_pointer_length 32 (log_Data ev) of
                  Inl e \<Rightarrow> Inl e
                | Inr reader \<Rightarrow>
                    (case ReadEthBytes32 reader of
                       Inl _ \<Rightarrow> Inl CouldNotReadEIP1559Params
                     | Inr (params, reader) \<Rightarrow>
                         if \<not> EmptyReader reader then Inl TooManyBytes
                         else Inr (destSysCfg\<lparr>sc_EIP1559Params := of_be_bytes (drop 24 (be_bytes 32 params))\<rparr>)))
          else if updateType = SystemConfigUpdateOperatorFeeParams
          then (case read_pointer_length 32 (log_Data ev) of
                  Inl e \<Rightarrow> Inl e
                | Inr reader \<Rightarrow>
                    (case ReadEthBytes32 reader of
                       Inl _ \<Rightarrow> Inl CouldNotReadOperatorFeeParams
                     | Inr (params, reader) \<Rightarrow>
                         if \<not> EmptyReader reader then Inl TooManyBytes
                         else Inr (destSysCfg\<lparr>sc_OperatorFeeParams := params\<rparr>)))
          else if updateType = SystemConfigUpdateUnsafeBlockSigner then Inr destSysCfg
          else Inl (UnrecognizedUpdateType updateType)
      | topics \<Rightarrow> Inl (ExpectedThreeTopics (length topics)))"

text \<open>The two loops; errors are collected with the indices of receipt and log, and the loops go on.\<close>

fun update_logs ::
  "hash \<Rightarrow> nat \<Rightarrow> nat \<Rightarrow> event_log list \<Rightarrow> system_config \<Rightarrow> (nat \<times> nat \<times> update_error) list
     \<Rightarrow> system_config \<times> (nat \<times> nat \<times> update_error) list" where
  "update_logs abi i j [] sysCfg result = (sysCfg, result)"
| "update_logs abi i j (l # logs) sysCfg result =
     (if log_Topics l \<noteq> [] \<and> hd (log_Topics l) = abi
      then case ProcessSystemConfigUpdateLogEvent abi sysCfg l of
             Inl err \<Rightarrow> update_logs abi i (Suc j) logs sysCfg (result @ [(i, j, err)])
           | Inr sysCfg \<Rightarrow> update_logs abi i (Suc j) logs sysCfg result
      else update_logs abi i (Suc j) logs sysCfg result)"

fun update_receipts ::
  "hash \<Rightarrow> nat \<Rightarrow> receipt list \<Rightarrow> system_config \<Rightarrow> (nat \<times> nat \<times> update_error) list
     \<Rightarrow> system_config \<times> (nat \<times> nat \<times> update_error) list" where
  "update_receipts abi i [] sysCfg result = (sysCfg, result)"
| "update_receipts abi i (r # receipts) sysCfg result =
     (if rec_Status r \<noteq> 1 then update_receipts abi (Suc i) receipts sysCfg result
      else let (sysCfg, result) = update_logs abi i 0 (rec_Logs r) sysCfg result
           in update_receipts abi (Suc i) receipts sysCfg result)"

text \<open>The configuration is updated in place, also when an error is returned (a non-empty list).\<close>

definition UpdateSystemConfigWithL1Receipts ::
  "hash \<Rightarrow> system_config \<Rightarrow> receipt list \<Rightarrow> system_config \<times> (nat \<times> nat \<times> update_error) list" where
  "UpdateSystemConfigWithL1Receipts abi sysCfg receipts = update_receipts abi 0 receipts sysCfg []"

section \<open>Which logs are accepted\<close>

lemma read_pointer_length_iff:
  "read_pointer_length len r = Inr rest \<longleftrightarrow> r = WriteUint64 32 @ WriteUint64 len @ rest"
proof
  assume "read_pointer_length len r = Inr rest"
  then show "r = WriteUint64 32 @ WriteUint64 len @ rest"
    by (auto simp: read_pointer_length_def split: sum.splits prod.splits if_splits
        dest!: abi_uint64.enc_dec)
qed (simp add: read_pointer_length_def abi_uint64.dec_enc)

text \<open>The event a contract emits for an update: pointer 32, length, then the value.\<close>

definition update_event :: "hash \<Rightarrow> hash \<Rightarrow> bytes \<Rightarrow> event_log" where
  "update_event abi updateType payload =
     \<lparr>log_Topics = [abi, 0, updateType], log_Data = WriteUint64 32 @ WriteUint64 32 @ payload\<rparr>"







text \<open>A batcher update as the contract emits it, with the address in a third word, is refused.\<close>

lemma batcher_update_refused:
  "ProcessSystemConfigUpdateLogEvent abi c
     (update_event abi SystemConfigUpdateBatcher (WriteAddress a)) = Inl TooManyBytes"
  by (simp add: ProcessSystemConfigUpdateLogEvent_def update_event_def update_types
      read_pointer_length_iff [THEN iffD2, OF refl] EmptyReader_def WriteAddress_def)

section \<open>A block's receipts\<close>

text \<open>A failed update leaves the configuration as it was; so the result of a block is that of applying
  its accepted events in order.\<close>

definition apply_event :: "hash \<Rightarrow> system_config \<Rightarrow> event_log \<Rightarrow> system_config" where
  "apply_event abi c l = (case ProcessSystemConfigUpdateLogEvent abi c l of Inl _ \<Rightarrow> c | Inr c' \<Rightarrow> c')"

definition config_events :: "hash \<Rightarrow> receipt list \<Rightarrow> event_log list" where
  "config_events abi receipts =
     filter (\<lambda>l. log_Topics l \<noteq> [] \<and> hd (log_Topics l) = abi)
       (concat (map rec_Logs (filter (\<lambda>r. rec_Status r = 1) receipts)))"

lemma update_logs_fold:
  "fst (update_logs abi i j logs c result) =
     foldl (apply_event abi) c (filter (\<lambda>l. log_Topics l \<noteq> [] \<and> hd (log_Topics l) = abi) logs)"
  by (induction logs arbitrary: j c result) (auto simp: apply_event_def split: sum.splits)

lemma update_receipts_fold:
  "fst (update_receipts abi i receipts c result) = foldl (apply_event abi) c (config_events abi receipts)"
proof (induction receipts arbitrary: i c result)
  case (Cons r receipts)
  show ?case
  proof (cases "rec_Status r = 1")
    case True
    obtain c' result' where u: "update_logs abi i 0 (rec_Logs r) c result = (c', result')"
      by (cases "update_logs abi i 0 (rec_Logs r) c result")
    with update_logs_fold [of abi i 0 "rec_Logs r" c result] Cons True show ?thesis
      by (simp add: config_events_def)
  qed (use Cons in \<open>simp add: config_events_def\<close>)
qed (simp add: config_events_def)

text \<open>C30: whatever errors occur on the way, the system configuration after a block is the one before with
  the accepted configuration events of the successful receipts applied, in the order of the block;
  malformed events change nothing.\<close>
theorem UpdateSystemConfig_fold:
  "fst (UpdateSystemConfigWithL1Receipts abi c receipts) =
     foldl (apply_event abi) c (config_events abi receipts)"
  by (simp add: UpdateSystemConfigWithL1Receipts_def update_receipts_fold)

end
