(* ===== verification/L1_Stages.thy ===== *)
theory L1_Stages
  imports Frame_Queue System_Config
begin

text \<open>
  The front of the derivation pipeline: the traversal of L1 blocks
  (\<^verbatim>\<open>rhs-node/rollup/derive/l1_traversal.go\<close>), the calldata source (\<^verbatim>\<open>calldata_source.go\<close>,
  \<^verbatim>\<open>data_source.go\<close>) and the retrieval stage that opens a source per block
  (\<^verbatim>\<open>l1_retrieval.go\<close>).

  The L1 client is a parameter: the block by number, the receipts and the transactions of a block
  by hash, and the sender the signer recovers from a transaction.
\<close>

datatype fetch_error = NotFound | FetchFailed

section \<open>Traversal\<close>

record l1_traversal =
  l1t_block :: l1_block_ref
  l1t_done :: bool
  l1t_sysCfg :: system_config

definition zero_system_config :: system_config where
  "zero_system_config =
     \<lparr>sc_GasLimit = 0, sc_EIP1559Params = 0, sc_OperatorFeeParams = 0, sc_MarshalPreHolocene = False\<rparr>"

definition NewL1Traversal :: l1_traversal where
  "NewL1Traversal = \<lparr>l1t_block = zero_l1, l1t_done = False, l1t_sysCfg = zero_system_config\<rparr>"

definition L1Traversal_Origin :: "l1_traversal \<Rightarrow> l1_block_ref" where
  "L1Traversal_Origin t = l1t_block t"

definition NextL1Block :: "l1_traversal \<Rightarrow> (derive_error + l1_block_ref) \<times> l1_traversal" where
  "NextL1Block t =
     (if \<not> l1t_done t then (Inr (l1t_block t), t\<lparr>l1t_done := True\<rparr>) else (Inl D_EOF, t))"

definition AdvanceL1Block ::
  "(u64 \<Rightarrow> fetch_error + l1_block_ref) \<Rightarrow> (hash \<Rightarrow> fetch_error + receipt list) \<Rightarrow> hash \<Rightarrow> l1_traversal
     \<Rightarrow> derive_error option \<times> l1_traversal" where
  "AdvanceL1Block L1BlockRefByNumber FetchReceipts abi t =
     (let origin = l1t_block t
      in case L1BlockRefByNumber (l1_number origin + 1) of
           Inl NotFound \<Rightarrow> (Some D_EOF, t)
         | Inl err \<Rightarrow> (Some (NewTemporaryError (Some (D_New ''failed to find L1 block info by number''))), t)
         | Inr nextL1Origin \<Rightarrow>
             if l1_hash (l1t_block t) \<noteq> l1_parent nextL1Origin
             then (Some (NewResetError (Some (D_New ''detected L1 reorg''))), t)
             else case FetchReceipts (l1_hash nextL1Origin) of
                    Inl err \<Rightarrow> (Some (NewTemporaryError (Some (D_New ''failed to fetch receipts''))), t)
                  | Inr receipts \<Rightarrow>
                      let (sysCfg, errs) = UpdateSystemConfigWithL1Receipts abi (l1t_sysCfg t) receipts;
                          t = t\<lparr>l1t_sysCfg := sysCfg\<rparr>
                      in if errs \<noteq> []
                         then (Some (NewCriticalError (Some (D_New ''failed to update L1 sysCfg''))), t)
                         else (None, t\<lparr>l1t_block := nextL1Origin, l1t_done := False\<rparr>))"

definition L1Traversal_Reset :: "system_config \<Rightarrow> l1_traversal \<Rightarrow> derive_error \<times> l1_traversal" where
  "L1Traversal_Reset cfg t = (D_EOF, t\<lparr>l1t_done := False, l1t_sysCfg := cfg\<rparr>)"

definition L1Traversal_SystemConfig :: "l1_traversal \<Rightarrow> system_config" where
  "L1Traversal_SystemConfig t = l1t_sysCfg t"

text \<open>C32: when the traversal advances, the new block is the child of the old one, by hash and, for a
  client that answers with the block of the number asked for, by number; in every other outcome the
  block is the old one, and a reorg (a next block with another parent) is reported as a reset error.\<close>
theorem AdvanceL1Block_chain:
  assumes "AdvanceL1Block L1BlockRefByNumber FetchReceipts abi t = (res, t')"
    and "\<And>n b. L1BlockRefByNumber n = Inr b \<Longrightarrow> l1_number b = n"
  shows "if res = None
     then l1_parent (l1t_block t') = l1_hash (l1t_block t)
          \<and> l1_number (l1t_block t') = l1_number (l1t_block t) + 1 \<and> \<not> l1t_done t'
     else l1t_block t' = l1t_block t \<and> l1t_done t' = l1t_done t
          \<and> (\<forall>b. L1BlockRefByNumber (l1_number (l1t_block t) + 1) = Inr b
                 \<and> l1_parent b \<noteq> l1_hash (l1t_block t) \<longrightarrow> errors_Is (the res) (NewResetError None))"
  using assms
  by (auto simp: AdvanceL1Block_def Let_def split: sum.splits fetch_error.splits prod.splits if_splits)

theorem AdvanceL1Block_chain_witness:
  "\<exists>t'. AdvanceL1Block (\<lambda>n. Inr (zero_l1\<lparr>l1_number := n, l1_hash := 9\<rparr>)) (\<lambda>h. Inr []) 3 NewL1Traversal = (None, t')
     \<and> l1_parent (l1t_block t') = l1_hash (l1t_block NewL1Traversal)"
proof -
  let ?f = "\<lambda>n. Inr (zero_l1\<lparr>l1_number := n, l1_hash := 9\<rparr>) :: fetch_error + l1_block_ref"
  obtain t' where a: "AdvanceL1Block ?f (\<lambda>h. Inr []) 3 NewL1Traversal = (None, t')"
    by (simp add: AdvanceL1Block_def NewL1Traversal_def UpdateSystemConfigWithL1Receipts_def zero_l1_def)
  show ?thesis using a AdvanceL1Block_chain [OF a] by auto
qed

section \<open>The calldata source\<close>

record l1_tx =
  tx_Hash :: hash
  tx_Type :: u8
  tx_To :: "address option"
  tx_Data :: bytes

record data_source_config =
  dsc_batchInboxAddress :: address
  dsc_altDAEnabled :: bool

definition BlobTxType :: u8 where "BlobTxType = 3"
definition DepositTxType :: u8 where "DepositTxType = 126"

definition isValidBatchTx :: "(l1_tx \<Rightarrow> address option) \<Rightarrow> address \<Rightarrow> address \<Rightarrow> l1_tx \<Rightarrow> bool" where
  "isValidBatchTx Sender batchInboxAddr batcherAddr tx =
     (if tx_Type tx > BlobTxType \<and> tx_Type tx \<noteq> DepositTxType then False
      else case tx_To tx of
             None \<Rightarrow> False
           | Some t \<Rightarrow>
               if t \<noteq> batchInboxAddr then False
               else case Sender tx of
                      None \<Rightarrow> False
                    | Some seqDataSubmitter \<Rightarrow> seqDataSubmitter = batcherAddr)"

definition DataFromEVMTransactions ::
  "(l1_tx \<Rightarrow> address option) \<Rightarrow> data_source_config \<Rightarrow> address \<Rightarrow> l1_tx list \<Rightarrow> bytes list" where
  "DataFromEVMTransactions Sender dsCfg batcherAddr txs =
     foldl (\<lambda>out tx. if isValidBatchTx Sender (dsc_batchInboxAddress dsCfg) batcherAddr tx
                     then out @ [tx_Data tx] else out) [] txs"

text \<open>A source that is open keeps only its data; the other fields serve to open it later.\<close>

record calldata_source =
  cds_open :: bool
  cds_data :: "bytes list"
  cds_ref :: l1_block_ref
  cds_dsCfg :: data_source_config
  cds_batcherAddr :: address

definition NewCalldataSource ::
  "(l1_tx \<Rightarrow> address option) \<Rightarrow> (hash \<Rightarrow> fetch_error + l1_tx list) \<Rightarrow> data_source_config
     \<Rightarrow> l1_block_ref \<Rightarrow> address \<Rightarrow> calldata_source" where
  "NewCalldataSource Sender TxsByHash dsCfg ref batcherAddr =
     (case TxsByHash (l1_hash ref) of
        Inl err \<Rightarrow> \<lparr>cds_open = False, cds_data = [], cds_ref = ref, cds_dsCfg = dsCfg, cds_batcherAddr = batcherAddr\<rparr>
      | Inr txs \<Rightarrow> \<lparr>cds_open = True, cds_data = DataFromEVMTransactions Sender dsCfg batcherAddr txs,
                    cds_ref = ref, cds_dsCfg = dsCfg, cds_batcherAddr = batcherAddr\<rparr>)"

definition CalldataSource_Next ::
  "(l1_tx \<Rightarrow> address option) \<Rightarrow> (hash \<Rightarrow> fetch_error + l1_tx list) \<Rightarrow> calldata_source
     \<Rightarrow> (derive_error + bytes) \<times> calldata_source" where
  "CalldataSource_Next Sender TxsByHash ds =
     (case (if \<not> cds_open ds
            then case TxsByHash (l1_hash (cds_ref ds)) of
                   Inr txs \<Rightarrow> Inr (ds\<lparr>cds_open := True,
                      cds_data := DataFromEVMTransactions Sender (cds_dsCfg ds) (cds_batcherAddr ds) txs\<rparr>)
                 | Inl NotFound \<Rightarrow> Inl (NewResetError (Some (D_New ''failed to open calldata source'')))
                 | Inl err \<Rightarrow> Inl (NewTemporaryError (Some (D_New ''failed to open calldata source'')))
            else Inr ds) of
        Inl err \<Rightarrow> (Inl err, ds)
      | Inr ds \<Rightarrow>
          (case cds_data ds of
             [] \<Rightarrow> (Inl D_EOF, ds)
           | data # rest \<Rightarrow> (Inr data, ds\<lparr>cds_data := rest\<rparr>)))"

section \<open>Retrieval\<close>

text \<open>The traversal in front and the source of the current block, nil when there is none.\<close>

record 'd l1_retrieval =
  l1r_prev :: l1_traversal
  l1r_datas :: "'d option"

definition NewL1Retrieval :: "l1_traversal \<Rightarrow> 'd l1_retrieval" where
  "NewL1Retrieval t = \<lparr>l1r_prev = t, l1r_datas = None\<rparr>"

definition L1Retrieval_Origin :: "'d l1_retrieval \<Rightarrow> l1_block_ref" where
  "L1Retrieval_Origin r = L1Traversal_Origin (l1r_prev r)"

definition fetch_data ::
  "('d \<Rightarrow> (derive_error + bytes) \<times> 'd) \<Rightarrow> 'd \<Rightarrow> 'd l1_retrieval \<Rightarrow> (derive_error + bytes) \<times> 'd l1_retrieval" where
  "fetch_data NextPiece d r =
     (case NextPiece d of
        (Inl err, d) \<Rightarrow> if err = D_EOF then (Inl D_EOF, r\<lparr>l1r_datas := None\<rparr>)
                        else (Inl err, r\<lparr>l1r_datas := Some d\<rparr>)
      | (Inr data, d) \<Rightarrow> (Inr data, r\<lparr>l1r_datas := Some d\<rparr>))"

definition L1Retrieval_NextData ::
  "(l1_block_ref \<Rightarrow> derive_error + 'd) \<Rightarrow> ('d \<Rightarrow> (derive_error + bytes) \<times> 'd) \<Rightarrow> 'd l1_retrieval
     \<Rightarrow> (derive_error + bytes) \<times> 'd l1_retrieval" where
  "L1Retrieval_NextData OpenData NextPiece r =
     (case l1r_datas r of
        Some d \<Rightarrow> fetch_data NextPiece d r
      | None \<Rightarrow>
          (case NextL1Block (l1r_prev r) of
             (Inl err, t) \<Rightarrow> (Inl err, r\<lparr>l1r_prev := t\<rparr>)
           | (Inr nxt, t) \<Rightarrow>
               (case OpenData nxt of
                  Inl err \<Rightarrow> (Inl (D_Wrap ''failed to open data source'' err), r\<lparr>l1r_prev := t\<rparr>)
                | Inr d \<Rightarrow> fetch_data NextPiece d (r\<lparr>l1r_prev := t, l1r_datas := Some d\<rparr>))))"

definition L1Retrieval_Reset ::
  "(l1_block_ref \<Rightarrow> derive_error + 'd) \<Rightarrow> 'd l1_retrieval \<Rightarrow> derive_error \<times> 'd l1_retrieval" where
  "L1Retrieval_Reset OpenData r =
     (case OpenData zero_l1 of
        Inl err \<Rightarrow> (D_Wrap ''failed to open data source'' err, r\<lparr>l1r_datas := None\<rparr>)
      | Inr d \<Rightarrow> (D_EOF, r\<lparr>l1r_datas := Some d\<rparr>))"

lemma NextL1Block_origin: "NextL1Block t = (res, t') \<Longrightarrow> l1t_block t' = l1t_block t"
  by (auto simp: NextL1Block_def split: if_splits)

lemma fetch_data_prev: "fetch_data NextPiece d r = (res, r') \<Longrightarrow> l1r_prev r' = l1r_prev r"
  by (auto simp: fetch_data_def split: prod.splits sum.splits if_splits)

interpretation l1_data: data_provider "L1Retrieval_NextData OpenData NextPiece" L1Retrieval_Origin
  for OpenData :: "l1_block_ref \<Rightarrow> derive_error + 'd" and NextPiece
  by unfold_locales
    (auto simp: L1Retrieval_NextData_def L1Retrieval_Origin_def L1Traversal_Origin_def
      dest!: fetch_data_prev NextL1Block_origin split: option.splits prod.splits sum.splits)

end
