(* ===== verification/Channel_Assembler.thy ===== *)
theory Channel_Assembler
  imports Channel_Bank L1_Stages
begin

text \<open>
  The channel assembler, the channel stage from Holocene on
  (\<^verbatim>\<open>rhs-node/rollup/derive/channel_assembler.go\<close>), and the mux that swaps the bank for it
  (\<^verbatim>\<open>channel_mux.go\<close>).

  The loop that ingests frames may run for as long as the stage in front delivers frames: it is
  a \<open>partial_function\<close>, with \<open>None\<close> for a loop that does not end.
\<close>

record channel_assembler =
  ca_cfg :: config
  ca_channel :: "channel option"

definition NewChannelAssembler :: "config \<Rightarrow> channel_assembler" where
  "NewChannelAssembler c = \<lparr>ca_cfg = c, ca_channel = None\<rparr>"

definition resetChannel :: "channel_assembler \<Rightarrow> channel_assembler" where
  "resetChannel ca = ca\<lparr>ca_channel := None\<rparr>"

definition assembler_Reset :: "channel_assembler \<Rightarrow> derive_error \<times> channel_assembler" where
  "assembler_Reset ca = (D_EOF, resetChannel ca)"

definition assembler_FlushChannel :: "channel_assembler \<Rightarrow> channel_assembler" where
  "assembler_FlushChannel ca = resetChannel ca"

definition channelTimedOut :: "channel_assembler \<Rightarrow> l1_block_ref \<Rightarrow> channel \<Rightarrow> bool" where
  "channelTimedOut ca origin ch \<longleftrightarrow>
     OpenBlockNumber ch + ChannelTimeout (ca_cfg ca) (l1_time origin) < l1_number origin"

text \<open>
  What one frame does to the stage: go on reading, or leave the loop with a complete channel.
  \<open>origin\<close> is the origin at the start of the call, \<open>now\<close> the origin when the frame was
  delivered. \<open>ca.channel.AddFrame\<close> is only reached with a channel, so it cannot dereference
  nil: a first frame has just opened one, and other frames without one are dropped.
\<close>

datatype ingest = GoOn channel_assembler | Complete channel_assembler

definition ingest_frame :: "channel_assembler \<Rightarrow> l1_block_ref \<Rightarrow> l1_block_ref \<Rightarrow> frame \<Rightarrow> ingest" where
  "ingest_frame ca origin now f =
     (let ca = (if fr_FrameNumber f = 0
                then ca\<lparr>ca_channel := Some (NewChannel (fr_ID f) origin True)\<rparr> else ca)
      in case ca_channel ca of
           None \<Rightarrow> GoOn ca
         | Some ch \<Rightarrow>
             (case AddFrame ch f origin of
                Inl err \<Rightarrow> GoOn ca
              | Inr ch \<Rightarrow>
                  let ca = ca\<lparr>ca_channel := Some ch\<rparr>
                  in if ch_size ch > MaxRLPBytesPerChannel (ca_cfg ca) (l1_time now)
                     then GoOn (resetChannel ca)
                     else if fr_IsLast f then Complete ca else GoOn ca))"

partial_function (option) assemble ::
  "('p \<Rightarrow> (derive_error + frame) \<times> 'p) \<Rightarrow> ('p \<Rightarrow> l1_block_ref) \<Rightarrow> l1_block_ref
     \<Rightarrow> channel_assembler \<Rightarrow> 'p \<Rightarrow> (derive_error option \<times> channel_assembler \<times> 'p) option" where
  "assemble next_frame Origin origin ca p =
     (case next_frame p of
        (Inl err, p') \<Rightarrow> Some (Some err, ca, p')
      | (Inr frame, p') \<Rightarrow>
          (case ingest_frame ca origin (Origin p') frame of
             Complete ca' \<Rightarrow> Some (None, ca', p')
           | GoOn ca' \<Rightarrow> assemble next_frame Origin origin ca' p'))"

text \<open>The panic of \<open>Reader\<close> on a missing frame cannot be told from a loop that does not end here; the
  theorems show that neither happens.\<close>

definition assembler_NextRawChannel ::
  "('p \<Rightarrow> (derive_error + frame) \<times> 'p) \<Rightarrow> ('p \<Rightarrow> l1_block_ref) \<Rightarrow> channel_assembler \<Rightarrow> 'p
     \<Rightarrow> ((derive_error + bytes) \<times> channel_assembler \<times> 'p) option" where
  "assembler_NextRawChannel next_frame Origin ca p =
     (let ca = (case ca_channel ca of
                  Some ch \<Rightarrow> if channelTimedOut ca (Origin p) ch then resetChannel ca else ca
                | None \<Rightarrow> ca);
          origin = Origin p
      in if (case ca_channel ca of Some ch \<Rightarrow> IsReady ch | None \<Rightarrow> False)
         then Some (Inl (NewCriticalError (Some (D_New ''unexpected ready channel''))), ca, p)
         else case assemble next_frame Origin origin ca p of
                None \<Rightarrow> None
              | Some (Some err, ca, p) \<Rightarrow> Some (Inl err, ca, p)
              | Some (None, ca, p) \<Rightarrow>
                  (case ca_channel ca of
                     None \<Rightarrow> Some (Inl (NewCriticalError (Some (D_New ''unexpected non-ready channel''))), ca, p)
                   | Some ch \<Rightarrow>
                       if \<not> IsReady ch
                       then Some (Inl (NewCriticalError (Some (D_New ''unexpected non-ready channel''))), ca, p)
                       else map_option (\<lambda>data. (Inr data, resetChannel ca, p)) (Reader ch)))"

section \<open>Invariant\<close>

text \<open>The staged channel holds frames in order and has not seen its last frame.\<close>

definition assembler_inv :: "channel_assembler \<Rightarrow> bool" where
  "assembler_inv ca \<longleftrightarrow> (\<forall>ch. ca_channel ca = Some ch \<longrightarrow> (\<exists>fs. holds_frames ch fs))"

lemma assembler_inv_reset [simp]: "assembler_inv (resetChannel ca)"
  by (simp add: assembler_inv_def resetChannel_def)

lemma assembler_inv_New [simp]: "assembler_inv (NewChannelAssembler c)"
  by (simp add: assembler_inv_def NewChannelAssembler_def)

text \<open>The stage after a first frame opened a channel.\<close>

definition open_first :: "channel_assembler \<Rightarrow> l1_block_ref \<Rightarrow> frame \<Rightarrow> channel_assembler" where
  "open_first ca origin f =
     (if fr_FrameNumber f = 0 then ca\<lparr>ca_channel := Some (NewChannel (fr_ID f) origin True)\<rparr> else ca)"

lemma open_first_inv: "assembler_inv ca \<Longrightarrow> assembler_inv (open_first ca origin f)"
  using holds_NewChannel by (auto simp: open_first_def assembler_inv_def)

lemma open_first_cfg [simp]: "ca_cfg (open_first ca origin f) = ca_cfg ca"
  by (simp add: open_first_def)

lemma ingest_frame_cases:
  assumes "assembler_inv ca"
  obtains "ingest_frame ca origin now f = GoOn (open_first ca origin f)"
  | ch fs ch' where "ca_channel (open_first ca origin f) = Some ch" "holds_frames ch fs"
      "AddFrame ch f origin = Inr ch'"
      "ingest_frame ca origin now f =
         (let ca' = (open_first ca origin f)\<lparr>ca_channel := Some ch'\<rparr>
          in if ch_size ch' > MaxRLPBytesPerChannel (ca_cfg ca) (l1_time now) then GoOn (resetChannel ca')
             else if fr_IsLast f then Complete ca' else GoOn ca')"
proof (cases "ca_channel (open_first ca origin f)")
  case None
  then show thesis by (intro that(1)) (simp add: ingest_frame_def open_first_def Let_def)
next
  case (Some ch)
  from open_first_inv [OF assms, of origin f] Some obtain fs where h: "holds_frames ch fs"
    by (auto simp: assembler_inv_def)
  show thesis
  proof (cases "AddFrame ch f origin")
    case (Inl err)
    with Some show thesis
      by (intro that(1)) (simp add: ingest_frame_def open_first_def [symmetric] Let_def)
  next
    case (Inr ch')
    have "ingest_frame ca origin now f =
         (let ca' = (open_first ca origin f)\<lparr>ca_channel := Some ch'\<rparr>
          in if ch_size ch' > MaxRLPBytesPerChannel (ca_cfg ca) (l1_time now) then GoOn (resetChannel ca')
             else if fr_IsLast f then Complete ca' else GoOn ca')"
      using Some Inr by (simp add: ingest_frame_def open_first_def [symmetric] Let_def)
    with Some h Inr show thesis by (rule that(2))
  qed
qed

lemma ingest_frame_GoOn:
  assumes "assembler_inv ca" and "ingest_frame ca origin now f = GoOn ca'"
  shows "assembler_inv ca'" "ca_cfg ca' = ca_cfg ca"
proof -
  have "assembler_inv ca' \<and> ca_cfg ca' = ca_cfg ca"
  proof (rule ingest_frame_cases [OF assms(1), of origin now f])
    assume "ingest_frame ca origin now f = GoOn (open_first ca origin f)"
    with assms(2) have "ca' = open_first ca origin f" by simp
    with open_first_inv [OF assms(1)] show ?thesis by simp
  next
    fix ch fs ch'
    assume h: "holds_frames ch fs" "AddFrame ch f origin = Inr ch'"
      and i: "ingest_frame ca origin now f =
         (let ca' = (open_first ca origin f)\<lparr>ca_channel := Some ch'\<rparr>
          in if ch_size ch' > MaxRLPBytesPerChannel (ca_cfg ca) (l1_time now) then GoOn (resetChannel ca')
             else if fr_IsLast f then Complete ca' else GoOn ca')"
    show ?thesis
      using assms(2) i holds_AddFrame(8) [OF h]
      by (auto simp: Let_def assembler_inv_def resetChannel_def split: if_splits)
  qed
  then show "assembler_inv ca'" "ca_cfg ca' = ca_cfg ca" by auto
qed

lemma ingest_frame_Complete:
  assumes "assembler_inv ca" and "ingest_frame ca origin now f = Complete ca'"
  shows "\<exists>ch fs. ca_channel ca' = Some ch \<and> IsReady ch \<and> channel_frames (ch_id ch) fs
     \<and> Reader ch = Some (concat (map fr_Data fs))
     \<and> sum_list (map frameSize fs) \<le> MaxRLPBytesPerChannel (ca_cfg ca) (l1_time now)
     \<and> ca_cfg ca' = ca_cfg ca"
proof (rule ingest_frame_cases [OF assms(1), of origin now f])
  assume "ingest_frame ca origin now f = GoOn (open_first ca origin f)"
  with assms(2) show ?thesis by simp
next
  fix ch fs ch'
  assume h: "holds_frames ch fs" "AddFrame ch f origin = Inr ch'"
    and i: "ingest_frame ca origin now f =
         (let ca' = (open_first ca origin f)\<lparr>ca_channel := Some ch'\<rparr>
          in if ch_size ch' > MaxRLPBytesPerChannel (ca_cfg ca) (l1_time now) then GoOn (resetChannel ca')
             else if fr_IsLast f then Complete ca' else GoOn ca')"
  from assms(2) i have c: "fr_IsLast f" "\<not> ch_size ch' > MaxRLPBytesPerChannel (ca_cfg ca) (l1_time now)"
    "ca' = (open_first ca origin f)\<lparr>ca_channel := Some ch'\<rparr>"
    by (auto simp: Let_def split: if_splits)
  show ?thesis
    using holds_AddFrame_last [OF h c(1)] holds_AddFrame(4,7) [OF h] c(2,3)
    by (intro exI [of _ ch'] exI [of _ "fs @ [f]"]) auto
qed

section \<open>The loop\<close>

text \<open>The stage in front stops delivering frames at some point: it returns an error.\<close>

inductive frames_end :: "('s \<Rightarrow> (derive_error + frame) \<times> 's) \<Rightarrow> 's \<Rightarrow> bool" for next_frame where
  frames_stop: "next_frame s = (Inl err, s') \<Longrightarrow> frames_end next_frame s"
| frames_step: "next_frame s = (Inr f, s') \<Longrightarrow> frames_end next_frame s' \<Longrightarrow> frames_end next_frame s"

lemma assemble_returns: "frames_end next_frame p \<Longrightarrow> \<exists>r. assemble next_frame Origin origin ca p = Some r"
proof (induction arbitrary: ca rule: frames_end.induct)
  case (frames_stop s err s')
  then show ?case by (subst assemble.simps) simp
next
  case (frames_step s f s')
  then show ?case by (subst assemble.simps) (simp split: ingest.split)
qed

text \<open>A complete channel that respects the size limit, and its data.\<close>

definition assembled :: "config \<Rightarrow> l1_block_ref \<Rightarrow> bytes \<Rightarrow> bool" where
  "assembled c origin data \<longleftrightarrow>
     (\<exists>i fs. channel_frames i fs \<and> data = concat (map fr_Data fs)
        \<and> sum_list (map frameSize fs) \<le> MaxRLPBytesPerChannel c (l1_time origin))"

definition assemble_post ::
  "('s \<Rightarrow> (derive_error + frame) \<times> 's) \<Rightarrow> config \<Rightarrow> l1_block_ref \<Rightarrow> derive_error option \<times> channel_assembler \<times> 's \<Rightarrow> bool" where
  "assemble_post next_frame c now r =
     (case r of
        (Some err, ca', s') \<Rightarrow> assembler_inv ca' \<and> ca_cfg ca' = c \<and> (\<exists>s. next_frame s = (Inl err, s'))
      | (None, ca', s') \<Rightarrow> ca_cfg ca' = c \<and> (\<exists>ch data. ca_channel ca' = Some ch \<and> IsReady ch
            \<and> Reader ch = Some data \<and> assembled c now data))"

context frame_provider
begin

lemma assemble_sound:
  assumes "frames_end next_frame s" and "assembler_inv ca"
    and "assemble next_frame stage_origin origin ca s = Some r"
  shows "assemble_post next_frame (ca_cfg ca) (stage_origin s) r"
  using assms
proof (induction arbitrary: ca rule: frames_end.induct)
  case (frames_stop s err s')
  then show ?case by (subst (asm) assemble.simps) (auto simp: assemble_post_def)
next
  case (frames_step s f s')
  have o': "stage_origin s' = stage_origin s" by (rule frame_origin) (rule frames_step.hyps(1))
  show ?case
  proof (cases "ingest_frame ca origin (stage_origin s') f")
    case (GoOn ca')
    with frames_step.prems(2) frames_step.hyps(1)
    have r: "assemble next_frame stage_origin origin ca' s' = Some r"
      by (subst (asm) assemble.simps) simp
    note inv = ingest_frame_GoOn [OF frames_step.prems(1) GoOn]
    show ?thesis using frames_step.IH [OF inv(1) r] inv(2) o' by simp
  next
    case (Complete ca')
    with frames_step.prems(2) frames_step.hyps(1) have "r = (None, ca', s')"
      by (subst (asm) assemble.simps) simp
    with ingest_frame_Complete [OF frames_step.prems(1) Complete] o' show ?thesis
      by (auto simp: assemble_post_def assembled_def)
  qed
qed

lemma NextRawChannel_returns:
  assumes "frames_end next_frame s" and "assembler_inv ca"
  shows "\<exists>res ca' s'. assembler_NextRawChannel next_frame stage_origin ca s = Some (res, ca', s')
     \<and> assembler_inv ca' \<and> ca_cfg ca' = ca_cfg ca
     \<and> (\<forall>data. res = Inr data \<longrightarrow> assembled (ca_cfg ca) (stage_origin s) data \<and> ca_channel ca' = None)
     \<and> (\<forall>err. res = Inl err \<longrightarrow> (\<exists>t. next_frame t = (Inl err, s')))"
proof -
  define ca1 where "ca1 = (case ca_channel ca of
      Some ch \<Rightarrow> if channelTimedOut ca (stage_origin s) ch then resetChannel ca else ca | None \<Rightarrow> ca)"
  have inv: "assembler_inv ca1" "ca_cfg ca1 = ca_cfg ca"
    using assms(2) by (auto simp: ca1_def resetChannel_def assembler_inv_def split: option.split)
  have nr: "\<not> (case ca_channel ca1 of Some ch \<Rightarrow> IsReady ch | None \<Rightarrow> False)"
    using inv(1) by (auto simp: assembler_inv_def holds_not_ready split: option.split)
  obtain e ca2 s2 where r: "assemble next_frame stage_origin (stage_origin s) ca1 s = Some (e, ca2, s2)"
    using assemble_returns [OF assms(1)] by (metis prod_cases3)
  note post = assemble_sound [OF assms(1) inv(1) r, unfolded assemble_post_def inv(2)]
  have eq: "assembler_NextRawChannel next_frame stage_origin ca s =
      (case e of Some err \<Rightarrow> Some (Inl err, ca2, s2)
       | None \<Rightarrow> (case ca_channel ca2 of
            None \<Rightarrow> Some (Inl (NewCriticalError (Some (D_New ''unexpected non-ready channel''))), ca2, s2)
          | Some ch \<Rightarrow> if \<not> IsReady ch
              then Some (Inl (NewCriticalError (Some (D_New ''unexpected non-ready channel''))), ca2, s2)
              else map_option (\<lambda>data. (Inr data, resetChannel ca2, s2)) (Reader ch)))"
    using nr r by (simp add: assembler_NextRawChannel_def ca1_def [symmetric] Let_def split: option.split)
  show ?thesis
    using post by (cases e) (auto simp: eq resetChannel_def assembler_inv_def)
qed

end

section \<open>The assembler on the calldata of L1 blocks\<close>

text \<open>The stages in front of the assembler, put together: traversal, retrieval from calldata, frame
  queue. \<open>Sender\<close> and \<open>TxsByHash\<close> are the L1 signer and client.\<close>

abbreviation calldata_next ::
  "(l1_tx \<Rightarrow> address option) \<Rightarrow> (hash \<Rightarrow> fetch_error + l1_tx list) \<Rightarrow> data_source_config \<Rightarrow> address
     \<Rightarrow> frame_queue \<times> calldata_source l1_retrieval \<Rightarrow> (derive_error + frame) \<times> (frame_queue \<times> calldata_source l1_retrieval)" where
  "calldata_next Sender TxsByHash dsCfg addr \<equiv>
     fq_next (L1Retrieval_NextData (\<lambda>ref. Inr (NewCalldataSource Sender TxsByHash dsCfg ref addr))
       (CalldataSource_Next Sender TxsByHash)) L1Retrieval_Origin"

text \<open>How many more pieces of data a source holds.\<close>

definition pending ::
  "(l1_tx \<Rightarrow> address option) \<Rightarrow> (hash \<Rightarrow> fetch_error + l1_tx list) \<Rightarrow> calldata_source \<Rightarrow> nat" where
  "pending Sender TxsByHash ds =
     (if cds_open ds then length (cds_data ds)
      else case TxsByHash (l1_hash (cds_ref ds)) of
             Inl _ \<Rightarrow> 0
           | Inr txs \<Rightarrow> length (DataFromEVMTransactions Sender (cds_dsCfg ds) (cds_batcherAddr ds) txs))"

lemma CalldataSource_Next_pending:
  "CalldataSource_Next Sender TxsByHash ds = (Inr data, ds') \<Longrightarrow>
     pending Sender TxsByHash ds' < pending Sender TxsByHash ds"
  by (auto simp: CalldataSource_Next_def pending_def split: if_splits sum.splits fetch_error.splits list.splits)

definition retrieval_measures ::
  "(l1_tx \<Rightarrow> address option) \<Rightarrow> (hash \<Rightarrow> fetch_error + l1_tx list)
     \<Rightarrow> (frame_queue \<times> calldata_source l1_retrieval \<Rightarrow> nat) list" where
  "retrieval_measures Sender TxsByHash =
     [\<lambda>(fq, r). if l1t_done (l1r_prev r) then 0 else 1,
      \<lambda>(fq, r). case l1r_datas r of None \<Rightarrow> 0 | Some ds \<Rightarrow> pending Sender TxsByHash ds,
      \<lambda>(fq, r). length (fq_frames fq)]"

lemma L1Retrieval_NextData_decreases:
  assumes "L1Retrieval_NextData OpenData (CalldataSource_Next Sender TxsByHash) r = (Inr data, r')"
  shows "((fq', r'), (fq, r)) \<in> measures (retrieval_measures Sender TxsByHash)"
proof (cases "l1r_datas r")
  case (Some ds)
  with assms obtain ds' where "CalldataSource_Next Sender TxsByHash ds = (Inr data, ds')"
    "r' = r\<lparr>l1r_datas := Some ds'\<rparr>"
    by (auto simp: L1Retrieval_NextData_def fetch_data_def split: prod.splits sum.splits if_splits)
  with Some CalldataSource_Next_pending [of Sender TxsByHash ds data ds'] show ?thesis
    by (simp add: retrieval_measures_def)
next
  case None
  with assms have "\<not> l1t_done (l1r_prev r)" "l1t_done (l1r_prev r')"
    by (auto simp: L1Retrieval_NextData_def NextL1Block_def dest: fetch_data_prev
        split: prod.splits sum.splits if_splits)
  then show ?thesis by (simp add: retrieval_measures_def)
qed

lemma calldata_next_decreases:
  assumes "calldata_next Sender TxsByHash dsCfg addr s = (Inr f, s')"
  shows "(s', s) \<in> measures (retrieval_measures Sender TxsByHash)"
proof -
  obtain fq r fq' r' where s: "s = (fq, r)" "s' = (fq', r')" by (cases s, cases s')
  show ?thesis
  proof (cases "fq_frames fq")
    case (Cons g gs)
    with assms s show ?thesis by (auto simp: fq_next_def NextFrame_def retrieval_measures_def)
  next
    case Nil
    with assms s show ?thesis
      by (auto simp: fq_next_def NextFrame_def loadNextFrames_def Let_def
          split: prod.splits sum.splits option.splits list.splits
          intro: L1Retrieval_NextData_decreases)
  qed
qed

lemma calldata_frames_end: "frames_end (calldata_next Sender TxsByHash dsCfg addr) s"
proof (induction s rule: wf_induct_rule [OF wf_measures [of "retrieval_measures Sender TxsByHash"]])
  case (1 s)
  obtain res s' where n: "calldata_next Sender TxsByHash dsCfg addr s = (res, s')"
    by (cases "calldata_next Sender TxsByHash dsCfg addr s")
  show ?case
  proof (cases res)
    case (Inl err)
    with n show ?thesis by (auto intro: frames_stop)
  next
    case (Inr f)
    with n have step: "calldata_next Sender TxsByHash dsCfg addr s = (Inr f, s')" by simp
    show ?thesis by (rule frames_step [OF step 1 [OF calldata_next_decreases [OF step]]])
  qed
qed

text \<open>C11: on the calldata of L1 blocks, every call of the assembler's \<open>NextRawChannel\<close> returns: its
  ingestion loop ends for every L1 content. The data it returns is that of a complete channel whose
  frames arrived in order and respect the size limit, after which no channel is staged; an error it
  returns is one the frame queue gave. So neither of the two critical errors that the code reserves
  for a broken invariant occurs.\<close>
theorem assembler_NextRawChannel_returns:
  assumes "assembler_inv ca"
  shows "\<exists>res ca' s'. assembler_NextRawChannel (calldata_next Sender TxsByHash dsCfg addr)
       (FrameQueue_Origin L1Retrieval_Origin) ca s = Some (res, ca', s')
     \<and> assembler_inv ca'
     \<and> (\<forall>data. res = Inr data \<longrightarrow>
          assembled (ca_cfg ca) (FrameQueue_Origin L1Retrieval_Origin s) data \<and> ca_channel ca' = None)
     \<and> (\<forall>err. res = Inl err \<longrightarrow> (\<exists>t. calldata_next Sender TxsByHash dsCfg addr t = (Inl err, s')))"
  using l1_data.frames.NextRawChannel_returns [OF calldata_frames_end assms] by blast

theorem assembler_NextRawChannel_returns_witness:
  "\<exists>res ca' s'. assembler_NextRawChannel
       (calldata_next (\<lambda>tx. Some 0) (\<lambda>h. Inr [\<lparr>tx_Hash = 1, tx_Type = 2, tx_To = Some 0, tx_Data = example_data\<rparr>])
          \<lparr>dsc_batchInboxAddress = 0, dsc_altDAEnabled = False\<rparr> 0)
       (FrameQueue_Origin L1Retrieval_Origin) (NewChannelAssembler example_config)
       (NewFrameQueue example_config, NewL1Retrieval NewL1Traversal) = Some (res, ca', s')
     \<and> assembler_inv ca'"
  using assembler_NextRawChannel_returns [OF assembler_inv_New] by metis

section \<open>The mux\<close>

text \<open>The active stage of \<^verbatim>\<open>ChannelMux\<close>; \<open>None\<close> before the first \<open>Reset\<close>.\<close>

datatype channel_stage = BankStage channel_bank | AssemblerStage channel_assembler

record channel_mux =
  cm_cfg :: config
  cm_stage :: "channel_stage option"

definition NewChannelMux :: "config \<Rightarrow> channel_mux" where
  "NewChannelMux c = \<lparr>cm_cfg = c, cm_stage = None\<rparr>"

definition ChannelMux_Reset :: "channel_mux \<Rightarrow> derive_error \<times> channel_mux" where
  "ChannelMux_Reset m =
     (let cb = (case cm_stage m of Some (BankStage cb) \<Rightarrow> cb | _ \<Rightarrow> NewChannelBank (cm_cfg m));
          (err, cb) = bank_Reset cb
      in (err, m\<lparr>cm_stage := Some (BankStage cb)\<rparr>))"

text \<open>\<open>None\<close>: a panic, when the Holocene stage is already active or there is no stage.\<close>

definition ChannelMux_TransformHolocene :: "channel_mux \<Rightarrow> channel_mux option" where
  "ChannelMux_TransformHolocene m =
     (case cm_stage m of
        Some (BankStage cb) \<Rightarrow> Some (m\<lparr>cm_stage := Some (AssemblerStage (NewChannelAssembler (cm_cfg m)))\<rparr>)
      | Some (AssemblerStage ca) \<Rightarrow> None
      | None \<Rightarrow> None)"

definition ChannelMux_Transform :: "fork_name \<Rightarrow> channel_mux \<Rightarrow> channel_mux option" where
  "ChannelMux_Transform f m = (if f = Holocene then ChannelMux_TransformHolocene m else Some m)"

definition stage_inv :: "channel_stage \<Rightarrow> bool" where
  "stage_inv st = (case st of BankStage cb \<Rightarrow> bank_inv cb | AssemblerStage ca \<Rightarrow> assembler_inv ca)"

lemma ChannelMux_Reset_stage:
  "fst (ChannelMux_Reset m) = D_EOF \<and> (\<exists>cb. cm_stage (snd (ChannelMux_Reset m)) = Some (BankStage cb)
     \<and> bank_inv cb \<and> cb_channelQueue cb = [])"
  by (simp add: ChannelMux_Reset_def bank_Reset_def bank_inv_def gomap_simps Let_def)

lemma ChannelMux_Transform_after_Reset:
  "\<exists>m'. ChannelMux_Transform f (snd (ChannelMux_Reset m)) = Some m' \<and> list_all stage_inv (case cm_stage m' of None \<Rightarrow> [] | Some st \<Rightarrow> [st])"
  by (simp add: ChannelMux_Transform_def ChannelMux_TransformHolocene_def ChannelMux_Reset_def
      bank_Reset_def stage_inv_def bank_inv_def gomap_simps Let_def)

end
