(* ===== verification/Batches.thy ===== *)
theory Batches
  imports Rollup_Config
begin

text \<open>
  Batches and the rules that decide whether a batch may be applied on top of the safe head
  (\<^verbatim>\<open>rhs-node/rollup/derive/singular_batch.go\<close>, \<^verbatim>\<open>span_batch.go\<close>, \<^verbatim>\<open>batches.go\<close>,
  \<^verbatim>\<open>payload_util.go\<close>).

  The L2 client is the parameter \<open>l2\<close>: two functions of a block number, \<open>None\<close> when the fetch
  fails. A check that panics (an index out of range, a division by a zero block time) is
  \<open>None\<close>. The check of a span batch also returns the configuration, since
  \<open>PayloadToBlockRef\<close> writes to it.
\<close>

record singular_batch =
  sb_ParentHash :: hash
  sb_EpochNum :: u64
  sb_EpochHash :: hash
  sb_Timestamp :: u64
  sb_Transactions :: "bytes list"

record span_element =
  se_EpochNum :: u64
  se_Timestamp :: u64
  se_Transactions :: "bytes list"

text \<open>The part of \<^verbatim>\<open>SpanBatch\<close> that derivation reads. A 20-byte check is a \<open>160 word\<close>.\<close>

record span_batch =
  sp_ParentCheck :: "160 word"
  sp_L1OriginCheck :: "160 word"
  sp_Batches :: "span_element list"

datatype batch = Singular singular_batch | Span span_batch

datatype batch_validity = BatchDrop | BatchAccept | BatchUndecided | BatchFuture | BatchPast

record payload =
  pl_BlockHash :: hash
  pl_BlockNumber :: u64
  pl_ParentHash :: hash
  pl_Timestamp :: u64
  pl_Transactions :: "bytes list"

record l2_client =
  L2BlockRefByNumber :: "u64 \<Rightarrow> l2_block_ref option"
  PayloadByNumber :: "u64 \<Rightarrow> payload option"

definition batch_GetTimestamp :: "batch \<Rightarrow> u64 option" where
  "batch_GetTimestamp b =
     (case b of
        Singular s \<Rightarrow> Some (sb_Timestamp s)
      | Span s \<Rightarrow> (case sp_Batches s of [] \<Rightarrow> None | e # _ \<Rightarrow> Some (se_Timestamp e)))"

text \<open>The first 20 of the 32 bytes of a hash.\<close>

definition hash_prefix20 :: "hash \<Rightarrow> 160 word" where
  "hash_prefix20 h = of_be_bytes (take 20 (be_bytes 32 h))"

definition CheckOriginHash :: "span_batch \<Rightarrow> hash \<Rightarrow> bool" where
  "CheckOriginHash b h \<longleftrightarrow> sp_L1OriginCheck b = hash_prefix20 h"

definition CheckParentHash :: "span_batch \<Rightarrow> hash \<Rightarrow> bool" where
  "CheckParentHash b h \<longleftrightarrow> sp_ParentCheck b = hash_prefix20 h"

text \<open>\<open>types.DepositTxType\<close> and \<open>types.SetCodeTxType\<close> of the execution client.\<close>

definition DepositTx :: u8 where "DepositTx = 126"
definition SetCodeTx :: u8 where "SetCodeTx = 4"

section \<open>Singular batches\<close>

fun singular_txs_ok :: "bool \<Rightarrow> bytes list \<Rightarrow> bool" where
  "singular_txs_ok isIsthmus [] = True"
| "singular_txs_ok isIsthmus (tx # txs) =
     (case tx of
        [] \<Rightarrow> False
      | b # _ \<Rightarrow>
          if b = DepositTx then False
          else if \<not> isIsthmus \<and> b = SetCodeTx then False
          else singular_txs_ok isIsthmus txs)"

text \<open>The drift rule: \<open>Some v\<close> returns \<open>v\<close>, \<open>None\<close> goes on with the checks.\<close>

definition singular_drift ::
  "config \<Rightarrow> l1_block_ref list \<Rightarrow> l1_block_ref \<Rightarrow> l1_block_ref \<Rightarrow> singular_batch \<Rightarrow> batch_validity option" where
  "singular_drift cfg l1Blocks epoch batchOrigin batch =
     (if sb_Timestamp batch > l1_time batchOrigin + MaxSequencerDrift cfg (l1_time batchOrigin)
      then if sb_Transactions batch = []
           then if l1_number epoch = l1_number batchOrigin
                then case l1Blocks of
                       _ # nextOrigin # _ \<Rightarrow>
                         if sb_Timestamp batch \<ge> l1_time nextOrigin then Some BatchDrop else None
                     | _ \<Rightarrow> Some BatchUndecided
                else None
           else Some BatchDrop
      else None)"

definition checkSingularBatch ::
  "config \<Rightarrow> l1_block_ref list \<Rightarrow> l2_block_ref \<Rightarrow> singular_batch \<Rightarrow> l1_block_ref \<Rightarrow> batch_validity" where
  "checkSingularBatch cfg l1Blocks l2SafeHead batch l1InclusionBlock =
     (case l1Blocks of
        [] \<Rightarrow> BatchUndecided
      | epoch # later \<Rightarrow>
     let nextTimestamp = l2_time l2SafeHead + cfg_BlockTime cfg in
     if sb_Timestamp batch > nextTimestamp
     then if IsHolocene cfg (l1_time l1InclusionBlock) then BatchDrop else BatchFuture
     else if sb_Timestamp batch < nextTimestamp
     then if IsHolocene cfg (l1_time l1InclusionBlock) then BatchPast else BatchDrop
     else if sb_ParentHash batch \<noteq> l2_hash l2SafeHead then BatchDrop
     else if sb_EpochNum batch + cfg_SeqWindowSize cfg < l1_number l1InclusionBlock then BatchDrop
     else
       let origin = (if sb_EpochNum batch < l1_number epoch then Inl BatchDrop
                     else if sb_EpochNum batch = l1_number epoch then Inr epoch
                     else if sb_EpochNum batch = l1_number epoch + 1
                     then case later of [] \<Rightarrow> Inl BatchUndecided | o1 # _ \<Rightarrow> Inr o1
                     else Inl BatchDrop)
       in case origin of
            Inl v \<Rightarrow> v
          | Inr batchOrigin \<Rightarrow>
              if sb_EpochHash batch \<noteq> l1_hash batchOrigin then BatchDrop
              else if sb_Timestamp batch < l1_time batchOrigin then BatchDrop
              else case singular_drift cfg l1Blocks epoch batchOrigin batch of
                     Some v \<Rightarrow> v
                   | None \<Rightarrow>
                       if singular_txs_ok (IsIsthmus cfg (sb_Timestamp batch)) (sb_Transactions batch)
                       then BatchAccept else BatchDrop)"

section \<open>Span batches\<close>

text \<open>The loop over \<open>l1Blocks\<close> for the block of the last epoch.\<close>

fun origin_check :: "span_batch \<Rightarrow> u64 \<Rightarrow> l1_block_ref list \<Rightarrow> batch_validity" where
  "origin_check batch endEpochNum [] = BatchUndecided"
| "origin_check batch endEpochNum (b # bs) =
     (if l1_number b = endEpochNum
      then if CheckOriginHash batch (l1_hash b) then BatchAccept else BatchDrop
      else origin_check batch endEpochNum bs)"

text \<open>The parent of the span batch: the safe head, or the safe block before the first overlapped one.\<close>

definition span_parent ::
  "config \<Rightarrow> l2_block_ref \<Rightarrow> l2_client \<Rightarrow> u64 \<Rightarrow> (batch_validity + l2_block_ref) option" where
  "span_parent cfg l2SafeHead l2 timestamp =
     (if timestamp < l2_time l2SafeHead + cfg_BlockTime cfg
      then if timestamp > l2_time l2SafeHead then Some (Inl BatchDrop)
           else if cfg_BlockTime cfg = 0 then None
           else if (l2_time l2SafeHead - timestamp) mod cfg_BlockTime cfg \<noteq> 0 then Some (Inl BatchDrop)
           else let parentNum = l2_number l2SafeHead - (l2_time l2SafeHead - timestamp) div cfg_BlockTime cfg - 1
                in case L2BlockRefByNumber l2 parentNum of
                     None \<Rightarrow> Some (Inl BatchUndecided)
                   | Some parentBlock \<Rightarrow> Some (Inr parentBlock)
      else Some (Inr l2SafeHead))"

definition checkSpanBatchPrefix ::
  "config \<Rightarrow> l1_block_ref list \<Rightarrow> l2_block_ref \<Rightarrow> span_batch \<Rightarrow> l1_block_ref \<Rightarrow> l2_client
     \<Rightarrow> (batch_validity \<times> l2_block_ref) option" where
  "checkSpanBatchPrefix cfg l1Blocks l2SafeHead batch l1InclusionBlock l2 =
     (case l1Blocks of
        [] \<Rightarrow> Some (BatchUndecided, zero_l2)
      | epoch # later \<Rightarrow>
     (case sp_Batches batch of
        [] \<Rightarrow> None
      | first # _ \<Rightarrow>
     let startEpochNum = se_EpochNum first;
         origin = (if startEpochNum = l1_number epoch + 1
                   then case later of [] \<Rightarrow> Inl BatchUndecided | o1 # _ \<Rightarrow> Inr o1
                   else Inr epoch)
     in case origin of
          Inl v \<Rightarrow> Some (v, zero_l2)
        | Inr batchOrigin \<Rightarrow>
     if \<not> IsDelta cfg (l1_time batchOrigin) then Some (BatchDrop, zero_l2)
     else let nextTimestamp = l2_time l2SafeHead + cfg_BlockTime cfg in
     if se_Timestamp first > nextTimestamp
     then Some (if IsHolocene cfg (l1_time l1InclusionBlock) then BatchDrop else BatchFuture, zero_l2)
     else if se_Timestamp (last (sp_Batches batch)) < nextTimestamp
     then Some (if IsHolocene cfg (l1_time l1InclusionBlock) then BatchPast else BatchDrop, zero_l2)
     else case span_parent cfg l2SafeHead l2 (se_Timestamp first) of
            None \<Rightarrow> None
          | Some (Inl v) \<Rightarrow> Some (v, zero_l2)
          | Some (Inr parentBlock) \<Rightarrow>
     if \<not> CheckParentHash batch (l2_hash parentBlock) then Some (BatchDrop, parentBlock)
     else if startEpochNum + cfg_SeqWindowSize cfg < l1_number l1InclusionBlock then Some (BatchDrop, parentBlock)
     else if startEpochNum > bid_number (l2_origin parentBlock) + 1 then Some (BatchDrop, parentBlock)
     else case origin_check batch (se_EpochNum (last (sp_Batches batch))) l1Blocks of
            BatchAccept \<Rightarrow>
              if startEpochNum < bid_number (l2_origin parentBlock) then Some (BatchDrop, parentBlock)
              else Some (BatchAccept, parentBlock)
          | v \<Rightarrow> Some (v, parentBlock)))"

text \<open>The inner loop \<open>for j := originIdx; ...\<close>: index and block, if the epoch is among the blocks.\<close>

fun find_origin :: "u64 \<Rightarrow> nat \<Rightarrow> l1_block_ref list \<Rightarrow> (nat \<times> l1_block_ref) option" where
  "find_origin epochNum j [] = None"
| "find_origin epochNum j (b # bs) =
     (if epochNum = l1_number b then Some (j, b) else find_origin epochNum (Suc j) bs)"

fun span_txs_ok :: "bytes list \<Rightarrow> bool" where
  "span_txs_ok [] = True"
| "span_txs_ok (tx # txs) =
     (case tx of [] \<Rightarrow> False | b # _ \<Rightarrow> if b = DepositTx then False else span_txs_ok txs)"

text \<open>The drift rule for one block of the span.\<close>

definition span_drift ::
  "config \<Rightarrow> l1_block_ref list \<Rightarrow> nat \<Rightarrow> l1_block_ref \<Rightarrow> bool \<Rightarrow> span_element \<Rightarrow> batch_validity option" where
  "span_drift cfg l1Blocks originIdx l1Origin originAdvanced e =
     (if se_Timestamp e > l1_time l1Origin + MaxSequencerDrift cfg (l1_time l1Origin)
      then if se_Transactions e = []
           then if \<not> originAdvanced
                then if originIdx + 1 \<ge> length l1Blocks then Some BatchUndecided
                     else if se_Timestamp e \<ge> l1_time (l1Blocks ! (originIdx + 1)) then Some BatchDrop
                     else None
                else None
           else Some BatchDrop
      else None)"

text \<open>
  The loop over the blocks of the span. \<open>prev\<close> is the block before the current one, \<open>None\<close> for
  the first; an L1 origin that is not found stays the zero value. \<open>Some v\<close> returns \<open>v\<close>.
\<close>

fun span_blocks_loop ::
  "config \<Rightarrow> l1_block_ref list \<Rightarrow> u64 \<Rightarrow> nat \<Rightarrow> bool \<Rightarrow> span_element option \<Rightarrow> span_element list
     \<Rightarrow> batch_validity option" where
  "span_blocks_loop cfg l1Blocks safeTime originIdx originAdvanced prev [] = None"
| "span_blocks_loop cfg l1Blocks safeTime originIdx originAdvanced prev (e # es) =
     (if se_Timestamp e \<le> safeTime
      then span_blocks_loop cfg l1Blocks safeTime originIdx originAdvanced (Some e) es
      else
        let (originIdx, l1Origin) =
              (case find_origin (se_EpochNum e) originIdx (drop originIdx l1Blocks) of
                 None \<Rightarrow> (originIdx, zero_l1)
               | Some (j, b) \<Rightarrow> (j, b));
            originAdvanced =
              (case prev of None \<Rightarrow> originAdvanced | Some p \<Rightarrow> se_EpochNum e > se_EpochNum p)
        in if se_Timestamp e < l1_time l1Origin then Some BatchDrop
           else case span_drift cfg l1Blocks originIdx l1Origin originAdvanced e of
                  Some v \<Rightarrow> Some v
                | None \<Rightarrow>
                    if \<not> span_txs_ok (se_Transactions e) then Some BatchDrop
                    else span_blocks_loop cfg l1Blocks safeTime originIdx originAdvanced (Some e) es)"

text \<open>\<open>PayloadToBlockRef\<close>: it never fails, and never sets the L1 origin. At the genesis number it
  overwrites a genesis hash that differs.\<close>

definition PayloadToBlockRef :: "config \<Rightarrow> payload \<Rightarrow> l2_block_ref \<times> config" where
  "PayloadToBlockRef cfg pl =
     (let g = cfg_Genesis cfg;
          cfg = (if pl_BlockNumber pl = bid_number (gen_L2 g) \<and> pl_BlockHash pl \<noteq> bid_hash (gen_L2 g)
                 then cfg\<lparr>cfg_Genesis := g\<lparr>gen_L2 := (gen_L2 g)\<lparr>bid_hash := pl_BlockHash pl\<rparr>\<rparr>\<rparr>
                 else cfg)
      in (zero_l2\<lparr>l2_hash := pl_BlockHash pl, l2_number := pl_BlockNumber pl, l2_parent := pl_ParentHash pl,
                  l2_time := pl_Timestamp pl, l2_seq := 0\<rparr>, cfg))"

text \<open>The count of deposits among the safe block's transactions; an empty transaction panics.\<close>

fun depositCount :: "bytes list \<Rightarrow> nat option" where
  "depositCount [] = Some 0"
| "depositCount (tx # txs) =
     (case tx of
        [] \<Rightarrow> None
      | b # _ \<Rightarrow> map_option (\<lambda>n. if b = DepositTx then Suc n else n) (depositCount txs))"

text \<open>
  The loop over the overlapped safe blocks, with the indices \<open>i\<close> still to do. The outer option is
  a panic, \<open>Some (Some v, cfg)\<close> returns \<open>v\<close>.
\<close>

fun overlap_loop ::
  "l2_client \<Rightarrow> span_batch \<Rightarrow> u64 \<Rightarrow> nat list \<Rightarrow> config \<Rightarrow> (batch_validity option \<times> config) option" where
  "overlap_loop l2 batch parentNum [] cfg = Some (None, cfg)"
| "overlap_loop l2 batch parentNum (i # is) cfg =
     (case PayloadByNumber l2 (parentNum + of_nat i + 1) of
        None \<Rightarrow> Some (Some BatchUndecided, cfg)
      | Some safeBlock \<Rightarrow>
          if i \<ge> length (sp_Batches batch) then None
          else let safeBlockTxs = pl_Transactions safeBlock;
                   batchTxs = se_Transactions (sp_Batches batch ! i)
               in case depositCount safeBlockTxs of
                    None \<Rightarrow> None
                  | Some n \<Rightarrow>
                      if length safeBlockTxs - n \<noteq> length batchTxs then Some (Some BatchDrop, cfg)
                      else if drop n safeBlockTxs \<noteq> batchTxs then Some (Some BatchDrop, cfg)
                      else let (safeBlockRef, cfg) = PayloadToBlockRef cfg safeBlock
                           in if bid_number (l2_origin safeBlockRef) \<noteq> se_EpochNum (sp_Batches batch ! i)
                              then Some (Some BatchDrop, cfg)
                              else overlap_loop l2 batch parentNum is cfg)"

definition checkSpanBatch ::
  "config \<Rightarrow> l1_block_ref list \<Rightarrow> l2_block_ref \<Rightarrow> span_batch \<Rightarrow> l1_block_ref \<Rightarrow> l2_client
     \<Rightarrow> (batch_validity \<times> config) option" where
  "checkSpanBatch cfg l1Blocks l2SafeHead batch l1InclusionBlock l2 =
     (case checkSpanBatchPrefix cfg l1Blocks l2SafeHead batch l1InclusionBlock l2 of
        None \<Rightarrow> None
      | Some (prefixValidity, parentBlock) \<Rightarrow>
          if prefixValidity \<noteq> BatchAccept then Some (prefixValidity, cfg)
          else
            let startEpochNum = se_EpochNum (hd (sp_Batches batch));
                originAdvanced = (startEpochNum = bid_number (l2_origin parentBlock) + 1)
            in case span_blocks_loop cfg l1Blocks (l2_time l2SafeHead) 0 originAdvanced None (sp_Batches batch) of
                 Some v \<Rightarrow> Some (v, cfg)
               | None \<Rightarrow>
                   let parentNum = l2_number parentBlock;
                       nextTimestamp = l2_time l2SafeHead + cfg_BlockTime cfg
                   in if se_Timestamp (hd (sp_Batches batch)) < nextTimestamp
                      then case overlap_loop l2 batch parentNum
                                  [0..<unat (l2_number l2SafeHead - parentNum)] cfg of
                             None \<Rightarrow> None
                           | Some (Some v, cfg) \<Rightarrow> Some (v, cfg)
                           | Some (None, cfg) \<Rightarrow> Some (BatchAccept, cfg)
                      else Some (BatchAccept, cfg))"

record included_batch =
  ib_Batch :: batch
  ib_L1InclusionBlock :: l1_block_ref

definition CheckBatch ::
  "config \<Rightarrow> l1_block_ref list \<Rightarrow> l2_block_ref \<Rightarrow> included_batch \<Rightarrow> l2_client
     \<Rightarrow> (batch_validity \<times> config) option" where
  "CheckBatch cfg l1Blocks l2SafeHead batch l2 =
     (case ib_Batch batch of
        Singular s \<Rightarrow> Some (checkSingularBatch cfg l1Blocks l2SafeHead s (ib_L1InclusionBlock batch), cfg)
      | Span s \<Rightarrow> checkSpanBatch cfg l1Blocks l2SafeHead s (ib_L1InclusionBlock batch) l2)"

section \<open>From a span batch to singular batches\<close>

fun singular_batches_loop ::
  "l1_block_ref list \<Rightarrow> u64 \<Rightarrow> nat \<Rightarrow> span_element list \<Rightarrow> u64 + singular_batch list" where
  "singular_batches_loop l1Origins safeTime originIdx [] = Inr []"
| "singular_batches_loop l1Origins safeTime originIdx (e # es) =
     (if se_Timestamp e \<le> safeTime then singular_batches_loop l1Origins safeTime originIdx es
      else case find_origin (se_EpochNum e) originIdx (drop originIdx l1Origins) of
             None \<Rightarrow> Inl (se_EpochNum e)
           | Some (i, b) \<Rightarrow>
               (case singular_batches_loop l1Origins safeTime i es of
                  Inl err \<Rightarrow> Inl err
                | Inr rest \<Rightarrow>
                    Inr (\<lparr>sb_ParentHash = 0, sb_EpochNum = se_EpochNum e, sb_EpochHash = l1_hash b,
                          sb_Timestamp = se_Timestamp e, sb_Transactions = se_Transactions e\<rparr> # rest)))"

text \<open>\<open>Inl n\<close>: no L1 origin for epoch \<open>n\<close>.\<close>

definition GetSingularBatches :: "span_batch \<Rightarrow> l1_block_ref list \<Rightarrow> l2_block_ref \<Rightarrow> u64 + singular_batch list" where
  "GetSingularBatches b l1Origins l2SafeHead =
     singular_batches_loop l1Origins (l2_time l2SafeHead) 0 (sp_Batches b)"

section \<open>What an accepted singular batch guarantees\<close>

lemma singular_txs_ok_iff:
  "singular_txs_ok isthmus txs \<longleftrightarrow>
     (\<forall>tx \<in> set txs. tx \<noteq> [] \<and> hd tx \<noteq> DepositTx \<and> (isthmus \<or> hd tx \<noteq> SetCodeTx))"
  by (induction txs) (auto split: list.splits)

text \<open>C9: an accepted singular batch extends the chain. It is one block time after the safe head and
  names it as its parent; its L1 origin is the current epoch or the next one, by number and by hash,
  is not later than the batch, and the batch was included inside the sequencing window. A batch with
  transactions stays within the sequencer drift of its origin, and no transaction is empty or a
  deposit.\<close>
theorem checkSingularBatch_accept:
  assumes "checkSingularBatch cfg l1Blocks head b inclusion = BatchAccept"
  shows "\<exists>k origin. k < 2 \<and> k < length l1Blocks \<and> origin = l1Blocks ! k
     \<and> sb_Timestamp b = l2_time head + cfg_BlockTime cfg \<and> sb_ParentHash b = l2_hash head
     \<and> sb_EpochNum b = l1_number (hd l1Blocks) + of_nat k \<and> sb_EpochHash b = l1_hash origin
     \<and> l1_time origin \<le> sb_Timestamp b
     \<and> l1_number inclusion \<le> sb_EpochNum b + cfg_SeqWindowSize cfg
     \<and> (sb_Transactions b \<noteq> [] \<longrightarrow>
          sb_Timestamp b \<le> l1_time origin + MaxSequencerDrift cfg (l1_time origin))
     \<and> (\<forall>tx \<in> set (sb_Transactions b). tx \<noteq> [] \<and> hd tx \<noteq> DepositTx)"
proof -
  from assms obtain epoch later where l: "l1Blocks = epoch # later"
    by (cases l1Blocks) (auto simp: checkSingularBatch_def)
  note C = assms [unfolded checkSingularBatch_def l, simplified Let_def]
  have nd: "singular_drift cfg blocks e o' b \<noteq> Some BatchAccept" for blocks e o'
    by (simp add: singular_drift_def split: list.splits)
  have base: "sb_Timestamp b = l2_time head + cfg_BlockTime cfg" "sb_ParentHash b = l2_hash head"
    "l1_number inclusion \<le> sb_EpochNum b + cfg_SeqWindowSize cfg"
    using C by (auto split: if_splits)
  have rest: "\<exists>k origin. k < 2 \<and> k < length l1Blocks \<and> origin = l1Blocks ! k
      \<and> sb_EpochNum b = l1_number epoch + of_nat k \<and> sb_EpochHash b = l1_hash origin
      \<and> l1_time origin \<le> sb_Timestamp b \<and> singular_drift cfg l1Blocks epoch origin b = None
      \<and> singular_txs_ok (IsIsthmus cfg (sb_Timestamp b)) (sb_Transactions b)"
  proof (cases "sb_EpochNum b = l1_number epoch")
    case True
    then show ?thesis using C l nd
      by (intro exI [of _ 0] exI [of _ epoch]) (auto split: if_splits option.splits)
  next
    case False
    then show ?thesis using C l nd
      by (cases later; intro exI [of _ 1] exI [of _ "hd later"]) (auto split: if_splits option.splits)
  qed
  then obtain k origin where r: "k < 2" "k < length l1Blocks" "origin = l1Blocks ! k"
    "sb_EpochNum b = l1_number epoch + of_nat k" "sb_EpochHash b = l1_hash origin"
    "l1_time origin \<le> sb_Timestamp b" "singular_drift cfg l1Blocks epoch origin b = None"
    "singular_txs_ok (IsIsthmus cfg (sb_Timestamp b)) (sb_Transactions b)" by blast
  have "sb_Transactions b \<noteq> [] \<longrightarrow> sb_Timestamp b \<le> l1_time origin + MaxSequencerDrift cfg (l1_time origin)"
    using r(7) by (auto simp: singular_drift_def split: if_splits)
  with base r show ?thesis by (auto simp: l singular_txs_ok_iff)
qed

text \<open>C21: a verdict on a singular batch other than "undecided" does not change when more L1 blocks become
  known: a node that decides eagerly and one that waits for more of L1 decide alike.\<close>
theorem checkSingularBatch_eager:
  assumes "checkSingularBatch cfg l1Blocks head b inclusion \<noteq> BatchUndecided"
  shows "checkSingularBatch cfg (l1Blocks @ newer) head b inclusion
    = checkSingularBatch cfg l1Blocks head b inclusion"
proof -
  from assms obtain epoch later where l: "l1Blocks = epoch # later"
    by (cases l1Blocks) (auto simp: checkSingularBatch_def)
  show ?thesis
  proof (cases later)
    case (Cons o1 os)
    then have "singular_drift cfg (l1Blocks @ newer) epoch origin b = singular_drift cfg l1Blocks epoch origin b" for origin
      by (simp add: singular_drift_def l)
    with Cons show ?thesis by (simp add: checkSingularBatch_def l Let_def)
  next
    case Nil
    have "singular_drift cfg [epoch] epoch origin b \<noteq> Some BatchUndecided \<Longrightarrow>
        singular_drift cfg ([epoch] @ newer) epoch origin b = singular_drift cfg [epoch] epoch origin b" for origin
      by (auto simp: singular_drift_def split: if_splits)
    with Nil assms show ?thesis
      by (auto simp: checkSingularBatch_def l Let_def split: if_splits option.splits)
  qed
qed

definition example_singular :: singular_batch where
  "example_singular = \<lparr>sb_ParentHash = 7, sb_EpochNum = 20, sb_EpochHash = 33, sb_Timestamp = 1002,
     sb_Transactions = [[2, 9]]\<rparr>"

definition example_l1 :: l1_block_ref where
  "example_l1 = zero_l1\<lparr>l1_hash := 33, l1_number := 20, l1_time := 990\<rparr>"

definition example_head :: l2_block_ref where
  "example_head = zero_l2\<lparr>l2_hash := 7, l2_number := 10, l2_time := 1000, l2_origin := \<lparr>bid_hash = 33, bid_number = 20\<rparr>\<rparr>"

lemma example_singular_accept:
  "checkSingularBatch example_config [example_l1] example_head example_singular example_l1 = BatchAccept"
  by (simp add: checkSingularBatch_def singular_drift_def example_singular_def example_l1_def example_head_def
      example_config_def MaxSequencerDrift_def IsFeatMaxSequencerDriftConstant_def IsFjord_def IsIsthmus_def
      fork_active_def DepositTx_def SetCodeTx_def Let_def zero_l1_def)

theorem checkSingularBatch_accept_witness:
  "\<exists>k origin. k < 2 \<and> origin = [example_l1] ! k \<and> sb_EpochHash example_singular = l1_hash origin"
  using checkSingularBatch_accept [OF example_singular_accept] by blast

theorem checkSingularBatch_eager_witness:
  "checkSingularBatch example_config ([example_l1] @ [zero_l1]) example_head example_singular example_l1 = BatchAccept"
  using checkSingularBatch_eager [of example_config "[example_l1]" example_head example_singular example_l1 "[zero_l1]"]
  by (simp only: example_singular_accept) simp

section \<open>Verdicts under Holocene\<close>

lemma checkSingularBatch_holocene:
  assumes "IsHolocene cfg (l1_time inclusion)"
  shows "checkSingularBatch cfg l1Blocks head b inclusion \<noteq> BatchFuture"
proof -
  have "singular_drift cfg blocks e o' b \<noteq> Some BatchFuture" for blocks e o'
    by (simp add: singular_drift_def split: list.splits)
  with assms show ?thesis
    by (auto simp: checkSingularBatch_def Let_def split: list.splits option.splits)
qed

lemma origin_check_range: "origin_check batch n bs \<in> {BatchAccept, BatchDrop, BatchUndecided}"
  by (induction bs) auto

lemma span_parent_not_future: "span_parent cfg head l2 t \<noteq> Some (Inl BatchFuture)"
  by (auto simp: span_parent_def Let_def split: option.splits)

lemma checkSpanBatchPrefix_holocene:
  assumes "IsHolocene cfg (l1_time inclusion)"
  shows "checkSpanBatchPrefix cfg l1Blocks head b inclusion l2 \<noteq> Some (BatchFuture, p)"
proof -
  have "origin_check b n bs \<noteq> BatchFuture" for n bs
    using origin_check_range [of b n bs] by auto
  with assms span_parent_not_future show ?thesis
    by (auto simp: checkSpanBatchPrefix_def Let_def split: list.splits option.splits sum.splits if_splits
        batch_validity.splits)
qed

section \<open>Overlapping span batches\<close>

lemma PayloadToBlockRef_origin [simp]: "l2_origin (fst (PayloadToBlockRef cfg pl)) = zero_id"
  by (simp add: PayloadToBlockRef_def Let_def zero_l2_def)

lemma span_blocks_not_accept:
  "span_blocks_loop cfg l1Blocks safeTime idx adv prev es \<noteq> Some BatchAccept"
proof (induction es arbitrary: idx adv prev)
  case (Cons e es)
  have "span_drift cfg l1Blocks i o' a e \<noteq> Some BatchAccept" for i o' a
    by (simp add: span_drift_def)
  with Cons show ?case by (auto simp: Let_def split: option.splits prod.splits)
qed simp

lemma overlap_first:
  assumes "se_EpochNum (hd (sp_Batches b)) \<noteq> 0" and "sp_Batches b \<noteq> []"
  shows "overlap_loop l2 b parentNum (0 # is) cfg \<noteq> Some (None, cfg')"
    and "overlap_loop l2 b parentNum (0 # is) cfg \<noteq> Some (Some BatchAccept, cfg')"
proof -
  have "bid_number (l2_origin (fst (PayloadToBlockRef cfg pl))) \<noteq> se_EpochNum (sp_Batches b ! 0)" for pl
    using assms by (simp add: zero_id_def hd_conv_nth)
  then show "overlap_loop l2 b parentNum (0 # is) cfg \<noteq> Some (None, cfg')"
    "overlap_loop l2 b parentNum (0 # is) cfg \<noteq> Some (Some BatchAccept, cfg')"
    by (auto simp: Let_def case_prod_beta split: option.splits)
qed

lemma prefix_nonempty: "checkSpanBatchPrefix cfg l1Blocks head b inclusion l2 = Some (BatchAccept, p) \<Longrightarrow> sp_Batches b \<noteq> []"
  by (auto simp: checkSpanBatchPrefix_def split: list.splits)

text \<open>\<open>PayloadToBlockRef\<close> leaves the L1 origin of the safe block at the zero value, so a span batch that overlaps the
  safe chain is not accepted when its first block has an L1 origin number other than zero.\<close>

lemma checkSpanBatch_overlap_dropped:
  assumes "se_Timestamp (hd (sp_Batches b)) < l2_time head + cfg_BlockTime cfg"
    and "checkSpanBatchPrefix cfg l1Blocks head b inclusion l2 = Some (BatchAccept, parent)"
    and "l2_number parent \<noteq> l2_number head"
    and "se_EpochNum (hd (sp_Batches b)) \<noteq> 0"
  shows "checkSpanBatch cfg l1Blocks head b inclusion l2 \<noteq> Some (BatchAccept, cfg')"
proof -
  have "unat (l2_number head - l2_number parent) \<noteq> 0"
    using assms(3) by (simp add: unat_eq_0)
  then obtain n where n: "[0..<unat (l2_number head - l2_number parent)] = 0 # [1..<Suc n]"
    by (metis One_nat_def not0_implies_Suc upt_conv_Cons zero_less_Suc)
  note O = overlap_first [OF assms(4) prefix_nonempty [OF assms(2)], of l2 "l2_number parent" "[1..<Suc n]" cfg]
  show ?thesis
    using assms(1) O span_blocks_not_accept [of cfg l1Blocks "l2_time head" 0 _ None "sp_Batches b"]
    by (simp add: checkSpanBatch_def assms(2) n Let_def del: upt_Suc overlap_loop.simps split: option.splits)
qed

definition example_span :: span_batch where
  "example_span = \<lparr>sp_ParentCheck = hash_prefix20 5, sp_L1OriginCheck = hash_prefix20 33,
     sp_Batches = [\<lparr>se_EpochNum = 20, se_Timestamp = 1000, se_Transactions = []\<rparr>,
       \<lparr>se_EpochNum = 20, se_Timestamp = 1002, se_Transactions = [[2, 9]]\<rparr>]\<rparr>"

definition example_parent :: l2_block_ref where
  "example_parent = zero_l2\<lparr>l2_hash := 5, l2_number := 9, l2_time := 998, l2_origin := \<lparr>bid_hash = 33, bid_number = 20\<rparr>\<rparr>"

definition example_l2 :: l2_client where
  "example_l2 = \<lparr>L2BlockRefByNumber = (\<lambda>n. if n = 9 then Some example_parent else None), PayloadByNumber = (\<lambda>n. None)\<rparr>"

lemma example_span_prefix:
  "checkSpanBatchPrefix example_config [example_l1] example_head example_span example_l1 example_l2
    = Some (BatchAccept, example_parent)"
  by (simp add: checkSpanBatchPrefix_def span_parent_def CheckParentHash_def CheckOriginHash_def example_span_def
      example_parent_def example_l2_def example_l1_def example_head_def example_config_def IsDelta_def
      fork_active_def Let_def)

section \<open>A span batch becomes singular batches\<close>

lemma find_origin_sorted:
  assumes "sorted_wrt (<) (map l1_number bs)" and "b \<in> set bs" and "l1_number b = n"
  shows "\<exists>k < length bs. find_origin n j bs = Some (j + k, bs ! k) \<and> bs ! k = b"
  using assms
proof (induction bs arbitrary: j)
  case (Cons c bs)
  show ?case
  proof (cases "n = l1_number c")
    case True
    with Cons.prems have "b = c" by (auto dest: less_imp_neq)
    with True show ?thesis by auto
  next
    case False
    with Cons obtain k where "k < length bs" "find_origin n (Suc j) bs = Some (Suc j + k, bs ! k)" "bs ! k = b"
      by fastforce
    with False show ?thesis by (intro exI [of _ "Suc k"]) auto
  qed
qed simp

text \<open>The singular batch of an element whose epoch is the L1 block \<open>b\<close>.\<close>

definition singular_of :: "l1_block_ref list \<Rightarrow> span_element \<Rightarrow> singular_batch \<Rightarrow> bool" where
  "singular_of l1s e s \<longleftrightarrow>
     sb_ParentHash s = 0 \<and> sb_EpochNum s = se_EpochNum e \<and> sb_Timestamp s = se_Timestamp e
     \<and> sb_Transactions s = se_Transactions e
     \<and> list_ex (\<lambda>b. l1_number b = se_EpochNum e \<and> l1_hash b = sb_EpochHash s) l1s"

lemma singular_batches_loop_ok:
  assumes "sorted_wrt (<) (map l1_number l1s)"
    and "sorted (map se_EpochNum (filter (\<lambda>e. t < se_Timestamp e) es))"
    and "\<forall>e \<in> set es. t < se_Timestamp e \<longrightarrow> (\<exists>k \<ge> idx. k < length l1s \<and> l1_number (l1s ! k) = se_EpochNum e)"
  shows "\<exists>ss. singular_batches_loop l1s t idx es = Inr ss
     \<and> list_all2 (singular_of l1s) (filter (\<lambda>e. t < se_Timestamp e) es) ss"
  using assms
proof (induction es arbitrary: idx)
  case (Cons e es)
  show ?case
  proof (cases "se_Timestamp e \<le> t")
    case True
    then have "\<not> t < se_Timestamp e" by simp
    with Cons True show ?thesis by simp
  next
    case False
    then have te: "t < se_Timestamp e" by simp
    from Cons.prems(3) te obtain k where k: "idx \<le> k" "k < length l1s" "l1_number (l1s ! k) = se_EpochNum e" by auto
    have "sorted_wrt (<) (map l1_number (drop idx l1s))"
      using Cons.prems(1) by (simp add: drop_map [symmetric] sorted_wrt_drop)
    moreover have "l1s ! k \<in> set (drop idx l1s)"
      using k nth_mem [of "k - idx" "drop idx l1s"] by simp
    ultimately obtain m where m: "m < length (drop idx l1s)"
      "find_origin (se_EpochNum e) idx (drop idx l1s) = Some (idx + m, l1s ! k)" "drop idx l1s ! m = l1s ! k"
      using find_origin_sorted [of "drop idx l1s" "l1s ! k" "se_EpochNum e" idx] k(3) by auto
    have im: "idx + m < length l1s" "l1_number (l1s ! (idx + m)) = se_EpochNum e"
      using m k(3) by (auto simp: add.commute)
    have later: "\<forall>e' \<in> set es. t < se_Timestamp e' \<longrightarrow> (\<exists>k \<ge> idx + m. k < length l1s \<and> l1_number (l1s ! k) = se_EpochNum e')"
    proof (intro ballI impI)
      fix e' assume e': "e' \<in> set es" "t < se_Timestamp e'"
      with Cons.prems(3) obtain k' where k': "k' < length l1s" "l1_number (l1s ! k') = se_EpochNum e'" by auto
      have "se_EpochNum e \<le> se_EpochNum e'" using Cons.prems(2) te e' by auto
      then have "\<not> k' < idx + m"
        using sorted_wrt_nth_less [OF Cons.prems(1), of k' "idx + m"] k' im by auto
      with k' show "\<exists>k \<ge> idx + m. k < length l1s \<and> l1_number (l1s ! k) = se_EpochNum e'"
        by (intro exI [of _ k']) simp
    qed
    have "sorted (map se_EpochNum (filter (\<lambda>e. t < se_Timestamp e) es))"
      using Cons.prems(2) te by simp
    from Cons.IH [OF Cons.prems(1) this later] obtain ss where
      ss: "singular_batches_loop l1s t (idx + m) es = Inr ss"
        "list_all2 (singular_of l1s) (filter (\<lambda>e. t < se_Timestamp e) es) ss" by blast
    have "singular_of l1s e \<lparr>sb_ParentHash = 0, sb_EpochNum = se_EpochNum e, sb_EpochHash = l1_hash (l1s ! k),
        sb_Timestamp = se_Timestamp e, sb_Transactions = se_Transactions e\<rparr>"
      using k by (auto simp: singular_of_def list_ex_iff)
    with ss m(2) te False show ?thesis by simp
  qed
qed simp

text \<open>C27: when the L1 blocks have increasing numbers and contain the epochs of the blocks of the span after
  the safe head, in their order, \<open>GetSingularBatches\<close> succeeds. It returns one batch per block after
  the safe head, in order, with that block's time and transactions and the hash of the L1 block its
  epoch number stands for; it is not empty when the last block of the span is after the safe head, so
  the pop that follows does not panic.\<close>
theorem GetSingularBatches_ok:
  assumes "sorted_wrt (<) (map l1_number l1s)"
    and "sorted (map se_EpochNum (filter (\<lambda>e. l2_time head < se_Timestamp e) (sp_Batches b)))"
    and "\<forall>e \<in> set (sp_Batches b). l2_time head < se_Timestamp e \<longrightarrow> se_EpochNum e \<in> set (map l1_number l1s)"
  shows "\<exists>ss. GetSingularBatches b l1s head = Inr ss
     \<and> list_all2 (singular_of l1s) (filter (\<lambda>e. l2_time head < se_Timestamp e) (sp_Batches b)) ss
     \<and> (sp_Batches b \<noteq> [] \<and> l2_time head < se_Timestamp (last (sp_Batches b)) \<longrightarrow> ss \<noteq> [])"
proof -
  have "\<forall>e \<in> set (sp_Batches b). l2_time head < se_Timestamp e \<longrightarrow>
      (\<exists>k \<ge> 0. k < length l1s \<and> l1_number (l1s ! k) = se_EpochNum e)"
    using assms(3) by (fastforce simp: in_set_conv_nth)
  from singular_batches_loop_ok [OF assms(1,2) this] obtain ss where
    ss: "singular_batches_loop l1s (l2_time head) 0 (sp_Batches b) = Inr ss"
      "list_all2 (singular_of l1s) (filter (\<lambda>e. l2_time head < se_Timestamp e) (sp_Batches b)) ss" by blast
  moreover have "filter (\<lambda>e. l2_time head < se_Timestamp e) (sp_Batches b) \<noteq> []"
    if "sp_Batches b \<noteq> []" "l2_time head < se_Timestamp (last (sp_Batches b))"
    using that last_in_set by (auto simp: filter_empty_conv)
  ultimately show ?thesis by (auto simp: GetSingularBatches_def)
qed

theorem GetSingularBatches_ok_witness:
  "\<exists>ss. GetSingularBatches example_span [example_l1] example_head = Inr ss \<and> ss \<noteq> []"
proof -
  have "\<exists>ss. GetSingularBatches example_span [example_l1] example_head = Inr ss
     \<and> list_all2 (singular_of [example_l1]) (filter (\<lambda>e. l2_time example_head < se_Timestamp e) (sp_Batches example_span)) ss
     \<and> (sp_Batches example_span \<noteq> [] \<and> l2_time example_head < se_Timestamp (last (sp_Batches example_span)) \<longrightarrow> ss \<noteq> [])"
    by (rule GetSingularBatches_ok) (simp_all add: example_span_def example_head_def example_l1_def)
  then show ?thesis by (auto simp: example_span_def example_head_def)
qed

end
