(* ===== verification/Batch_Stages.thy ===== *)
theory Batch_Stages
  imports Batches Derive_Errors
begin

text \<open>
  The batch stages of the derivation pipeline: what they share
  (\<^verbatim>\<open>rhs-node/rollup/derive/base_batch_stage.go\<close>), the queue before Holocene
  (\<^verbatim>\<open>batch_queue.go\<close>), the stage from Holocene on (\<^verbatim>\<open>batch_stage.go\<close>) and the mux that swaps
  them (\<^verbatim>\<open>batch_mux.go\<close>).

  The stage in front is given by functions on its state \<open>'p\<close>: \<open>NextBatch\<close>, \<open>Origin\<close>,
  \<open>Flush\<close>. A panic is \<open>None\<close>.
\<close>

record batch_stage =
  bs_config :: config
  bs_origin :: l1_block_ref
  bs_l1Blocks :: "l1_block_ref list"
  bs_nextSpan :: "singular_batch list"

definition newBaseBatchStage :: "config \<Rightarrow> batch_stage" where
  "newBaseBatchStage c = \<lparr>bs_config = c, bs_origin = zero_l1, bs_l1Blocks = [], bs_nextSpan = []\<rparr>"

definition popNextBatch :: "l2_block_ref \<Rightarrow> 'a batch_stage_scheme \<Rightarrow> (singular_batch \<times> 'a batch_stage_scheme) option" where
  "popNextBatch parent bs =
     (case bs_nextSpan bs of
        [] \<Rightarrow> None
      | nextBatch # rest \<Rightarrow> Some (nextBatch\<lparr>sb_ParentHash := l2_hash parent\<rparr>, bs\<lparr>bs_nextSpan := rest\<rparr>))"

text \<open>The batch, and whether it is the last of its span; \<open>None\<close> when there is none that fits.\<close>

definition nextFromSpanBatch ::
  "l2_block_ref \<Rightarrow> 'a batch_stage_scheme \<Rightarrow> (singular_batch \<times> bool) option \<times> 'a batch_stage_scheme" where
  "nextFromSpanBatch parent bs =
     (case bs_nextSpan bs of
        [] \<Rightarrow> (None, bs)
      | b # rest \<Rightarrow>
          if sb_Timestamp b = l2_time parent + cfg_BlockTime (bs_config bs)
          then (Some (b\<lparr>sb_ParentHash := l2_hash parent\<rparr>, rest = []), bs\<lparr>bs_nextSpan := rest\<rparr>)
          else (None, bs\<lparr>bs_nextSpan := []\<rparr>))"

definition originBehind :: "l1_block_ref \<Rightarrow> l2_block_ref \<Rightarrow> bool" where
  "originBehind prevOrigin parent \<longleftrightarrow> l1_number prevOrigin < bid_number (l2_origin parent)"

definition updateOrigins :: "l1_block_ref \<Rightarrow> l2_block_ref \<Rightarrow> 'a batch_stage_scheme \<Rightarrow> 'a batch_stage_scheme" where
  "updateOrigins prevOrigin parent bs =
     (let bs = (if bs_origin bs \<noteq> prevOrigin
                then bs\<lparr>bs_origin := prevOrigin,
                        bs_l1Blocks := (if \<not> originBehind prevOrigin parent
                                        then bs_l1Blocks bs @ [prevOrigin] else [])\<rparr>
                else bs)
      in if bs_l1Blocks bs \<noteq> [] \<and> bid_number (l2_origin parent) > l1_number (hd (bs_l1Blocks bs))
         then case dropWhile (\<lambda>b. bid_number (l2_origin parent) \<noteq> l1_number b) (bs_l1Blocks bs) of
                [] \<Rightarrow> bs
              | l1Blocks \<Rightarrow> bs\<lparr>bs_l1Blocks := l1Blocks\<rparr>
         else bs)"

definition baseBatchStage_reset :: "l1_block_ref \<Rightarrow> 'a batch_stage_scheme \<Rightarrow> 'a batch_stage_scheme" where
  "baseBatchStage_reset base bs = bs\<lparr>bs_origin := base, bs_l1Blocks := [base], bs_nextSpan := []\<rparr>"

definition deriveNextEmptyBatch ::
  "bool \<Rightarrow> l2_block_ref \<Rightarrow> 'a batch_stage_scheme \<Rightarrow> ((derive_error + singular_batch) \<times> 'a batch_stage_scheme) option" where
  "deriveNextEmptyBatch outOfData parent bs =
     (case bs_l1Blocks bs of
        [] \<Rightarrow> None
      | epoch # later \<Rightarrow>
          let expiryEpoch = l1_number epoch + cfg_SeqWindowSize (bs_config bs);
              forceEmptyBatches = ((expiryEpoch = l1_number (bs_origin bs) \<and> outOfData)
                                   \<or> expiryEpoch < l1_number (bs_origin bs));
              firstOfEpoch = (l1_number epoch = bid_number (l2_origin parent) + 1);
              nextTimestamp = l2_time parent + cfg_BlockTime (bs_config bs)
          in if \<not> forceEmptyBatches then Some (Inl D_EOF, bs)
             else case later of
                    [] \<Rightarrow> Some (Inl D_EOF, bs)
                  | nextEpoch # _ \<Rightarrow>
                      if nextTimestamp < l1_time nextEpoch \<or> firstOfEpoch
                      then Some (Inr \<lparr>sb_ParentHash = l2_hash parent, sb_EpochNum = l1_number epoch,
                                      sb_EpochHash = l1_hash epoch, sb_Timestamp = nextTimestamp,
                                      sb_Transactions = []\<rparr>, bs)
                      else Some (Inl D_EOF, bs\<lparr>bs_l1Blocks := later\<rparr>))"

section \<open>The queue before Holocene\<close>

record batch_queue = batch_stage +
  bq_batches :: "included_batch list"

definition NewBatchQueue :: "config \<Rightarrow> batch_queue" where
  "NewBatchQueue c = \<lparr>bs_config = c, bs_origin = zero_l1, bs_l1Blocks = [], bs_nextSpan = [], bq_batches = []\<rparr>"

definition AddBatch :: "l2_client \<Rightarrow> batch \<Rightarrow> l2_block_ref \<Rightarrow> batch_queue \<Rightarrow> batch_queue option" where
  "AddBatch l2 b parent bq =
     (if bs_l1Blocks bq = [] then None
      else let data = \<lparr>ib_Batch = b, ib_L1InclusionBlock = bs_origin bq\<rparr>
           in case CheckBatch (bs_config bq) (bs_l1Blocks bq) parent data l2 of
                None \<Rightarrow> None
              | Some (validity, cfg) \<Rightarrow>
                  let bq = bq\<lparr>bs_config := cfg\<rparr>
                  in if validity = BatchDrop then Some bq
                     else Some (bq\<lparr>bq_batches := bq_batches bq @ [data]\<rparr>))"

text \<open>How the loop over the buffered batches ends.\<close>

datatype batch_search =
  Found included_batch "included_batch list"
  | Exhausted "included_batch list"
  | Waiting "included_batch list"
  | UnknownValidity

fun batch_loop ::
  "l2_client \<Rightarrow> l1_block_ref list \<Rightarrow> l2_block_ref \<Rightarrow> included_batch list \<Rightarrow> included_batch list \<Rightarrow> config
     \<Rightarrow> (batch_search \<times> config) option" where
  "batch_loop l2 l1Blocks parent remaining [] cfg = Some (Exhausted remaining, cfg)"
| "batch_loop l2 l1Blocks parent remaining (b # bs) cfg =
     (case CheckBatch cfg l1Blocks parent b l2 of
        None \<Rightarrow> None
      | Some (BatchFuture, cfg) \<Rightarrow> batch_loop l2 l1Blocks parent (remaining @ [b]) bs cfg
      | Some (BatchDrop, cfg) \<Rightarrow> batch_loop l2 l1Blocks parent remaining bs cfg
      | Some (BatchAccept, cfg) \<Rightarrow> Some (Found b (remaining @ bs), cfg)
      | Some (BatchUndecided, cfg) \<Rightarrow> Some (Waiting (remaining @ b # bs), cfg)
      | Some (BatchPast, cfg) \<Rightarrow> Some (UnknownValidity, cfg))"

definition deriveNextBatch ::
  "l2_client \<Rightarrow> bool \<Rightarrow> l2_block_ref \<Rightarrow> batch_queue \<Rightarrow> ((derive_error + batch) \<times> batch_queue) option" where
  "deriveNextBatch l2 outOfData parent bq =
     (case bs_l1Blocks bq of
        [] \<Rightarrow> Some (Inl (NewCriticalError (Some (D_New ''cannot derive next batch, no origin was prepared''))), bq)
      | epoch # _ \<Rightarrow>
          if l2_origin parent \<noteq> L1_ID epoch \<and> bid_number (l2_origin parent) \<noteq> l1_number epoch - 1
          then Some (Inl (NewResetError (Some (D_New ''buffered L1 chain epoch does not match safe head origin''))), bq)
          else case batch_loop l2 (bs_l1Blocks bq) parent [] (bq_batches bq) (bs_config bq) of
                 None \<Rightarrow> None
               | Some (search, cfg) \<Rightarrow>
                   let bq = bq\<lparr>bs_config := cfg\<rparr>
                   in case search of
                        UnknownValidity \<Rightarrow> Some (Inl (NewCriticalError (Some (D_New ''unknown batch validity type''))), bq)
                      | Waiting remaining \<Rightarrow> Some (Inl D_EOF, bq\<lparr>bq_batches := remaining\<rparr>)
                      | Found b remaining \<Rightarrow> Some (Inr (ib_Batch b), bq\<lparr>bq_batches := remaining\<rparr>)
                      | Exhausted remaining \<Rightarrow>
                          map_option (\<lambda>(res, bq). (map_sum id Singular res, bq))
                            (deriveNextEmptyBatch outOfData parent (bq\<lparr>bq_batches := remaining\<rparr>)))"

text \<open>The last part of \<open>NextBatch\<close>: a derived batch as a singular one, and whether it ends its span.\<close>

definition finish_batch ::
  "l2_block_ref \<Rightarrow> batch \<Rightarrow> 'a batch_stage_scheme
     \<Rightarrow> ((derive_error + singular_batch \<times> bool) \<times> 'a batch_stage_scheme) option" where
  "finish_batch parent b bs =
     (case b of
        Singular s \<Rightarrow> Some (Inr (s, bs_nextSpan bs = []), bs)
      | Span s \<Rightarrow>
          (case GetSingularBatches s (bs_l1Blocks bs) parent of
             Inl n \<Rightarrow> Some (Inl (NewCriticalError (Some (D_New ''unable to find L1 origin''))), bs)
           | Inr singularBatches \<Rightarrow>
               (case popNextBatch parent (bs\<lparr>bs_nextSpan := singularBatches\<rparr>) of
                  None \<Rightarrow> None
                | Some (nextBatch, bs) \<Rightarrow> Some (Inr (nextBatch, bs_nextSpan bs = []), bs))))"

definition BatchQueue_NextBatch ::
  "('p \<Rightarrow> (derive_error + batch) \<times> 'p) \<Rightarrow> ('p \<Rightarrow> l1_block_ref) \<Rightarrow> l2_client \<Rightarrow> l2_block_ref \<Rightarrow> batch_queue \<Rightarrow> 'p
     \<Rightarrow> ((derive_error + singular_batch \<times> bool) \<times> batch_queue \<times> 'p) option" where
  "BatchQueue_NextBatch NextBatch Origin l2 parent bq p =
     (case nextFromSpanBatch parent bq of
        (Some (b, isLast), bq) \<Rightarrow> Some (Inr (b, isLast), bq, p)
      | (None, bq) \<Rightarrow>
          let bq = updateOrigins (Origin p) parent bq;
              behind = originBehind (Origin p) parent;
              (res, p) = NextBatch p
          in case (case res of
                     Inl err \<Rightarrow> if err = D_EOF then Some (Inr (True, bq)) else Some (Inl err)
                   | Inr b \<Rightarrow> if \<not> behind then map_option (\<lambda>bq. Inr (False, bq)) (AddBatch l2 b parent bq)
                             else Some (Inr (False, bq))) of
               None \<Rightarrow> None
             | Some (Inl err) \<Rightarrow> Some (Inl err, bq, p)
             | Some (Inr (outOfData, bq)) \<Rightarrow>
                 if behind then Some (Inl (if outOfData then D_EOF else NotEnoughData), bq, p)
                 else case deriveNextBatch l2 outOfData parent bq of
                        None \<Rightarrow> None
                      | Some (Inl err, bq) \<Rightarrow>
                          Some (Inl (if err = D_EOF \<and> \<not> outOfData then NotEnoughData else err), bq, p)
                      | Some (Inr b, bq) \<Rightarrow>
                          map_option (\<lambda>(r, bq). (r, bq, p)) (finish_batch parent b bq))"

definition BatchQueue_Reset :: "batch_queue \<Rightarrow> derive_error \<times> batch_queue" where
  "BatchQueue_Reset bq = (D_EOF, bq\<lparr>bq_batches := []\<rparr>)"

definition BatchQueue_FlushChannel :: "batch_queue \<Rightarrow> batch_queue option" where
  "BatchQueue_FlushChannel bq = None"

section \<open>The stage from Holocene on\<close>

definition NewBatchStage :: "config \<Rightarrow> batch_stage" where
  "NewBatchStage c = newBaseBatchStage c"

definition BatchStage_Reset :: "batch_stage \<Rightarrow> derive_error \<times> batch_stage" where
  "BatchStage_Reset bs = (D_EOF, bs)"

definition BatchStage_FlushChannel :: "('p \<Rightarrow> 'p) \<Rightarrow> batch_stage \<Rightarrow> 'p \<Rightarrow> batch_stage \<times> 'p" where
  "BatchStage_FlushChannel Flush bs p = (bs\<lparr>bs_nextSpan := []\<rparr>, Flush p)"

definition impossible_future :: derive_error where
  "impossible_future = NewCriticalError (Some (D_New ''impossible future batch validity''))"

definition impossible_validity :: derive_error where
  "impossible_validity = NewCriticalError (Some (D_New ''impossible batch validity''))"

text \<open>The case of a span batch.\<close>

definition span_candidate ::
  "('p \<Rightarrow> 'p) \<Rightarrow> l2_client \<Rightarrow> l2_block_ref \<Rightarrow> batch_stage \<Rightarrow> 'p \<Rightarrow> span_batch
     \<Rightarrow> ((derive_error + singular_batch) \<times> batch_stage \<times> 'p) option" where
  "span_candidate Flush l2 parent bs p s =
     (case checkSpanBatchPrefix (bs_config bs) (bs_l1Blocks bs) parent s (bs_origin bs) l2 of
        None \<Rightarrow> None
      | Some (BatchPast, _) \<Rightarrow> Some (Inl NotEnoughData, bs, p)
      | Some (BatchDrop, _) \<Rightarrow>
          (let (bs, p) = BatchStage_FlushChannel Flush bs p in Some (Inl NotEnoughData, bs, p))
      | Some (BatchUndecided, _) \<Rightarrow> Some (Inl NotEnoughData, bs, p)
      | Some (BatchFuture, _) \<Rightarrow> Some (Inl impossible_future, bs, p)
      | Some (BatchAccept, _) \<Rightarrow>
          (case GetSingularBatches s (bs_l1Blocks bs) parent of
             Inl n \<Rightarrow> Some (Inl (NewCriticalError (Some (D_New ''unable to find L1 origin''))), bs, p)
           | Inr singularBatches \<Rightarrow>
               map_option (\<lambda>(b, bs). (Inr b, bs, p))
                 (popNextBatch parent (bs\<lparr>bs_nextSpan := singularBatches\<rparr>))))"

definition nextSingularBatchCandidate ::
  "('p \<Rightarrow> (derive_error + batch) \<times> 'p) \<Rightarrow> ('p \<Rightarrow> 'p) \<Rightarrow> l2_client \<Rightarrow> l2_block_ref \<Rightarrow> batch_stage \<Rightarrow> 'p
     \<Rightarrow> ((derive_error + singular_batch) \<times> batch_stage \<times> 'p) option" where
  "nextSingularBatchCandidate NextBatch Flush l2 parent bs p =
     (case nextFromSpanBatch parent bs of
        (Some (b, _), bs) \<Rightarrow> Some (Inr b, bs, p)
      | (None, bs) \<Rightarrow>
          (case NextBatch p of
             (Inl err, p) \<Rightarrow> Some (Inl err, bs, p)
           | (Inr (Singular s), p) \<Rightarrow> Some (Inr s, bs, p)
           | (Inr (Span s), p) \<Rightarrow> span_candidate Flush l2 parent bs p s))"

text \<open>The verdict on the candidate.\<close>

definition judge_candidate ::
  "('p \<Rightarrow> 'p) \<Rightarrow> l2_block_ref \<Rightarrow> singular_batch \<Rightarrow> batch_stage \<Rightarrow> 'p
     \<Rightarrow> (derive_error + singular_batch \<times> bool) \<times> batch_stage \<times> 'p" where
  "judge_candidate Flush parent b bs p =
     (case checkSingularBatch (bs_config bs) (bs_l1Blocks bs) parent b (bs_origin bs) of
        BatchAccept \<Rightarrow> (Inr (b, True), bs, p)
      | BatchPast \<Rightarrow> (Inl NotEnoughData, bs, p)
      | BatchDrop \<Rightarrow> (let (bs, p) = BatchStage_FlushChannel Flush bs p in (Inl NotEnoughData, bs, p))
      | BatchUndecided \<Rightarrow> (Inl NotEnoughData, bs, p)
      | BatchFuture \<Rightarrow> (Inl impossible_validity, bs, p))"

text \<open>\<open>NextBatch\<close> once the origins are in place.\<close>

definition stage_derive ::
  "('p \<Rightarrow> (derive_error + batch) \<times> 'p) \<Rightarrow> ('p \<Rightarrow> 'p) \<Rightarrow> l2_client \<Rightarrow> l2_block_ref
     \<Rightarrow> batch_stage \<Rightarrow> 'p \<Rightarrow> ((derive_error + singular_batch \<times> bool) \<times> batch_stage \<times> 'p) option" where
  "stage_derive NextBatch Flush l2 parent bs p =
     (case nextSingularBatchCandidate NextBatch Flush l2 parent bs p of
        None \<Rightarrow> None
      | Some (Inl err, bs, p) \<Rightarrow>
          if err = D_EOF
          then map_option (\<lambda>(res, bs). (map_sum id (\<lambda>b. (b, True)) res, bs, p))
                 (deriveNextEmptyBatch True parent bs)
          else Some (Inl err, bs, p)
      | Some (Inr b, bs, p) \<Rightarrow> Some (judge_candidate Flush parent b bs p))"

definition BatchStage_NextBatch ::
  "('p \<Rightarrow> (derive_error + batch) \<times> 'p) \<Rightarrow> ('p \<Rightarrow> l1_block_ref) \<Rightarrow> ('p \<Rightarrow> 'p) \<Rightarrow> l2_client \<Rightarrow> l2_block_ref
     \<Rightarrow> batch_stage \<Rightarrow> 'p \<Rightarrow> ((derive_error + singular_batch \<times> bool) \<times> batch_stage \<times> 'p) option" where
  "BatchStage_NextBatch NextBatch Origin Flush l2 parent bs p =
     (let bs = updateOrigins (Origin p) parent bs
      in if originBehind (Origin p) parent \<or> bid_number (l2_origin parent) = l1_number (bs_origin bs)
         then case NextBatch p of
                (Inl err, p) \<Rightarrow> Some (Inl err, bs, p)
              | (Inr _, p) \<Rightarrow> Some (Inl NotEnoughData, bs, p)
         else if length (bs_l1Blocks bs) < 2
         then Some (Inl (NewCriticalError (Some (D_New ''unexpected low buffered origin count''))), bs, p)
         else let epoch = hd (bs_l1Blocks bs)
              in if l2_origin parent \<noteq> L1_ID epoch \<and> bid_number (l2_origin parent) \<noteq> l1_number epoch - 1
                 then Some (Inl (NewResetError (Some (D_New ''buffered L1 chain epoch does not match safe head origin''))), bs, p)
                 else stage_derive NextBatch Flush l2 parent bs p)"

section \<open>The mux\<close>

datatype batch_provider = QueueProvider batch_queue | StageProvider batch_stage

record batch_mux =
  bm_cfg :: config
  bm_provider :: "batch_provider option"

definition NewBatchMux :: "config \<Rightarrow> batch_mux" where
  "NewBatchMux c = \<lparr>bm_cfg = c, bm_provider = None\<rparr>"

text \<open>The configuration is behind one pointer, so the mux sees what the active stage wrote to it.\<close>

definition mux_config :: "batch_mux \<Rightarrow> config" where
  "mux_config m =
     (case bm_provider m of
        None \<Rightarrow> bm_cfg m
      | Some (QueueProvider bq) \<Rightarrow> bs_config bq
      | Some (StageProvider bs) \<Rightarrow> bs_config bs)"

definition BatchMux_Reset :: "batch_mux \<Rightarrow> derive_error \<times> batch_mux" where
  "BatchMux_Reset m =
     (let bq = (case bm_provider m of Some (QueueProvider bq) \<Rightarrow> bq | _ \<Rightarrow> NewBatchQueue (mux_config m));
          (err, bq) = BatchQueue_Reset bq
      in (err, m\<lparr>bm_provider := Some (QueueProvider bq)\<rparr>))"

definition BatchMux_TransformHolocene :: "batch_mux \<Rightarrow> batch_mux option" where
  "BatchMux_TransformHolocene m =
     (case bm_provider m of
        Some (QueueProvider bq) \<Rightarrow>
          Some (m\<lparr>bm_provider := Some (StageProvider ((NewBatchStage (mux_config m))
                   \<lparr>bs_l1Blocks := bs_l1Blocks bq, bs_origin := bs_origin bq\<rparr>))\<rparr>)
      | Some (StageProvider bs) \<Rightarrow> None
      | None \<Rightarrow> None)"

definition BatchMux_Transform :: "fork_name \<Rightarrow> batch_mux \<Rightarrow> batch_mux option" where
  "BatchMux_Transform f m = (if f = Holocene then BatchMux_TransformHolocene m else Some m)"

section \<open>What the Holocene stage returns\<close>

lemma updateOrigins_fields [simp]:
  "bs_config (updateOrigins o1 parent bs) = bs_config bs"
  "bs_origin (updateOrigins o1 parent bs) = o1"
  "bs_nextSpan (updateOrigins o1 parent bs) = bs_nextSpan bs"
  by (auto simp: updateOrigins_def Let_def split: list.splits)

lemma nextFromSpanBatch_fields:
  assumes "nextFromSpanBatch parent bs = (r, bs')"
  shows "bs_config bs' = bs_config bs" "bs_origin bs' = bs_origin bs" "bs_l1Blocks bs' = bs_l1Blocks bs"
  using assms by (auto simp: nextFromSpanBatch_def split: list.splits if_splits)

lemma popNextBatch_fields:
  assumes "popNextBatch parent bs = Some (b, bs')"
  shows "bs_config bs' = bs_config bs \<and> bs_origin bs' = bs_origin bs \<and> bs_l1Blocks bs' = bs_l1Blocks bs"
  using assms by (auto simp: popNextBatch_def split: list.splits)

lemma span_candidate_fields:
  assumes "span_candidate Flush l2 parent bs p s = Some (r, bs', p')"
  shows "bs_config bs' = bs_config bs \<and> bs_origin bs' = bs_origin bs \<and> bs_l1Blocks bs' = bs_l1Blocks bs"
  using assms
  by (auto simp: span_candidate_def BatchStage_FlushChannel_def
      split: option.splits sum.splits batch_validity.splits dest!: popNextBatch_fields)

lemma candidate_fields:
  assumes "nextSingularBatchCandidate NextBatch Flush l2 parent bs p = Some (r, bs', p')"
  shows "bs_config bs' = bs_config bs \<and> bs_origin bs' = bs_origin bs \<and> bs_l1Blocks bs' = bs_l1Blocks bs"
proof -
  obtain r1 bs1 where n: "nextFromSpanBatch parent bs = (r1, bs1)" by (cases "nextFromSpanBatch parent bs")
  note F = nextFromSpanBatch_fields [OF n]
  show ?thesis
  proof (cases r1)
    case (Some x)
    with assms F n show ?thesis by (cases x) (auto simp: nextSingularBatchCandidate_def)
  next
    case None
    obtain rb q where q: "NextBatch p = (rb, q)" by (cases "NextBatch p")
    show ?thesis
    proof (cases rb)
      case (Inl err)
      with assms n None q F show ?thesis by (auto simp: nextSingularBatchCandidate_def)
    next
      case (Inr b)
      show ?thesis
      proof (cases b)
        case (Singular s)
        with assms n None q F Inr show ?thesis by (auto simp: nextSingularBatchCandidate_def)
      next
        case (Span s)
        with assms n None q Inr F have "span_candidate Flush l2 parent bs1 q s = Some (r, bs', p')"
          by (simp add: nextSingularBatchCandidate_def)
        with F show ?thesis by (auto dest: span_candidate_fields)
      qed
    qed
  qed
qed

lemma judge_fields:
  assumes "judge_candidate Flush parent b bs p = (r, bs', p')"
  shows "bs_config bs' = bs_config bs \<and> bs_origin bs' = bs_origin bs \<and> bs_l1Blocks bs' = bs_l1Blocks bs"
  using assms by (auto simp: judge_candidate_def BatchStage_FlushChannel_def split: batch_validity.splits)

text \<open>The batch that fills an expired sequencing window.\<close>

definition is_empty_batch :: "l2_block_ref \<Rightarrow> 'a batch_stage_scheme \<Rightarrow> singular_batch \<Rightarrow> bool" where
  "is_empty_batch parent bs b \<longleftrightarrow>
     sb_Transactions b = [] \<and> sb_ParentHash b = l2_hash parent
     \<and> sb_Timestamp b = l2_time parent + cfg_BlockTime (bs_config bs)
     \<and> bs_l1Blocks bs \<noteq> [] \<and> sb_EpochNum b = l1_number (hd (bs_l1Blocks bs))
     \<and> sb_EpochHash b = l1_hash (hd (bs_l1Blocks bs))
     \<and> sb_EpochNum b + cfg_SeqWindowSize (bs_config bs) \<le> l1_number (bs_origin bs)"

lemma deriveNextEmptyBatch_ok:
  assumes "deriveNextEmptyBatch outOfData parent bs = Some (Inr b, bs')"
  shows "bs' = bs \<and> is_empty_batch parent bs b"
  using assms
  by (auto simp: deriveNextEmptyBatch_def is_empty_batch_def Let_def split: list.splits if_splits)

lemma map_sum_Inr: "map_sum f g r = Inr y \<longleftrightarrow> (\<exists>x. r = Inr x \<and> y = g x)"
  by (cases r) auto

lemma judge_accept:
  assumes "judge_candidate Flush parent b bs p = (Inr (b', isLast), bs', p')"
  shows "isLast \<and> b' = b \<and> bs' = bs
     \<and> checkSingularBatch (bs_config bs) (bs_l1Blocks bs) parent b (bs_origin bs) = BatchAccept"
  using assms by (auto simp: judge_candidate_def BatchStage_FlushChannel_def split: batch_validity.splits)

lemma BatchStage_NextBatch_value:
  assumes "BatchStage_NextBatch NextBatch Origin Flush l2 parent bs p = Some (Inr x, bs', p')"
  shows "stage_derive NextBatch Flush l2 parent (updateOrigins (Origin p) parent bs) p = Some (Inr x, bs', p')"
  using assms by (simp add: BatchStage_NextBatch_def Let_def split: if_splits prod.splits sum.splits)

text \<open>C14: from Holocene on the batch stage returns only two kinds of batch on top of the safe head: one that
  passes all the checks against the L1 blocks the stage holds, or the empty batch of the oldest epoch
  once its sequencing window has expired. Both are reported as the last of their span.\<close>
theorem BatchStage_NextBatch_accepted:
  assumes "BatchStage_NextBatch NextBatch Origin Flush l2 parent bs p = Some (Inr (b, isLast), bs', p')"
  shows "isLast \<and> bs_origin bs' = Origin p
    \<and> (checkSingularBatch (bs_config bs) (bs_l1Blocks bs') parent b (Origin p) = BatchAccept
       \<or> is_empty_batch parent bs' b)"
proof -
  let ?u = "updateOrigins (Origin p) parent bs"
  from BatchStage_NextBatch_value [OF assms]
  have D: "stage_derive NextBatch Flush l2 parent ?u p = Some (Inr (b, isLast), bs', p')" by simp
  then obtain r c q where c: "nextSingularBatchCandidate NextBatch Flush l2 parent ?u p = Some (r, c, q)"
    by (auto simp: stage_derive_def split: option.splits)
  note F = candidate_fields [OF c]
  show ?thesis
  proof (cases r)
    case (Inl err)
    with D c have "deriveNextEmptyBatch True parent c = Some (Inr b, bs') \<and> isLast"
      by (auto simp: stage_derive_def map_sum_Inr split: if_splits)
    with F show ?thesis by (auto dest: deriveNextEmptyBatch_ok)
  next
    case (Inr b1)
    with D c have "judge_candidate Flush parent b1 c q = (Inr (b, isLast), bs', p')"
      by (simp add: stage_derive_def)
    with F show ?thesis by (auto dest!: judge_accept)
  qed
qed

section \<open>The Holocene stage neither panics nor meets an impossible verdict\<close>

lemma span_last_after_head:
  assumes "checkSpanBatchPrefix cfg l1Blocks head b inclusion l2 = Some (BatchAccept, parent)"
    and "l2_time head < l2_time head + cfg_BlockTime cfg"
  shows "sp_Batches b \<noteq> [] \<and> l2_time head < se_Timestamp (last (sp_Batches b))"
proof -
  have "\<not> se_Timestamp (last (sp_Batches b)) < l2_time head + cfg_BlockTime cfg"
    using assms(1)
    by (auto simp: checkSpanBatchPrefix_def Let_def split: list.splits sum.splits if_splits)
  with assms prefix_nonempty [OF assms(1)] show ?thesis by simp
qed

lemma singular_batches_nonempty:
  assumes "singular_batches_loop l1s t idx es = Inr ss" and "e \<in> set es" and "t < se_Timestamp e"
  shows "ss \<noteq> []"
  using assms
proof (induction l1s t idx es arbitrary: ss rule: singular_batches_loop.induct)
  case (2 l1s t idx e1 es)
  then show ?case by (auto split: if_splits option.splits sum.splits prod.splits)
qed simp

lemma span_parent_some:
  "cfg_BlockTime cfg \<noteq> 0 \<Longrightarrow> span_parent cfg head l2 t \<noteq> None"
  by (simp add: span_parent_def Let_def split: option.splits)

lemma checkSpanBatchPrefix_some:
  assumes "cfg_BlockTime cfg \<noteq> 0" and "sp_Batches b \<noteq> []"
  shows "checkSpanBatchPrefix cfg l1Blocks head b inclusion l2 \<noteq> None"
proof -
  obtain t where t: "span_parent cfg head l2 (se_Timestamp (hd (sp_Batches b))) = Some t"
    using span_parent_some [OF assms(1), of head l2 "se_Timestamp (hd (sp_Batches b))"] by blast
  obtain e es where "sp_Batches b = e # es" using assms(2) by (cases "sp_Batches b") auto
  note e = this
  show ?thesis
  proof (cases l1Blocks)
    case (Cons epoch later)
    with t e show ?thesis
      by (cases later; cases t; cases "origin_check b (se_EpochNum (last (e # es))) l1Blocks")
        (simp_all only: checkSpanBatchPrefix_def Let_def list.case list.sel option.case sum.case batch_validity.case
          if_distrib [of "\<lambda>x. x \<noteq> None"] option.distinct not_False_eq_True if_cancel
          if_distrib [of "case_sum _ _"] simp_thms)
  qed (simp add: checkSpanBatchPrefix_def)
qed

lemma critical_distinct [simp]:
  "NotEnoughData \<noteq> impossible_future" "NotEnoughData \<noteq> impossible_validity"
  "D_EOF \<noteq> impossible_future" "D_EOF \<noteq> impossible_validity"
  by (simp_all add: impossible_future_def impossible_validity_def NewCriticalError_def)

abbreviation impossible :: "derive_error \<Rightarrow> bool" where
  "impossible err \<equiv> err = impossible_future \<or> err = impossible_validity"

lemma span_candidate_total:
  assumes "cfg_BlockTime (bs_config bs) \<noteq> 0" and "sp_Batches s \<noteq> []"
    and "l2_time parent < l2_time parent + cfg_BlockTime (bs_config bs)"
    and "IsHolocene (bs_config bs) (l1_time (bs_origin bs))"
  shows "\<exists>r bs' p'. span_candidate Flush l2 parent bs p s = Some (r, bs', p') \<and> (\<forall>err. r = Inl err \<longrightarrow> \<not> impossible err)"
proof -
  obtain v q where v: "checkSpanBatchPrefix (bs_config bs) (bs_l1Blocks bs) parent s (bs_origin bs) l2 = Some (v, q)"
    using checkSpanBatchPrefix_some [OF assms(1,2), of "bs_l1Blocks bs" parent "bs_origin bs" l2] by auto
  have "v \<noteq> BatchFuture" using checkSpanBatchPrefix_holocene [OF assms(4)] v by auto
  moreover have "\<exists>r bs' p'. span_candidate Flush l2 parent bs p s = Some (r, bs', p') \<and> (\<forall>err. r = Inl err \<longrightarrow> \<not> impossible err)"
    if acc: "v = BatchAccept"
  proof (cases "GetSingularBatches s (bs_l1Blocks bs) parent")
    case (Inl n)
    with v acc show ?thesis
      by (simp add: span_candidate_def impossible_future_def impossible_validity_def NewCriticalError_def)
  next
    case (Inr ss)
    have "ss \<noteq> []"
      using span_last_after_head [OF v [unfolded acc] assms(3)] Inr [unfolded GetSingularBatches_def]
      by (intro singular_batches_nonempty [where e = "last (sp_Batches s)"]) auto
    with v acc Inr show ?thesis
      by (cases ss) (simp_all add: span_candidate_def popNextBatch_def)
  qed
  ultimately show ?thesis
    by (cases v) (simp_all add: v span_candidate_def BatchStage_FlushChannel_def)
qed

lemma candidate_total:
  assumes "cfg_BlockTime (bs_config bs) \<noteq> 0"
    and "l2_time parent < l2_time parent + cfg_BlockTime (bs_config bs)"
    and "IsHolocene (bs_config bs) (l1_time (bs_origin bs))"
    and "\<forall>s p'. NextBatch p = (Inr (Span s), p') \<longrightarrow> sp_Batches s \<noteq> []"
    and "\<forall>err p'. NextBatch p = (Inl err, p') \<longrightarrow> \<not> impossible err"
  shows "\<exists>r bs' p'. nextSingularBatchCandidate NextBatch Flush l2 parent bs p = Some (r, bs', p')
     \<and> (\<forall>err. r = Inl err \<longrightarrow> \<not> impossible err)"
proof -
  obtain r1 bs1 where n: "nextFromSpanBatch parent bs = (r1, bs1)" by (cases "nextFromSpanBatch parent bs")
  note F = nextFromSpanBatch_fields [OF n]
  obtain rb q where q: "NextBatch p = (rb, q)" by (cases "NextBatch p")
  show ?thesis
  proof (cases r1)
    case None
    show ?thesis
    proof (cases rb)
      case (Inl err)
      with n None q assms(5) show ?thesis by (simp add: nextSingularBatchCandidate_def)
    next
      case (Inr b)
      with n None q assms(4) span_candidate_total [of bs1 _ parent Flush l2 q] F assms(1,2,3) show ?thesis
        by (cases b) (simp_all add: nextSingularBatchCandidate_def)
    qed
  qed (auto simp: nextSingularBatchCandidate_def n)
qed

lemma judge_possible:
  assumes "IsHolocene (bs_config bs) (l1_time (bs_origin bs))"
  shows "fst (judge_candidate Flush parent b bs p) \<noteq> Inl impossible_future
     \<and> fst (judge_candidate Flush parent b bs p) \<noteq> Inl impossible_validity"
  using checkSingularBatch_holocene [OF assms, of "bs_l1Blocks bs" parent b]
  by (auto simp: judge_candidate_def BatchStage_FlushChannel_def split: batch_validity.split)

lemma deriveNextEmptyBatch_total:
  assumes "bs_l1Blocks bs \<noteq> []"
  shows "\<exists>r bs'. deriveNextEmptyBatch outOfData parent bs = Some (r, bs') \<and> (\<forall>err. r = Inl err \<longrightarrow> err = D_EOF)"
  using assms by (auto simp: deriveNextEmptyBatch_def Let_def split: list.split)

lemma stage_derive_total:
  assumes "cfg_BlockTime (bs_config bs) \<noteq> 0"
    and "l2_time parent < l2_time parent + cfg_BlockTime (bs_config bs)"
    and "IsHolocene (bs_config bs) (l1_time (bs_origin bs))" and "bs_l1Blocks bs \<noteq> []"
    and "\<forall>s p'. NextBatch p = (Inr (Span s), p') \<longrightarrow> sp_Batches s \<noteq> []"
    and "\<forall>err p'. NextBatch p = (Inl err, p') \<longrightarrow> \<not> impossible err"
  shows "\<exists>r bs' p'. stage_derive NextBatch Flush l2 parent bs p = Some (r, bs', p')
     \<and> r \<noteq> Inl impossible_future \<and> r \<noteq> Inl impossible_validity"
proof -
  obtain r c q where c: "nextSingularBatchCandidate NextBatch Flush l2 parent bs p = Some (r, c, q)"
    and r: "\<forall>err. r = Inl err \<longrightarrow> \<not> impossible err"
    using candidate_total [where NextBatch = NextBatch and p = p, OF assms(1,2,3,5,6)] by blast
  note F = candidate_fields [OF c]
  show ?thesis
  proof (cases r)
    case (Inl err)
    obtain re be where "deriveNextEmptyBatch True parent c = Some (re, be)" "\<forall>err. re = Inl err \<longrightarrow> err = D_EOF"
      using deriveNextEmptyBatch_total [of c True parent] F assms(4) by auto
    with Inl r c show ?thesis by (cases re) (auto simp: stage_derive_def)
  next
    case (Inr b)
    with c F assms(3) judge_possible [of c Flush parent b q] show ?thesis
      by (cases "judge_candidate Flush parent b c q") (auto simp: stage_derive_def)
  qed
qed

text \<open>C22: under Holocene \<open>NextBatch\<close> returns: it neither panics nor reports one of the two validities the
  code calls impossible. It needs a non-zero block time, a head time that does not wrap, and a stage
  in front whose span batches have at least one block.\<close>
theorem BatchStage_NextBatch_total:
  assumes "cfg_BlockTime (bs_config bs) \<noteq> 0"
    and "l2_time parent < l2_time parent + cfg_BlockTime (bs_config bs)"
    and "IsHolocene (bs_config bs) (l1_time (Origin p))"
    and "\<And>s p'. NextBatch p = (Inr (Span s), p') \<Longrightarrow> sp_Batches s \<noteq> []"
    and "\<And>err p'. NextBatch p = (Inl err, p') \<Longrightarrow> err \<noteq> impossible_future \<and> err \<noteq> impossible_validity"
  shows "\<exists>r bs' p'. BatchStage_NextBatch NextBatch Origin Flush l2 parent bs p = Some (r, bs', p')
     \<and> r \<noteq> Inl impossible_future \<and> r \<noteq> Inl impossible_validity"
proof -
  let ?u = "updateOrigins (Origin p) parent bs"
  have a4: "\<forall>s p'. NextBatch p = (Inr (Span s), p') \<longrightarrow> sp_Batches s \<noteq> []" using assms(4) by blast
  have a5: "\<forall>err p'. NextBatch p = (Inl err, p') \<longrightarrow> \<not> impossible err" using assms(5) by blast
  have d: "\<exists>r bs' p'. stage_derive NextBatch Flush l2 parent ?u p = Some (r, bs', p')
     \<and> r \<noteq> Inl impossible_future \<and> r \<noteq> Inl impossible_validity" if "\<not> length (bs_l1Blocks ?u) < 2"
  proof -
    from that have "bs_l1Blocks ?u \<noteq> []" by auto
    with assms(1,2,3) show ?thesis by (intro stage_derive_total [where NextBatch = NextBatch and p = p, OF _ _ _ _ a4 a5]) simp_all
  qed
  obtain rb q where q: "NextBatch p = (rb, q)" by (cases "NextBatch p")
  show ?thesis
    using d assms(5) q
    by (cases rb) (auto simp: BatchStage_NextBatch_def Let_def impossible_future_def impossible_validity_def
        NewCriticalError_def NewResetError_def)
qed

section \<open>The queue takes the first batch it can\<close>

text \<open>The rules read everything but the genesis of the configuration, which a check may write.\<close>

named_theorems genesis_irrelevant

lemma fork_genesis [genesis_irrelevant]:
  "IsDelta (cfg\<lparr>cfg_Genesis := g\<rparr>) = IsDelta cfg" "IsHolocene (cfg\<lparr>cfg_Genesis := g\<rparr>) = IsHolocene cfg"
  "IsIsthmus (cfg\<lparr>cfg_Genesis := g\<rparr>) = IsIsthmus cfg" "MaxSequencerDrift (cfg\<lparr>cfg_Genesis := g\<rparr>) = MaxSequencerDrift cfg"
  "cfg_BlockTime (cfg\<lparr>cfg_Genesis := g\<rparr>) = cfg_BlockTime cfg"
  "cfg_SeqWindowSize (cfg\<lparr>cfg_Genesis := g\<rparr>) = cfg_SeqWindowSize cfg"
  by (simp_all add: fun_eq_iff IsDelta_def IsHolocene_def IsIsthmus_def fork_active_def MaxSequencerDrift_def
      IsFeatMaxSequencerDriftConstant_def IsFjord_def)

lemma singular_genesis [genesis_irrelevant]:
  "checkSingularBatch (cfg\<lparr>cfg_Genesis := g\<rparr>) = checkSingularBatch cfg"
  unfolding fun_eq_iff checkSingularBatch_def singular_drift_def genesis_irrelevant by simp

lemma prefix_genesis [genesis_irrelevant]:
  "checkSpanBatchPrefix (cfg\<lparr>cfg_Genesis := g\<rparr>) = checkSpanBatchPrefix cfg"
  unfolding fun_eq_iff checkSpanBatchPrefix_def span_parent_def genesis_irrelevant by simp

lemma span_blocks_genesis [genesis_irrelevant]:
  "span_blocks_loop (cfg\<lparr>cfg_Genesis := g\<rparr>) l1 t i a prev es = span_blocks_loop cfg l1 t i a prev es"
proof (induction es arbitrary: i a prev)
  case (Cons e es)
  show ?case unfolding span_blocks_loop.simps span_drift_def genesis_irrelevant Cons by (rule refl)
qed simp

lemma PayloadToBlockRef_genesis:
  "\<exists>g. snd (PayloadToBlockRef cfg pl) = cfg\<lparr>cfg_Genesis := g\<rparr>"
  by (auto simp: PayloadToBlockRef_def Let_def intro: exI [of _ "cfg_Genesis cfg"])

lemma overlap_genesis:
  "map_option fst (overlap_loop l2 b n is (cfg\<lparr>cfg_Genesis := g\<rparr>)) = map_option fst (overlap_loop l2 b n is cfg)
   \<and> (\<forall>v cfg'. overlap_loop l2 b n is cfg = Some (v, cfg') \<longrightarrow> (\<exists>g. cfg' = cfg\<lparr>cfg_Genesis := g\<rparr>))"
proof (induction "is" arbitrary: cfg g)
  case Nil
  then show ?case by (auto intro: exI [of _ "cfg_Genesis cfg"])
next
  case (Cons i "is")
  show ?case
  proof (cases "PayloadByNumber l2 (n + of_nat i + 1)")
    case None
    then show ?thesis by (auto intro: exI [of _ "cfg_Genesis cfg"])
  next
    case (Some pl)
    obtain g1 where g1: "snd (PayloadToBlockRef cfg pl) = cfg\<lparr>cfg_Genesis := g1\<rparr>"
      using PayloadToBlockRef_genesis by blast
    obtain g2 where g2: "snd (PayloadToBlockRef (cfg\<lparr>cfg_Genesis := g\<rparr>) pl) = cfg\<lparr>cfg_Genesis := g2\<rparr>"
      using PayloadToBlockRef_genesis [of "cfg\<lparr>cfg_Genesis := g\<rparr>" pl] by auto
    have f: "fst (PayloadToBlockRef (cfg\<lparr>cfg_Genesis := g\<rparr>) pl) = fst (PayloadToBlockRef cfg pl)"
      by (simp add: PayloadToBlockRef_def Let_def)
    have eq: "map_option fst (overlap_loop l2 b n is (cfg\<lparr>cfg_Genesis := g2\<rparr>))
        = map_option fst (overlap_loop l2 b n is (cfg\<lparr>cfg_Genesis := g1\<rparr>))"
      using Cons [where cfg = cfg and g = g1] Cons [where cfg = cfg and g = g2] by simp
    have out: "\<exists>g. cfg' = cfg\<lparr>cfg_Genesis := g\<rparr>"
      if "overlap_loop l2 b n is (cfg\<lparr>cfg_Genesis := g1\<rparr>) = Some (v, cfg')" for v cfg'
      using Cons [where cfg = "cfg\<lparr>cfg_Genesis := g1\<rparr>"] that by fastforce
    have same: "\<exists>g. cfg = cfg\<lparr>cfg_Genesis := g\<rparr>" by (rule exI [of _ "cfg_Genesis cfg"]) simp
    show ?thesis
      using eq out same
      by (auto simp: Some Let_def case_prod_beta f g1 g2 split: option.split)
  qed
qed

lemma overlap_verdict:
  "map_option fst (case r of None \<Rightarrow> None | Some (Some v, cfg) \<Rightarrow> Some (v, cfg) | Some (None, cfg) \<Rightarrow> Some (BatchAccept, cfg))
     = map_option (\<lambda>v. case v of Some v \<Rightarrow> v | None \<Rightarrow> BatchAccept) (map_option fst r)"
  by (auto split: option.split)

lemma CheckBatch_genesis:
  "map_option fst (CheckBatch (cfg\<lparr>cfg_Genesis := g\<rparr>) l1 head b l2) = map_option fst (CheckBatch cfg l1 head b l2)"
  "CheckBatch cfg l1 head b l2 = Some (v, cfg') \<Longrightarrow> \<exists>g. cfg' = cfg\<lparr>cfg_Genesis := g\<rparr>"
proof -
  have same: "\<exists>g. cfg = cfg\<lparr>cfg_Genesis := g\<rparr>" by (rule exI [of _ "cfg_Genesis cfg"]) simp
  show "CheckBatch cfg l1 head b l2 = Some (v, cfg') \<Longrightarrow> \<exists>g. cfg' = cfg\<lparr>cfg_Genesis := g\<rparr>"
    using same overlap_genesis
    by (fastforce simp: CheckBatch_def checkSpanBatch_def Let_def
        split: batch.splits option.splits if_splits)
  show "map_option fst (CheckBatch (cfg\<lparr>cfg_Genesis := g\<rparr>) l1 head b l2) = map_option fst (CheckBatch cfg l1 head b l2)"
  proof (cases "ib_Batch b")
    case (Singular s)
    then show ?thesis by (simp add: CheckBatch_def genesis_irrelevant)
  next
    case (Span s)
    have "map_option fst (checkSpanBatch (cfg\<lparr>cfg_Genesis := g\<rparr>) l1 head s i l2) = map_option fst (checkSpanBatch cfg l1 head s i l2)" for i
      unfolding checkSpanBatch_def genesis_irrelevant Let_def
      by (simp add: overlap_verdict overlap_genesis [where cfg = cfg and g = g, THEN conjunct1] option.map_comp
          split: option.split)
    with Span show ?thesis by (simp add: CheckBatch_def)
  qed
qed

text \<open>The verdict on a buffered batch.\<close>

definition batch_verdict ::
  "config \<Rightarrow> l1_block_ref list \<Rightarrow> l2_block_ref \<Rightarrow> l2_client \<Rightarrow> included_batch \<Rightarrow> batch_validity option" where
  "batch_verdict cfg l1Blocks parent l2 b = map_option fst (CheckBatch cfg l1Blocks parent b l2)"

lemma batch_verdict_genesis:
  "CheckBatch cfg l1 head b l2 = Some (v, cfg') \<Longrightarrow> batch_verdict cfg' l1 head l2 = batch_verdict cfg l1 head l2"
  by (drule CheckBatch_genesis(2)) (auto simp: batch_verdict_def fun_eq_iff CheckBatch_genesis(1))

lemma batch_loop_first:
  assumes "\<And>b. b \<in> set pre \<Longrightarrow> batch_verdict cfg l1 head l2 b \<in> {Some BatchDrop, Some BatchFuture}"
    and "batch_verdict cfg l1 head l2 x = Some BatchAccept"
  shows "\<exists>cfg'. batch_loop l2 l1 head rem (pre @ x # post) cfg
     = Some (Found x (rem @ filter (\<lambda>b. batch_verdict cfg l1 head l2 b = Some BatchFuture) pre @ post), cfg')"
  using assms
proof (induction pre arbitrary: rem cfg)
  case Nil
  then show ?case by (auto simp: batch_verdict_def)
next
  case (Cons b pre)
  from Cons.prems(1) [of b] obtain v c where v: "CheckBatch cfg l1 head b l2 = Some (v, c)" "v = BatchDrop \<or> v = BatchFuture"
    by (auto simp: batch_verdict_def)
  have same: "batch_verdict c l1 head l2 = batch_verdict cfg l1 head l2" using v(1) by (rule batch_verdict_genesis)
  have b: "batch_verdict cfg l1 head l2 b = Some v" using v(1) by (simp add: batch_verdict_def)
  note IH = Cons.IH [where cfg = c, unfolded same, OF _ Cons.prems(2)]
  have "\<exists>cfg'. batch_loop l2 l1 head rem' (pre @ x # post) c
     = Some (Found x (rem' @ filter (\<lambda>b. batch_verdict cfg l1 head l2 b = Some BatchFuture) pre @ post), cfg')" for rem'
    by (rule IH) (use Cons.prems(1) in simp)
  from this [of rem] this [of "rem @ [b]"] v b show ?case by auto
qed

text \<open>C23: the queue is first-come first-served. If the batches seen before \<open>x\<close> are all to be dropped or
  kept for later and \<open>x\<close> is acceptable, then \<open>deriveNextBatch\<close> returns \<open>x\<close>; it keeps the
  future batches before it and everything after it, in order, and drops the rest.\<close>
theorem deriveNextBatch_first:
  assumes "bs_l1Blocks bq = epoch # later"
    and "l2_origin parent = L1_ID epoch \<or> bid_number (l2_origin parent) = l1_number epoch - 1"
    and "bq_batches bq = pre @ x # post"
    and "\<And>b. b \<in> set pre \<Longrightarrow>
           batch_verdict (bs_config bq) (bs_l1Blocks bq) parent l2 b \<in> {Some BatchDrop, Some BatchFuture}"
    and "batch_verdict (bs_config bq) (bs_l1Blocks bq) parent l2 x = Some BatchAccept"
  shows "\<exists>bq'. deriveNextBatch l2 outOfData parent bq = Some (Inr (ib_Batch x), bq')
     \<and> bq_batches bq' = filter (\<lambda>b. batch_verdict (bs_config bq) (bs_l1Blocks bq) parent l2 b = Some BatchFuture) pre @ post"
proof -
  obtain cfg' where "batch_loop l2 (bs_l1Blocks bq) parent [] (bq_batches bq) (bs_config bq)
     = Some (Found x (filter (\<lambda>b. batch_verdict (bs_config bq) (bs_l1Blocks bq) parent l2 b = Some BatchFuture) pre @ post), cfg')"
    using batch_loop_first [where rem = "[]" and post = post, OF assms(4) assms(5)] unfolding assms(3) append_Nil by blast
  with assms(1,2) show ?thesis by (auto simp: deriveNextBatch_def Let_def)
qed

section \<open>The L1 blocks the stages hold\<close>

definition l1_child :: "l1_block_ref \<Rightarrow> l1_block_ref \<Rightarrow> bool" where
  "l1_child a b \<longleftrightarrow> l1_number b = l1_number a + 1 \<and> l1_parent b = l1_hash a"

text \<open>\<open>l1Blocks\<close> holds consecutive L1 blocks, and ends with the origin of the stage.\<close>

definition origins_inv :: "'a batch_stage_scheme \<Rightarrow> bool" where
  "origins_inv bs \<longleftrightarrow> successively l1_child (bs_l1Blocks bs)
     \<and> (bs_l1Blocks bs \<noteq> [] \<longrightarrow> last (bs_l1Blocks bs) = bs_origin bs)"

lemma origins_inv_new [simp]: "origins_inv (NewBatchStage c)" "origins_inv (NewBatchQueue c)"
  by (simp_all add: origins_inv_def NewBatchStage_def newBaseBatchStage_def NewBatchQueue_def)

lemma trim_inv:
  assumes "origins_inv b" and "dropWhile P (bs_l1Blocks b) = y # ys"
  shows "origins_inv (b\<lparr>bs_l1Blocks := y # ys\<rparr>)"
proof -
  have B: "bs_l1Blocks b = takeWhile P (bs_l1Blocks b) @ y # ys"
    using takeWhile_dropWhile_id [of P "bs_l1Blocks b"] assms(2) by simp
  have s: "successively l1_child (bs_l1Blocks b)" and l: "last (bs_l1Blocks b) = bs_origin b"
    using assms B unfolding origins_inv_def by (auto simp: dropWhile_eq_Nil_conv)
  from s have "successively l1_child (y # ys)" by (subst (asm) B) (simp only: successively_append_iff)
  moreover from l have "last (y # ys) = bs_origin b" by (subst (asm) B) simp
  ultimately show ?thesis by (simp add: origins_inv_def)
qed

lemma updateOrigins_inv:
  assumes "origins_inv bs" and "o1 = bs_origin bs \<or> l1_child (bs_origin bs) o1"
  shows "origins_inv (updateOrigins o1 parent bs)"
proof -
  have trim: "origins_inv (if bs_l1Blocks b \<noteq> [] \<and> bid_number (l2_origin parent) > l1_number (hd (bs_l1Blocks b))
      then case dropWhile (\<lambda>b. bid_number (l2_origin parent) \<noteq> l1_number b) (bs_l1Blocks b) of
                [] \<Rightarrow> b | l1Blocks \<Rightarrow> b\<lparr>bs_l1Blocks := l1Blocks\<rparr> else b)" if "origins_inv b" for b :: "'a batch_stage_scheme"
    using that by (auto split: list.split intro: trim_inv)
  show ?thesis
    unfolding updateOrigins_def Let_def
    by (rule trim) (use assms in \<open>auto simp: origins_inv_def successively_append_iff\<close>)
qed

lemma deriveNextEmptyBatch_inv:
  assumes "deriveNextEmptyBatch ood parent bs = Some (r, bs')" and "origins_inv bs"
  shows "origins_inv bs' \<and> bs_origin bs' = bs_origin bs"
  using assms
  by (auto simp: deriveNextEmptyBatch_def origins_inv_def Let_def split: list.splits if_splits)

lemma stage_derive_inv:
  assumes "stage_derive NextBatch Flush l2 parent bs p = Some (r, bs', p')" and "origins_inv bs"
  shows "origins_inv bs' \<and> bs_origin bs' = bs_origin bs"
proof -
  obtain rc c q where c: "nextSingularBatchCandidate NextBatch Flush l2 parent bs p = Some (rc, c, q)"
    using assms(1) by (auto simp: stage_derive_def split: option.splits)
  from candidate_fields [OF c] assms(2) have i: "origins_inv c" "bs_origin c = bs_origin bs"
    by (auto simp: origins_inv_def)
  show ?thesis
  proof (cases rc)
    case (Inl err)
    with c i assms(1) show ?thesis
      by (auto simp: stage_derive_def split: if_splits dest: deriveNextEmptyBatch_inv)
  next
    case (Inr b)
    with c assms(1) have "judge_candidate Flush parent b c q = (r, bs', p')" by (simp add: stage_derive_def)
    from judge_fields [OF this] i show ?thesis by (auto simp: origins_inv_def)
  qed
qed

text \<open>C24: the L1 blocks of the Holocene stage always are consecutive and end at its origin, as the comment on
  the field says: \<open>NextBatch\<close> keeps this when the origin of the stage in front stays or moves to
  the next L1 block, whatever else happens in the call.\<close>
theorem BatchStage_NextBatch_origins:
  assumes "origins_inv bs"
    and "Origin p = bs_origin bs \<or> l1_child (bs_origin bs) (Origin p)"
    and "BatchStage_NextBatch NextBatch Origin Flush l2 parent bs p = Some (r, bs', p')"
  shows "origins_inv bs' \<and> bs_origin bs' = Origin p"
proof -
  let ?u = "updateOrigins (Origin p) parent bs"
  have u: "origins_inv ?u" using updateOrigins_inv [OF assms(1,2)] .
  show ?thesis
  proof (cases "bs' = ?u")
    case False
    with assms(3) have "stage_derive NextBatch Flush l2 parent ?u p = Some (r, bs', p')"
      by (simp add: BatchStage_NextBatch_def Let_def split: if_splits prod.splits sum.splits)
    from stage_derive_inv [OF this u] show ?thesis by simp
  qed (simp add: u)
qed

section \<open>Witnesses\<close>

definition example_stage :: batch_stage where
  "example_stage = (NewBatchStage (example_config\<lparr>cfg_HoloceneTime := Some 0\<rparr>))
     \<lparr>bs_origin := example_l1, bs_l1Blocks := [example_l1]\<rparr>"

text \<open>The L1 block after \<open>example_l1\<close>, and a stage in front that is there and holds one singular batch.\<close>

definition example_next :: l1_block_ref where
  "example_next = \<lparr>l1_hash = 34, l1_number = 21, l1_parent = 33, l1_time = 1002\<rparr>"

definition one_batch :: "bool \<Rightarrow> (derive_error + batch) \<times> bool" where
  "one_batch more_data = (if more_data then (Inr (Singular example_singular), False) else (Inl D_EOF, False))"

lemmas example_stage_defs = example_stage_def example_next_def one_batch_def example_l1_def example_head_def
  example_singular_def example_config_def NewBatchStage_def newBaseBatchStage_def zero_l1_def zero_l2_def

lemma example_stage_run:
  "\<exists>bs'. BatchStage_NextBatch one_batch (\<lambda>_. example_next) id example_l2 example_head example_stage True
     = Some (Inr (example_singular, True), bs', False)"
  by (simp add: BatchStage_NextBatch_def updateOrigins_def originBehind_def stage_derive_def
      nextSingularBatchCandidate_def nextFromSpanBatch_def judge_candidate_def checkSingularBatch_def
      singular_drift_def example_stage_defs MaxSequencerDrift_def IsFeatMaxSequencerDriftConstant_def IsFjord_def
      IsIsthmus_def fork_active_def DepositTx_def SetCodeTx_def L1_ID_def Let_def)

theorem BatchStage_NextBatch_accepted_witness:
  "\<exists>bs'. BatchStage_NextBatch one_batch (\<lambda>_. example_next) id example_l2 example_head example_stage True
       = Some (Inr (example_singular, True), bs', False)
     \<and> bs_origin bs' = example_next"
proof -
  obtain bs' where r: "BatchStage_NextBatch one_batch (\<lambda>_. example_next) id example_l2 example_head example_stage True
       = Some (Inr (example_singular, True), bs', False)"
    using example_stage_run by blast
  with BatchStage_NextBatch_accepted [OF r] show ?thesis by blast
qed

theorem BatchStage_NextBatch_total_witness:
  "\<exists>r bs' p'. BatchStage_NextBatch one_batch (\<lambda>_. example_next) id example_l2 example_head example_stage False
       = Some (r, bs', p')
     \<and> r \<noteq> Inl impossible_future \<and> r \<noteq> Inl impossible_validity"
  by (rule BatchStage_NextBatch_total)
    (auto simp: example_stage_defs IsHolocene_def fork_active_def)

theorem BatchStage_NextBatch_origins_witness:
  "\<exists>bs'. BatchStage_NextBatch one_batch (\<lambda>_. example_next) id example_l2 example_head example_stage True
       = Some (Inr (example_singular, True), bs', False)
     \<and> origins_inv bs'"
proof -
  have "origins_inv example_stage" "l1_child (bs_origin example_stage) example_next"
    by (simp_all add: origins_inv_def l1_child_def example_stage_defs)
  moreover obtain bs' where r: "BatchStage_NextBatch one_batch (\<lambda>_. example_next) id example_l2 example_head example_stage True
       = Some (Inr (example_singular, True), bs', False)"
    using example_stage_run by blast
  ultimately show ?thesis using BatchStage_NextBatch_origins [OF _ _ r] by blast
qed

definition example_queue :: batch_queue where
  "example_queue = (NewBatchQueue example_config)
     \<lparr>bs_origin := example_l1, bs_l1Blocks := [example_l1],
      bq_batches := [\<lparr>ib_Batch = Singular (example_singular\<lparr>sb_Timestamp := 1004\<rparr>), ib_L1InclusionBlock = example_l1\<rparr>,
                     \<lparr>ib_Batch = Singular example_singular, ib_L1InclusionBlock = example_l1\<rparr>]\<rparr>"

theorem deriveNextBatch_first_witness:
  "\<exists>bq'. deriveNextBatch example_l2 False example_head example_queue = Some (Inr (Singular example_singular), bq')"
proof -
  let ?x = "\<lparr>ib_Batch = Singular example_singular, ib_L1InclusionBlock = example_l1\<rparr>"
  let ?pre = "[\<lparr>ib_Batch = Singular (example_singular\<lparr>sb_Timestamp := 1004\<rparr>), ib_L1InclusionBlock = example_l1\<rparr>]"
  have "bs_l1Blocks example_queue = [example_l1]" "bq_batches example_queue = ?pre @ ?x # []"
    "bs_config example_queue = example_config" "l2_origin example_head = L1_ID example_l1"
    by (simp_all add: example_queue_def NewBatchQueue_def example_head_def example_l1_def L1_ID_def zero_l1_def zero_l2_def)
  moreover have "batch_verdict example_config [example_l1] example_head example_l2 ?x = Some BatchAccept"
    by (simp add: batch_verdict_def CheckBatch_def example_singular_accept)
  moreover have "batch_verdict example_config [example_l1] example_head example_l2 (hd ?pre) = Some BatchFuture"
    by (simp add: batch_verdict_def CheckBatch_def checkSingularBatch_def example_stage_defs IsHolocene_def fork_active_def)
  ultimately show ?thesis
    using deriveNextBatch_first [of example_queue example_l1 "[]" example_head ?pre ?x "[]" example_l2 False]
    by auto
qed

end
