(* ===== verification/Super_Types.thy ===== *)
theory Super_Types
  imports Eth_Types
begin

text \<open>
  The types and the errors the parts of the supervisor share
  (\<^verbatim>\<open>rhs-supervisor/supervisor/types/types.go\<close>, \<^verbatim>\<open>error.go\<close>).

  An error is the sentinel it wraps: \<open>errors.Is(err, E)\<close> is equality with \<open>E\<close>. \<open>S_EOF\<close> is
  \<open>io.EOF\<close>; \<open>S_New\<close> is an error that wraps none of the sentinels, with the start of its message.
\<close>

datatype super_error =
  ErrOutOfOrder
  | ErrDataCorruption
  | ErrNotExact
  | ErrSkipped
  | ErrFuture
  | ErrIneffective
  | ErrConflict
  | ErrAwaitReplacementBlock
  | ErrStop
  | ErrOutOfScope
  | ErrPreviousToFirst
  | ErrUnknownChain
  | ErrNoRPCSource
  | ErrUninitialized
  | S_EOF
  | S_New string

record executing_message =
  em_Chain :: u32
  em_BlockNum :: u64
  em_LogIdx :: u32
  em_Timestamp :: u64
  em_Hash :: hash

record block_seal =
  seal_Hash :: hash
  seal_Number :: u64
  seal_Timestamp :: u64

definition zero_seal :: block_seal where
  "zero_seal = \<lparr>seal_Hash = 0, seal_Number = 0, seal_Timestamp = 0\<rparr>"

definition BlockSealFromRef :: "block_ref \<Rightarrow> block_seal" where
  "BlockSealFromRef r = \<lparr>seal_Hash = l1_hash r, seal_Number = l1_number r, seal_Timestamp = l1_time r\<rparr>"

definition Seal_ID :: "block_seal \<Rightarrow> block_id" where
  "Seal_ID s = \<lparr>bid_hash = seal_Hash s, bid_number = seal_Number s\<rparr>"

record contains_query =
  cq_Timestamp :: u64
  cq_BlockNum :: u64
  cq_LogIdx :: u32
  cq_Checksum :: hash

record checksum_args =
  ca_BlockNumber :: u64
  ca_LogIndex :: u32
  ca_Timestamp :: u64
  ca_ChainID :: hash
  ca_LogHash :: hash

text \<open>\<open>crypto.Keccak256Hash\<close> is the parameter \<open>keccak\<close>.\<close>

definition Checksum :: "(bytes \<Rightarrow> hash) \<Rightarrow> checksum_args \<Rightarrow> hash" where
  "Checksum keccak args =
     (let idPacked = replicate 12 0 @ be_bytes 8 (ca_BlockNumber args) @ be_bytes 8 (ca_Timestamp args)
                       @ be_bytes 4 (ca_LogIndex args);
          idLogHash = keccak (be_bytes 32 (ca_LogHash args) @ idPacked);
          out = be_bytes 32 (keccak (be_bytes 32 idLogHash @ be_bytes 32 (ca_ChainID args)))
      in of_be_bytes (3 # tl out))"

definition checksum_Query :: "(bytes \<Rightarrow> hash) \<Rightarrow> checksum_args \<Rightarrow> contains_query" where
  "checksum_Query keccak args =
     \<lparr>cq_Timestamp = ca_Timestamp args, cq_BlockNum = ca_BlockNumber args, cq_LogIdx = ca_LogIndex args,
      cq_Checksum = Checksum keccak args\<rparr>"

text \<open>A slice \<open>data[i:j]\<close> of a fixed-size array.\<close>

definition slice :: "nat \<Rightarrow> nat \<Rightarrow> 'a list \<Rightarrow> 'a list" where
  "slice i j xs = take (j - i) (drop i xs)"

lemma slice_field: "length xs = i \<Longrightarrow> length ys = j - i \<Longrightarrow> slice i j (xs @ ys @ zs) = ys"
  by (simp add: slice_def)

end
