(* ===== verification/Log_Entries.thy ===== *)
theory Log_Entries
  imports Super_Types
begin

unbundle bit_operations_syntax

text \<open>
  The entries of the log database: \<^verbatim>\<open>rhs-supervisor/supervisor/backend/db/logs/entry.go\<close> and
  \<^verbatim>\<open>entries.go\<close>. An \<open>Entry\<close> is a list of \<open>EntrySize\<close> bytes. The types and the type flags
  are bytes, as in the source.
\<close>

definition EntrySize :: nat where "EntrySize = 34"

type_synonym log_entry = bytes

definition entry_Type :: "log_entry \<Rightarrow> u8" where
  "entry_Type e = hd e"

definition TypeSearchCheckpoint :: u8 where "TypeSearchCheckpoint = 0"
definition TypeCanonicalHash :: u8 where "TypeCanonicalHash = 1"
definition TypeInitiatingEvent :: u8 where "TypeInitiatingEvent = 2"
definition TypeExecutingLink :: u8 where "TypeExecutingLink = 3"
definition TypeExecutingCheck :: u8 where "TypeExecutingCheck = 4"
definition TypePadding :: u8 where "TypePadding = 5"

definition FlagSearchCheckpoint :: u8 where "FlagSearchCheckpoint = push_bit (unat TypeSearchCheckpoint) 1"
definition FlagCanonicalHash :: u8 where "FlagCanonicalHash = push_bit (unat TypeCanonicalHash) 1"
definition FlagInitiatingEvent :: u8 where "FlagInitiatingEvent = push_bit (unat TypeInitiatingEvent) 1"
definition FlagExecutingLink :: u8 where "FlagExecutingLink = push_bit (unat TypeExecutingLink) 1"
definition FlagExecutingCheck :: u8 where "FlagExecutingCheck = push_bit (unat TypeExecutingCheck) 1"
definition FlagPadding :: u8 where "FlagPadding = push_bit (unat TypePadding) 1"
definition FlagPadding2 :: u8 where "FlagPadding2 = push_bit 1 FlagPadding"

definition flag_Any :: "u8 \<Rightarrow> u8 \<Rightarrow> bool" where
  "flag_Any x v \<longleftrightarrow> x AND v \<noteq> 0"

definition flag_Add :: "u8 \<Rightarrow> u8 \<Rightarrow> u8" where
  "flag_Add v x = x OR v"

definition flag_Remove :: "u8 \<Rightarrow> u8 \<Rightarrow> u8" where
  "flag_Remove v x = x AND NOT v"

lemmas type_values = TypeSearchCheckpoint_def TypeCanonicalHash_def TypeInitiatingEvent_def
  TypeExecutingLink_def TypeExecutingCheck_def TypePadding_def

lemma flag_values:
  "FlagSearchCheckpoint = 1" "FlagCanonicalHash = 2" "FlagInitiatingEvent = 4" "FlagExecutingLink = 8"
  "FlagExecutingCheck = 16" "FlagPadding = 32" "FlagPadding2 = 64"
  by (simp_all add: FlagSearchCheckpoint_def FlagCanonicalHash_def FlagInitiatingEvent_def FlagExecutingLink_def
      FlagExecutingCheck_def FlagPadding_def FlagPadding2_def type_values)

section \<open>Search checkpoints\<close>

record search_checkpoint =
  cp_blockNum :: u64
  cp_logsSince :: u32
  cp_timestamp :: u64

definition newSearchCheckpointFromEntry :: "log_entry \<Rightarrow> super_error + search_checkpoint" where
  "newSearchCheckpointFromEntry data =
     (if entry_Type data \<noteq> TypeSearchCheckpoint then Inl ErrDataCorruption
      else Inr \<lparr>cp_blockNum = of_le_bytes (slice 1 9 data), cp_logsSince = of_le_bytes (slice 9 13 data),
                cp_timestamp = of_le_bytes (slice 13 21 data)\<rparr>)"

definition searchCheckpoint_encode :: "search_checkpoint \<Rightarrow> log_entry" where
  "searchCheckpoint_encode s =
     [TypeSearchCheckpoint] @ le_bytes 8 (cp_blockNum s) @ le_bytes 4 (cp_logsSince s)
       @ le_bytes 8 (cp_timestamp s) @ replicate 13 0"

section \<open>Canonical hashes\<close>

definition newCanonicalHashFromEntry :: "log_entry \<Rightarrow> super_error + hash" where
  "newCanonicalHashFromEntry data =
     (if entry_Type data \<noteq> TypeCanonicalHash then Inl ErrDataCorruption else Inr (of_be_bytes (slice 1 33 data)))"

definition canonicalHash_encode :: "hash \<Rightarrow> log_entry" where
  "canonicalHash_encode h = [TypeCanonicalHash] @ be_bytes 32 h @ [0]"

section \<open>Initiating events\<close>

definition eventFlagHasExecutingMessage :: u8 where "eventFlagHasExecutingMessage = 1"

record initiating_event =
  ie_hasExecMsg :: bool
  ie_logHash :: hash

definition newInitiatingEventFromEntry :: "log_entry \<Rightarrow> super_error + initiating_event" where
  "newInitiatingEventFromEntry data =
     (if entry_Type data \<noteq> TypeInitiatingEvent then Inl ErrDataCorruption
      else Inr \<lparr>ie_hasExecMsg = ((data ! 1) AND eventFlagHasExecutingMessage \<noteq> 0),
                ie_logHash = of_be_bytes (slice 2 34 data)\<rparr>)"

definition initiatingEvent_encode :: "initiating_event \<Rightarrow> log_entry" where
  "initiatingEvent_encode i =
     [TypeInitiatingEvent, if ie_hasExecMsg i then 0 OR eventFlagHasExecutingMessage else 0] @ be_bytes 32 (ie_logHash i)"

section \<open>Executing links\<close>

record executing_link =
  el_chain :: u32
  el_blockNum :: u64
  el_logIdx :: u32
  el_timestamp :: u64

definition newExecutingLink :: "executing_message \<Rightarrow> super_error + executing_link" where
  "newExecutingLink msg =
     (if em_LogIdx msg > push_bit 24 1 then Inl (S_New ''log idx is too large'')
      else Inr \<lparr>el_chain = em_Chain msg, el_blockNum = em_BlockNum msg, el_logIdx = em_LogIdx msg,
                el_timestamp = em_Timestamp msg\<rparr>)"

definition newExecutingLinkFromEntry :: "log_entry \<Rightarrow> super_error + executing_link" where
  "newExecutingLinkFromEntry data =
     (if entry_Type data \<noteq> TypeExecutingLink then Inl ErrDataCorruption
      else Inr \<lparr>el_chain = of_le_bytes (slice 1 5 data), el_blockNum = of_le_bytes (slice 5 13 data),
                el_logIdx = ucast (data ! 13) OR push_bit 8 (ucast (data ! 14)) OR push_bit 16 (ucast (data ! 15)),
                el_timestamp = of_le_bytes (slice 16 24 data)\<rparr>)"

definition executingLink_encode :: "executing_link \<Rightarrow> log_entry" where
  "executingLink_encode e =
     [TypeExecutingLink] @ le_bytes 4 (el_chain e) @ le_bytes 8 (el_blockNum e)
       @ [ucast (el_logIdx e), ucast (drop_bit 8 (el_logIdx e)), ucast (drop_bit 16 (el_logIdx e))]
       @ le_bytes 8 (el_timestamp e) @ replicate 10 0"

section \<open>Executing checks and padding\<close>

definition newExecutingCheckFromEntry :: "log_entry \<Rightarrow> super_error + hash" where
  "newExecutingCheckFromEntry data =
     (if entry_Type data \<noteq> TypeExecutingCheck then Inl ErrDataCorruption else Inr (of_be_bytes (slice 1 33 data)))"

definition executingCheck_encode :: "hash \<Rightarrow> log_entry" where
  "executingCheck_encode h = [TypeExecutingCheck] @ be_bytes 32 h @ [0]"

definition padding_encode :: log_entry where
  "padding_encode = [TypePadding] @ replicate 33 0"

section \<open>Round trips\<close>

lemma encode_type [simp]:
  "entry_Type (searchCheckpoint_encode s) = TypeSearchCheckpoint"
  "entry_Type (canonicalHash_encode h) = TypeCanonicalHash"
  "entry_Type (initiatingEvent_encode i) = TypeInitiatingEvent"
  "entry_Type (executingLink_encode e) = TypeExecutingLink"
  "entry_Type (executingCheck_encode h) = TypeExecutingCheck"
  "entry_Type padding_encode = TypePadding"
  by (simp_all add: entry_Type_def searchCheckpoint_encode_def canonicalHash_encode_def initiatingEvent_encode_def
      executingLink_encode_def executingCheck_encode_def padding_encode_def)

lemma encode_length [simp]:
  "length (searchCheckpoint_encode s) = EntrySize" "length (canonicalHash_encode h) = EntrySize"
  "length (initiatingEvent_encode i) = EntrySize" "length (executingLink_encode e) = EntrySize"
  "length (executingCheck_encode h) = EntrySize" "length padding_encode = EntrySize"
  by (simp_all add: EntrySize_def searchCheckpoint_encode_def canonicalHash_encode_def initiatingEvent_encode_def
      executingLink_encode_def executingCheck_encode_def padding_encode_def)

text \<open>The contract of an entry format: what was encoded decodes to itself.\<close>

locale entry_codec =
  fixes encode :: "'a \<Rightarrow> log_entry"
    and decode :: "log_entry \<Rightarrow> super_error + 'a"
    and kind :: u8
    and ok :: "'a \<Rightarrow> bool"
  assumes decode_encode: "ok x \<Longrightarrow> decode (encode x) = Inr x"
    and type_encode: "entry_Type (encode x) = kind"
    and decode_other: "entry_Type e \<noteq> kind \<Longrightarrow> decode e = Inl ErrDataCorruption"
begin

lemma encode_inject: "ok x \<Longrightarrow> ok y \<Longrightarrow> encode x = encode y \<longleftrightarrow> x = y"
  by (metis decode_encode sum.inject(2))

lemma decode_type: "decode e = Inr x \<Longrightarrow> entry_Type e = kind"
  by (metis decode_other sum.distinct(1))

end

interpretation checkpoint_codec: entry_codec searchCheckpoint_encode newSearchCheckpointFromEntry TypeSearchCheckpoint "\<lambda>_. True"
proof unfold_locales
  fix x :: search_checkpoint
  have "slice 1 9 (searchCheckpoint_encode x) = le_bytes 8 (cp_blockNum x)"
    "slice 9 13 (searchCheckpoint_encode x) = le_bytes 4 (cp_logsSince x)"
    "slice 13 21 (searchCheckpoint_encode x) = le_bytes 8 (cp_timestamp x)"
    by (simp_all add: slice_def searchCheckpoint_encode_def)
  then show "newSearchCheckpointFromEntry (searchCheckpoint_encode x) = Inr x"
    by (simp add: newSearchCheckpointFromEntry_def codec_simps)
qed (simp_all add: newSearchCheckpointFromEntry_def)

interpretation canonical_codec: entry_codec canonicalHash_encode newCanonicalHashFromEntry TypeCanonicalHash "\<lambda>_. True"
  by unfold_locales
    (simp_all add: newCanonicalHashFromEntry_def slice_def canonicalHash_encode_def codec_simps entry_Type_def)

interpretation check_codec: entry_codec executingCheck_encode newExecutingCheckFromEntry TypeExecutingCheck "\<lambda>_. True"
  by unfold_locales
    (simp_all add: newExecutingCheckFromEntry_def slice_def executingCheck_encode_def codec_simps entry_Type_def)

interpretation event_codec: entry_codec initiatingEvent_encode newInitiatingEventFromEntry TypeInitiatingEvent "\<lambda>_. True"
  by unfold_locales
    (simp_all add: newInitiatingEventFromEntry_def slice_def initiatingEvent_encode_def eventFlagHasExecutingMessage_def
      codec_simps entry_Type_def)

lemma three_bytes:
  fixes w :: u32
  assumes "w < push_bit 24 1"
  shows "ucast (ucast w :: u8) OR push_bit 8 (ucast (ucast (drop_bit 8 w) :: u8))
     OR push_bit 16 (ucast (ucast (drop_bit 16 w) :: u8)) = w"
proof -
  have "take_bit 24 w = w"
  proof -
    have "unat w < 2 ^ 24" using assms by (simp add: word_less_nat_alt push_bit_eq_mult)
    then show ?thesis by (simp add: take_bit_eq_mod word_unat_eq_iff unat_mod_distrib)
  qed
  then have high: "\<not> bit w n" if "24 \<le> n" for n using that by (metis bit_take_bit_iff linorder_not_less)
  show ?thesis
  proof (rule bit_word_eqI)
    fix n
    assume "n < LENGTH(32)"
    consider "n < 8" | "8 \<le> n" "n < 16" | "16 \<le> n" "n < 24" | "24 \<le> n" by linarith
    then show "bit (ucast (ucast w :: u8) OR push_bit 8 (ucast (ucast (drop_bit 8 w) :: u8))
       OR push_bit 16 (ucast (ucast (drop_bit 16 w) :: u8)) :: u32) n = bit w n"
      using \<open>n < LENGTH(32)\<close> high by cases (auto simp: bit_simps)
  qed
qed

interpretation link_codec: entry_codec executingLink_encode newExecutingLinkFromEntry TypeExecutingLink
  "\<lambda>e. el_logIdx e < push_bit 24 1"
proof unfold_locales
  fix x :: executing_link
  assume ok: "el_logIdx x < push_bit 24 1"
  let ?d = "executingLink_encode x"
  have "slice 1 5 ?d = le_bytes 4 (el_chain x)" "slice 5 13 ?d = le_bytes 8 (el_blockNum x)"
    "slice 16 24 ?d = le_bytes 8 (el_timestamp x)"
    by (simp_all add: slice_def executingLink_encode_def)
  moreover have "?d ! 13 = ucast (el_logIdx x)" "?d ! 14 = ucast (drop_bit 8 (el_logIdx x))"
    "?d ! 15 = ucast (drop_bit 16 (el_logIdx x))"
    by (simp_all add: executingLink_encode_def nth_append)
  ultimately show "newExecutingLinkFromEntry ?d = Inr x"
    by (simp add: newExecutingLinkFromEntry_def codec_simps three_bytes [OF ok])
qed (simp_all add: newExecutingLinkFromEntry_def)

text \<open>The one log index that passes the check of \<open>newExecutingLink\<close> and does not fit the three bytes.\<close>

lemma link_index_lost:
  assumes "newExecutingLink msg = Inr l" and "em_LogIdx msg = push_bit 24 1"
  shows "newExecutingLinkFromEntry (executingLink_encode l) = Inr (l\<lparr>el_logIdx := 0\<rparr>)" and "el_logIdx l \<noteq> 0"
proof -
  from assms have i: "el_logIdx l = push_bit 24 1" by (auto simp: newExecutingLink_def)
  then show "el_logIdx l \<noteq> 0" by simp
  let ?d = "executingLink_encode l"
  have "slice 1 5 ?d = le_bytes 4 (el_chain l)" "slice 5 13 ?d = le_bytes 8 (el_blockNum l)"
    "slice 16 24 ?d = le_bytes 8 (el_timestamp l)"
    by (simp_all add: slice_def executingLink_encode_def)
  moreover have "?d ! 13 = 0" "?d ! 14 = 0" "?d ! 15 = 0"
    by (simp_all add: executingLink_encode_def nth_append i)
  ultimately show "newExecutingLinkFromEntry ?d = Inr (l\<lparr>el_logIdx := 0\<rparr>)"
    by (simp add: newExecutingLinkFromEntry_def codec_simps)
qed

end
