(* ===== verification/Log_Context.thy ===== *)
theory Log_Context
  imports Log_Entries
begin

text \<open>
  The log context of the log database (\<^verbatim>\<open>rhs-supervisor/supervisor/backend/db/logs/state.go\<close>):
  the writer, which turns sealed blocks and logs into entries, and the reader, which rebuilds the
  state from entries. An entry index is a \<open>nat\<close>. A panic (a sanity check or a nil pointer) is
  \<open>None\<close>; an operation that fails returns its error with the context it leaves behind.

  The main result is that the reader undoes the writer: reading the entries a sequence of
  successful operations wrote gives the context of the writer.
\<close>

record log_context =
  lc_nextEntryIndex :: nat
  lc_blockHash :: hash
  lc_blockNum :: u64
  lc_timestamp :: u64
  lc_logsSince :: u32
  lc_logHash :: hash
  lc_execMsg :: "executing_message option"
  lc_need :: u8
  lc_out :: "log_entry list"

definition searchCheckpointFrequency :: nat where "searchCheckpointFrequency = 256"

definition zero_context :: log_context where
  "zero_context = \<lparr>lc_nextEntryIndex = 0, lc_blockHash = 0, lc_blockNum = 0, lc_timestamp = 0, lc_logsSince = 0,
     lc_logHash = 0, lc_execMsg = None, lc_need = 0, lc_out = []\<rparr>"

definition hasCompleteBlock :: "log_context \<Rightarrow> bool" where
  "hasCompleteBlock l \<longleftrightarrow> \<not> flag_Any (lc_need l) FlagCanonicalHash"

definition hasIncompleteLog :: "log_context \<Rightarrow> bool" where
  "hasIncompleteLog l \<longleftrightarrow> flag_Any (lc_need l) (FlagInitiatingEvent OR FlagExecutingLink OR FlagExecutingCheck)"

definition hasReadableLog :: "log_context \<Rightarrow> bool" where
  "hasReadableLog l \<longleftrightarrow> lc_logsSince l > 0 \<and> \<not> hasIncompleteLog l"

definition SealedBlock :: "log_context \<Rightarrow> (hash \<times> u64) option" where
  "SealedBlock l = (if \<not> hasCompleteBlock l then None else Some (lc_blockHash l, lc_blockNum l))"

definition SealedTimestamp :: "log_context \<Rightarrow> u64 option" where
  "SealedTimestamp l = (if \<not> hasCompleteBlock l then None else Some (lc_timestamp l))"

definition InitMessage :: "log_context \<Rightarrow> (hash \<times> u32) option" where
  "InitMessage l = (if \<not> hasReadableLog l then None else Some (lc_logHash l, lc_logsSince l - 1))"

definition ExecMessage :: "log_context \<Rightarrow> executing_message option" where
  "ExecMessage l = (if hasCompleteBlock l \<and> hasReadableLog l then lc_execMsg l else None)"

section \<open>The reader\<close>

definition need_add :: "u8 \<Rightarrow> log_context \<Rightarrow> log_context" where
  "need_add v l = l\<lparr>lc_need := flag_Add v (lc_need l)\<rparr>"

definition need_remove :: "u8 \<Rightarrow> log_context \<Rightarrow> log_context" where
  "need_remove v l = l\<lparr>lc_need := flag_Remove v (lc_need l)\<rparr>"

text \<open>The switch of \<open>processEntry\<close>, without the increment of the index that ends it.\<close>

definition process_checkpoint :: "log_entry \<Rightarrow> log_context \<Rightarrow> super_error + log_context" where
  "process_checkpoint entry l =
     (case newSearchCheckpointFromEntry entry of
        Inl err \<Rightarrow> Inl err
      | Inr current \<Rightarrow>
          let l = need_add FlagCanonicalHash
                    (l\<lparr>lc_blockNum := cp_blockNum current, lc_blockHash := 0, lc_logsSince := cp_logsSince current,
                       lc_timestamp := cp_timestamp current\<rparr>)
          in Inr (if lc_logsSince l = 0 then l\<lparr>lc_logHash := 0, lc_execMsg := None\<rparr> else l))"

definition process_canonical :: "log_entry \<Rightarrow> log_context \<Rightarrow> super_error + log_context" where
  "process_canonical entry l =
     (if \<not> flag_Any (lc_need l) FlagCanonicalHash then Inl (S_New ''not ready for canonical hash entry'')
      else case newCanonicalHashFromEntry entry of
             Inl err \<Rightarrow> Inl err
           | Inr canonHash \<Rightarrow> Inr (need_remove FlagCanonicalHash (l\<lparr>lc_blockHash := canonHash\<rparr>)))"

definition process_event :: "log_entry \<Rightarrow> log_context \<Rightarrow> super_error + log_context" where
  "process_event entry l =
     (if \<not> hasCompleteBlock l then Inl (S_New ''did not complete block seal, cannot add log'')
      else if hasIncompleteLog l then Inl (S_New ''cannot process log before last log completes'')
      else case newInitiatingEventFromEntry entry of
             Inl err \<Rightarrow> Inl err
           | Inr evt \<Rightarrow>
               let l = l\<lparr>lc_execMsg := None, lc_logHash := ie_logHash evt\<rparr>;
                   l = (if ie_hasExecMsg evt then need_add (FlagExecutingLink OR FlagExecutingCheck) l
                        else l\<lparr>lc_logsSince := lc_logsSince l + 1\<rparr>)
               in Inr (need_remove FlagInitiatingEvent l))"

definition process_link :: "log_entry \<Rightarrow> log_context \<Rightarrow> super_error + log_context" where
  "process_link entry l =
     (if \<not> flag_Any (lc_need l) FlagExecutingLink then Inl (S_New ''unexpected executing-link'')
      else case newExecutingLinkFromEntry entry of
             Inl err \<Rightarrow> Inl err
           | Inr link \<Rightarrow>
               Inr (need_add FlagExecutingCheck (need_remove FlagExecutingLink
                 (l\<lparr>lc_execMsg := Some \<lparr>em_Chain = el_chain link, em_BlockNum = el_blockNum link,
                      em_LogIdx = el_logIdx link, em_Timestamp = el_timestamp link, em_Hash = 0\<rparr>\<rparr>))))"

definition process_check :: "log_entry \<Rightarrow> log_context \<Rightarrow> (super_error + log_context) option" where
  "process_check entry l =
     (if flag_Any (lc_need l) FlagExecutingLink then Some (Inl (S_New ''need executing link to be applied before the check part''))
      else if \<not> flag_Any (lc_need l) FlagExecutingCheck then Some (Inl (S_New ''unexpected executing check''))
      else case newExecutingCheckFromEntry entry of
             Inl err \<Rightarrow> Some (Inl err)
           | Inr link \<Rightarrow>
               (case lc_execMsg l of
                  None \<Rightarrow> None
                | Some m \<Rightarrow>
                    Some (Inr (need_remove FlagExecutingCheck
                      (l\<lparr>lc_execMsg := Some (m\<lparr>em_Hash := link\<rparr>), lc_logsSince := lc_logsSince l + 1\<rparr>)))))"

definition process_padding :: "log_context \<Rightarrow> log_context" where
  "process_padding l =
     (if flag_Any (lc_need l) FlagPadding then need_remove FlagPadding l else need_remove FlagPadding2 l)"

definition processEntry :: "log_entry \<Rightarrow> log_context \<Rightarrow> (super_error + log_context) option" where
  "processEntry entry l =
     (if lc_out l \<noteq> [] then None
      else let t = entry_Type entry;
               res = (if t = TypeSearchCheckpoint then Some (process_checkpoint entry l)
                      else if t = TypeCanonicalHash then Some (process_canonical entry l)
                      else if t = TypeInitiatingEvent then Some (process_event entry l)
                      else if t = TypeExecutingLink then Some (process_link entry l)
                      else if t = TypeExecutingCheck then process_check entry l
                      else if t = TypePadding then Some (Inr (process_padding l))
                      else Some (Inl (S_New ''unknown entry type'')))
           in map_option (map_sum id (\<lambda>l. l\<lparr>lc_nextEntryIndex := lc_nextEntryIndex l + 1\<rparr>)) res)"

text \<open>\<open>ApplyEntry\<close> only adds to the message of the error.\<close>

definition ApplyEntry :: "log_entry \<Rightarrow> log_context \<Rightarrow> (super_error + log_context) option" where
  "ApplyEntry entry l = processEntry entry l"

section \<open>The writer\<close>

definition appendEntry :: "log_entry \<Rightarrow> log_context \<Rightarrow> log_context" where
  "appendEntry entry l = l\<lparr>lc_out := lc_out l @ [entry], lc_nextEntryIndex := lc_nextEntryIndex l + 1\<rparr>"

definition infer :: "log_context \<Rightarrow> (super_error + log_context) option" where
  "infer l =
     (let l = (if lc_nextEntryIndex l mod searchCheckpointFrequency = 0 then need_add FlagSearchCheckpoint l else l)
      in if flag_Any (lc_need l) FlagSearchCheckpoint
         then Some (Inr (need_remove FlagSearchCheckpoint (need_add FlagCanonicalHash (appendEntry
                (searchCheckpoint_encode \<lparr>cp_blockNum = lc_blockNum l, cp_logsSince = lc_logsSince l,
                   cp_timestamp = lc_timestamp l\<rparr>) l))))
         else if flag_Any (lc_need l) FlagCanonicalHash
         then Some (Inr (need_remove FlagCanonicalHash (appendEntry (canonicalHash_encode (lc_blockHash l)) l)))
         else if flag_Any (lc_need l) FlagPadding
         then Some (Inr (need_remove FlagPadding (appendEntry padding_encode l)))
         else if flag_Any (lc_need l) FlagPadding2
         then Some (Inr (need_remove FlagPadding2 (appendEntry padding_encode l)))
         else if flag_Any (lc_need l) FlagInitiatingEvent
         then if lc_execMsg l \<noteq> None
                 \<and> lc_nextEntryIndex l mod searchCheckpointFrequency = searchCheckpointFrequency - 1
              then Some (Inr (need_add FlagPadding l))
              else if lc_execMsg l \<noteq> None
                 \<and> lc_nextEntryIndex l mod searchCheckpointFrequency = searchCheckpointFrequency - 2
              then Some (Inr (need_add (FlagPadding OR FlagPadding2) l))
              else let l = need_remove FlagInitiatingEvent (appendEntry
                             (initiatingEvent_encode \<lparr>ie_hasExecMsg = (lc_execMsg l \<noteq> None), ie_logHash = lc_logHash l\<rparr>) l)
                   in Some (Inr (if lc_execMsg l = None then l\<lparr>lc_logsSince := lc_logsSince l + 1\<rparr> else l))
         else if flag_Any (lc_need l) FlagExecutingLink
         then case lc_execMsg l of
                None \<Rightarrow> None
              | Some m \<Rightarrow>
                  (case newExecutingLink m of
                     Inl err \<Rightarrow> Some (Inl err)
                   | Inr link \<Rightarrow> Some (Inr (need_remove FlagExecutingLink (appendEntry (executingLink_encode link) l))))
         else if flag_Any (lc_need l) FlagExecutingCheck
         then case lc_execMsg l of
                None \<Rightarrow> None
              | Some m \<Rightarrow>
                  (let l = need_remove FlagExecutingCheck (appendEntry (executingCheck_encode (em_Hash m)) l)
                   in Some (Inr (l\<lparr>lc_logsSince := lc_logsSince l + 1\<rparr>)))
         else Some (Inl S_EOF))"

text \<open>The loop of \<open>inferFull\<close>, with the iterations that are left. It panics when it hits the limit.\<close>

fun infer_loop :: "nat \<Rightarrow> log_context \<Rightarrow> (super_error option \<times> log_context) option" where
  "infer_loop 0 l = None"
| "infer_loop (Suc n) l =
     (case infer l of
        None \<Rightarrow> None
      | Some (Inr l') \<Rightarrow> infer_loop n l'
      | Some (Inl err) \<Rightarrow> Some (if err = S_EOF then None else Some err, l))"

definition inferFull :: "log_context \<Rightarrow> (super_error option \<times> log_context) option" where
  "inferFull l = infer_loop 10 l"

definition forceBlock :: "block_id \<Rightarrow> u64 \<Rightarrow> log_context \<Rightarrow> (super_error option \<times> log_context) option" where
  "forceBlock upd timestamp l =
     (if lc_nextEntryIndex l \<noteq> 0 then Some (Some (S_New ''can only bootstrap on top of an empty state''), l)
      else inferFull (l\<lparr>lc_blockHash := bid_hash upd, lc_blockNum := bid_number upd, lc_timestamp := timestamp,
                       lc_logsSince := 0, lc_execMsg := None, lc_logHash := 0, lc_need := 0, lc_out := []\<rparr>))"

definition seal_state :: "block_id \<Rightarrow> u64 \<Rightarrow> log_context \<Rightarrow> log_context" where
  "seal_state upd timestamp l =
     need_add FlagSearchCheckpoint (l\<lparr>lc_blockHash := bid_hash upd, lc_blockNum := bid_number upd,
       lc_timestamp := timestamp, lc_logsSince := 0, lc_execMsg := None, lc_logHash := 0\<rparr>)"

definition SealBlock :: "hash \<Rightarrow> block_id \<Rightarrow> u64 \<Rightarrow> log_context \<Rightarrow> (super_error option \<times> log_context) option" where
  "SealBlock parent upd timestamp l =
     (if lc_nextEntryIndex l \<noteq> 0
      then case inferFull l of
             None \<Rightarrow> None
           | Some (Some err, l) \<Rightarrow> Some (Some err, l)
           | Some (None, l) \<Rightarrow>
               if lc_blockHash l \<noteq> parent then Some (Some ErrConflict, l)
               else if lc_blockHash l \<noteq> 0 \<and> lc_blockNum l + 1 \<noteq> bid_number upd then Some (Some ErrConflict, l)
               else if lc_timestamp l > timestamp then Some (Some ErrConflict, l)
               else inferFull (seal_state upd timestamp l)
      else inferFull (seal_state upd timestamp l))"

definition log_state :: "hash \<Rightarrow> executing_message option \<Rightarrow> log_context \<Rightarrow> log_context" where
  "log_state logHash execMsg l =
     (let l = need_add FlagInitiatingEvent (l\<lparr>lc_logHash := logHash, lc_execMsg := execMsg\<rparr>)
      in if execMsg \<noteq> None then need_add (FlagExecutingLink OR FlagExecutingCheck) l else l)"

definition ApplyLog ::
  "block_id \<Rightarrow> u32 \<Rightarrow> hash \<Rightarrow> executing_message option \<Rightarrow> log_context \<Rightarrow> (super_error option \<times> log_context) option" where
  "ApplyLog parentBlock logIdx logHash execMsg l =
     (if parentBlock = zero_id then Some (Some ErrOutOfOrder, l)
      else case inferFull l of
             None \<Rightarrow> None
           | Some (Some err, l) \<Rightarrow> Some (Some err, l)
           | Some (None, l) \<Rightarrow>
               if \<not> hasCompleteBlock l
               then Some (Some (if lc_blockNum l = 0 then ErrOutOfOrder
                                else S_New ''cannot append log before last known block is sealed''), l)
               else if lc_blockHash l \<noteq> bid_hash parentBlock then Some (Some ErrOutOfOrder, l)
               else if lc_blockNum l \<noteq> bid_number parentBlock then Some (Some ErrOutOfOrder, l)
               else if logIdx \<noteq> lc_logsSince l then Some (Some ErrOutOfOrder, l)
               else inferFull (log_state logHash execMsg l))"

section \<open>Evaluating the flags\<close>

named_theorems flag_simps \<open>values of the type flags and of the operations on them\<close>

lemma flag_ops [flag_simps]:
  "flag_Any x v = (x AND v \<noteq> 0)" "flag_Add v x = x OR v" "flag_Remove v x = x AND NOT v"
  by (simp_all add: flag_Any_def flag_Add_def flag_Remove_def)

lemmas [flag_simps] = flag_values type_values need_add_def need_remove_def

lemmas writer_simps = infer_def appendEntry_def searchCheckpointFrequency_def flag_simps Let_def

text \<open>One step of the writer at each value the flags take.\<close>

named_theorems infer_steps \<open>the writer, flag by flag\<close>

abbreviation checkpoint_of :: "log_context \<Rightarrow> log_entry" where
  "checkpoint_of l \<equiv> searchCheckpoint_encode
     \<lparr>cp_blockNum = lc_blockNum l, cp_logsSince = lc_logsSince l, cp_timestamp = lc_timestamp l\<rparr>"

lemma infer_idle [infer_steps]:
  "lc_need l = 0 \<Longrightarrow> lc_nextEntryIndex l mod 256 \<noteq> 0 \<Longrightarrow> infer l = Some (Inl S_EOF)"
  by (simp add: writer_simps)

lemma infer_forced [infer_steps]:
  "lc_need l = 0 \<Longrightarrow> lc_nextEntryIndex l mod 256 = 0 \<Longrightarrow> infer l = Some (Inr (appendEntry (checkpoint_of l) (l\<lparr>lc_need := 2\<rparr>)))"
  "lc_need l = 2 \<Longrightarrow> lc_nextEntryIndex l mod 256 = 0 \<Longrightarrow> infer l = Some (Inr (appendEntry (checkpoint_of l) (l\<lparr>lc_need := 2\<rparr>)))"
  "lc_need l = 28 \<Longrightarrow> lc_nextEntryIndex l mod 256 = 0 \<Longrightarrow> infer l = Some (Inr (appendEntry (checkpoint_of l) (l\<lparr>lc_need := 30\<rparr>)))"
  by (simp_all add: writer_simps)

lemma infer_block [infer_steps]:
  "lc_need l = 1 \<Longrightarrow> infer l = Some (Inr (appendEntry (checkpoint_of l) (l\<lparr>lc_need := 2\<rparr>)))"
  "lc_need l = 2 \<Longrightarrow> lc_nextEntryIndex l mod 256 \<noteq> 0
     \<Longrightarrow> infer l = Some (Inr (appendEntry (canonicalHash_encode (lc_blockHash l)) (l\<lparr>lc_need := 0\<rparr>)))"
  "lc_need l = 30 \<Longrightarrow> lc_nextEntryIndex l mod 256 \<noteq> 0
     \<Longrightarrow> infer l = Some (Inr (appendEntry (canonicalHash_encode (lc_blockHash l)) (l\<lparr>lc_need := 28\<rparr>)))"
  by (simp_all add: writer_simps)

lemma infer_event [infer_steps]:
  "lc_need l = 4 \<Longrightarrow> lc_nextEntryIndex l mod 256 \<noteq> 0 \<Longrightarrow> lc_execMsg l = None \<Longrightarrow> infer l = Some (Inr (appendEntry
     (initiatingEvent_encode \<lparr>ie_hasExecMsg = False, ie_logHash = lc_logHash l\<rparr>)
     (l\<lparr>lc_need := 0, lc_logsSince := lc_logsSince l + 1\<rparr>)))"
  "lc_need l = 28 \<Longrightarrow> lc_nextEntryIndex l mod 256 \<noteq> 0 \<Longrightarrow> lc_nextEntryIndex l mod 256 \<noteq> 255
     \<Longrightarrow> lc_nextEntryIndex l mod 256 \<noteq> 254 \<Longrightarrow> lc_execMsg l = Some m \<Longrightarrow> infer l = Some (Inr (appendEntry
     (initiatingEvent_encode \<lparr>ie_hasExecMsg = True, ie_logHash = lc_logHash l\<rparr>) (l\<lparr>lc_need := 24\<rparr>)))"
  by (simp_all add: writer_simps)

lemma infer_padding [infer_steps]:
  "lc_need l = 28 \<Longrightarrow> lc_nextEntryIndex l mod 256 = 255 \<Longrightarrow> lc_execMsg l = Some m \<Longrightarrow> infer l = Some (Inr (l\<lparr>lc_need := 60\<rparr>))"
  "lc_need l = 28 \<Longrightarrow> lc_nextEntryIndex l mod 256 = 254 \<Longrightarrow> lc_execMsg l = Some m \<Longrightarrow> infer l = Some (Inr (l\<lparr>lc_need := 124\<rparr>))"
  "lc_need l = 60 \<Longrightarrow> lc_nextEntryIndex l mod 256 \<noteq> 0 \<Longrightarrow> infer l = Some (Inr (appendEntry padding_encode (l\<lparr>lc_need := 28\<rparr>)))"
  "lc_need l = 124 \<Longrightarrow> lc_nextEntryIndex l mod 256 \<noteq> 0 \<Longrightarrow> infer l = Some (Inr (appendEntry padding_encode (l\<lparr>lc_need := 92\<rparr>)))"
  "lc_need l = 92 \<Longrightarrow> lc_nextEntryIndex l mod 256 \<noteq> 0 \<Longrightarrow> infer l = Some (Inr (appendEntry padding_encode (l\<lparr>lc_need := 28\<rparr>)))"
  by (simp_all add: writer_simps)

lemma infer_message [infer_steps]:
  "lc_need l = 24 \<Longrightarrow> lc_nextEntryIndex l mod 256 \<noteq> 0 \<Longrightarrow> lc_execMsg l = Some m \<Longrightarrow> newExecutingLink m = Inr link
     \<Longrightarrow> infer l = Some (Inr (appendEntry (executingLink_encode link) (l\<lparr>lc_need := 16\<rparr>)))"
  "lc_need l = 16 \<Longrightarrow> lc_nextEntryIndex l mod 256 \<noteq> 0 \<Longrightarrow> lc_execMsg l = Some m
     \<Longrightarrow> infer l = Some (Inr (appendEntry (executingCheck_encode (em_Hash m))
          (l\<lparr>lc_need := 0, lc_logsSince := lc_logsSince l + 1\<rparr>)))"
  by (simp_all add: writer_simps)

lemma infer_loop_10: "inferFull l = infer_loop (Suc (Suc (Suc (Suc (Suc (Suc (Suc (Suc (Suc (Suc 0)))))))))) l"
  by (simp add: inferFull_def numeral_eq_Suc)

text \<open>A context between two operations: nothing is pending, nothing is buffered, and the next entry is not
  a forced checkpoint, unless the database is empty.\<close>

definition quiet :: "log_context \<Rightarrow> bool" where
  "quiet l \<longleftrightarrow> lc_need l = 0 \<and> lc_out l = [] \<and> (lc_nextEntryIndex l \<noteq> 0 \<longrightarrow> lc_nextEntryIndex l mod 256 \<noteq> 0)"

lemma inferFull_quiet: "quiet l \<Longrightarrow> lc_nextEntryIndex l \<noteq> 0 \<Longrightarrow> inferFull l = Some (None, l)"
  by (simp add: infer_loop_10 quiet_def infer_steps appendEntry_def)

definition block_entries :: "log_context \<Rightarrow> log_entry list" where
  "block_entries l =
     [searchCheckpoint_encode \<lparr>cp_blockNum = lc_blockNum l, cp_logsSince = lc_logsSince l, cp_timestamp = lc_timestamp l\<rparr>,
      canonicalHash_encode (lc_blockHash l)]"

lemma infer_seal:
  assumes "lc_need l = 1" and "lc_out l = []" 
  shows "inferFull l = Some (None, l\<lparr>lc_need := 0,
     lc_nextEntryIndex := lc_nextEntryIndex l + 2 + (if (lc_nextEntryIndex l + 1) mod 256 = 0 then 1 else if (lc_nextEntryIndex l + 2) mod 256 = 0 then 2 else 0),
     lc_out := (if (lc_nextEntryIndex l + 1) mod 256 = 0 then hd (block_entries l) # block_entries l
       else if (lc_nextEntryIndex l + 2) mod 256 = 0 then block_entries l @ block_entries l else block_entries l)\<rparr>)"
proof -
  consider "Suc (lc_nextEntryIndex l) mod 256 = 0"  
    | "Suc (lc_nextEntryIndex l) mod 256 \<noteq> 0" "Suc (Suc (lc_nextEntryIndex l)) mod 256 = 0" 
    | "Suc (lc_nextEntryIndex l) mod 256 \<noteq> 0" "Suc (Suc (lc_nextEntryIndex l)) mod 256 \<noteq> 0" by blast
  then show ?thesis
  proof cases
    case 1
    then have "Suc (Suc (lc_nextEntryIndex l)) mod 256 = 1" "Suc (Suc (Suc (lc_nextEntryIndex l))) mod 256 = 2"
      by (simp_all add: mod_Suc)
    with 1 assms show ?thesis by (simp add: infer_loop_10 infer_steps appendEntry_def block_entries_def)
  next
    case 2
    then have "Suc (Suc (Suc (lc_nextEntryIndex l))) mod 256 = 1" "Suc (Suc (Suc (Suc (lc_nextEntryIndex l)))) mod 256 = 2"
      by (simp_all add: mod_Suc)
    with 2 assms show ?thesis by (simp add: infer_loop_10 infer_steps appendEntry_def block_entries_def)
  next
    case 3
    with assms show ?thesis by (simp add: infer_loop_10 infer_steps appendEntry_def block_entries_def)
  qed
qed

text \<open>A log without an executing message: one entry, and a forced checkpoint when the next index asks for it.\<close>

definition event_entry :: "log_context \<Rightarrow> log_entry" where
  "event_entry l = initiatingEvent_encode \<lparr>ie_hasExecMsg = (lc_execMsg l \<noteq> None), ie_logHash = lc_logHash l\<rparr>"

definition counted :: "log_context \<Rightarrow> log_context" where
  "counted l = l\<lparr>lc_logsSince := lc_logsSince l + 1\<rparr>"

lemma infer_log:
  assumes "lc_need l = 4" and "lc_out l = []" and "lc_execMsg l = None" and "lc_nextEntryIndex l mod 256 \<noteq> 0"
  shows "inferFull l = Some (None, (counted l)\<lparr>lc_need := 0,
     lc_nextEntryIndex := lc_nextEntryIndex l + 1 + (if (lc_nextEntryIndex l + 1) mod 256 = 0 then 2 else 0),
     lc_out := event_entry l # (if (lc_nextEntryIndex l + 1) mod 256 = 0 then block_entries (counted l) else [])\<rparr>)"
proof (cases "Suc (lc_nextEntryIndex l) mod 256 = 0")
  case True
  then have "Suc (Suc (lc_nextEntryIndex l)) mod 256 = 1" "Suc (Suc (Suc (lc_nextEntryIndex l))) mod 256 = 2"
    by (simp_all add: mod_Suc)
  with True assms show ?thesis
    by (simp add: infer_loop_10 infer_steps appendEntry_def block_entries_def event_entry_def counted_def)
next
  case False
  with assms show ?thesis
    by (simp add: infer_loop_10 infer_steps appendEntry_def block_entries_def event_entry_def counted_def)
qed

text \<open>A log with an executing message: three entries that a checkpoint must not interrupt, with padding and
  the forced checkpoint before them or the forced checkpoint after them.\<close>

definition exec_entries :: "log_context \<Rightarrow> executing_message \<Rightarrow> executing_link \<Rightarrow> log_entry list" where
  "exec_entries l m link = [event_entry l, executingLink_encode link, executingCheck_encode (em_Hash m)]"

definition padding_before :: "nat \<Rightarrow> log_entry list" where
  "padding_before n =
     (if n mod 256 = 255 then [padding_encode] else if n mod 256 = 254 then [padding_encode, padding_encode] else [])"

definition log_entries :: "log_context \<Rightarrow> executing_message \<Rightarrow> executing_link \<Rightarrow> log_entry list" where
  "log_entries l m link =
     (if padding_before (lc_nextEntryIndex l) \<noteq> []
      then padding_before (lc_nextEntryIndex l) @ block_entries l @ exec_entries l m link
      else if lc_nextEntryIndex l mod 256 = 253 then exec_entries l m link @ block_entries (counted l)
      else exec_entries l m link)"

lemma infer_exec:
  assumes "lc_need l = 28" and "lc_out l = []" and "lc_execMsg l = Some m" and "lc_nextEntryIndex l mod 256 \<noteq> 0"
    and "newExecutingLink m = Inr link"
  shows "inferFull l = Some (None, (counted l)\<lparr>lc_need := 0,
     lc_nextEntryIndex := lc_nextEntryIndex l + length (log_entries l m link), lc_out := log_entries l m link\<rparr>)"
proof -
  let ?n = "lc_nextEntryIndex l"
  note simps = infer_loop_10 infer_steps appendEntry_def block_entries_def event_entry_def counted_def log_entries_def
    exec_entries_def padding_before_def
  consider "?n mod 256 = 255" | "?n mod 256 = 254" | "?n mod 256 = 253"
    | "?n mod 256 \<notin> {0, 253, 254, 255}" using assms(4) by blast
  then show ?thesis
  proof cases
    case 1
    then have "Suc ?n mod 256 = 0" "Suc (Suc ?n) mod 256 = 1" "Suc (Suc (Suc ?n)) mod 256 = 2"
      "Suc (Suc (Suc (Suc ?n))) mod 256 = 3" "Suc (Suc (Suc (Suc (Suc ?n)))) mod 256 = 4"
      "Suc (Suc (Suc (Suc (Suc (Suc ?n))))) mod 256 = 5"
      by (simp_all add: mod_Suc)
    with 1 assms show ?thesis by (simp add: simps)
  next
    case 2
    then have "Suc ?n mod 256 = 255" "Suc (Suc ?n) mod 256 = 0" "Suc (Suc (Suc ?n)) mod 256 = 1"
      "Suc (Suc (Suc (Suc ?n))) mod 256 = 2" "Suc (Suc (Suc (Suc (Suc ?n)))) mod 256 = 3"
      "Suc (Suc (Suc (Suc (Suc (Suc ?n))))) mod 256 = 4" "Suc (Suc (Suc (Suc (Suc (Suc (Suc ?n)))))) mod 256 = 5"
      by (simp_all add: mod_Suc)
    with 2 assms show ?thesis by (simp add: simps)
  next
    case 3
    then have "Suc ?n mod 256 = 254" "Suc (Suc ?n) mod 256 = 255" "Suc (Suc (Suc ?n)) mod 256 = 0"
      "Suc (Suc (Suc (Suc ?n))) mod 256 = 1" "Suc (Suc (Suc (Suc (Suc ?n)))) mod 256 = 2"
      by (simp_all add: mod_Suc)
    with 3 assms show ?thesis by (simp add: simps)
  next
    case 4
    then have "Suc ?n mod 256 \<noteq> 0" "Suc (Suc ?n) mod 256 \<noteq> 0" "Suc (Suc (Suc ?n)) mod 256 \<noteq> 0"
      by (auto simp: mod_Suc)
    with 4 assms show ?thesis by (simp add: simps)
  qed
qed

section \<open>The reader undoes the writer\<close>

fun apply_entries :: "log_entry list \<Rightarrow> log_context \<Rightarrow> (super_error + log_context) option" where
  "apply_entries [] l = Some (Inr l)"
| "apply_entries (e # es) l =
     (case ApplyEntry e l of
        None \<Rightarrow> None
      | Some (Inl err) \<Rightarrow> Some (Inl err)
      | Some (Inr l') \<Rightarrow> apply_entries es l')"

lemma apply_entries_append:
  "apply_entries xs l = Some (Inr l') \<Longrightarrow> apply_entries (xs @ ys) l = apply_entries ys l'"
  by (induction xs arbitrary: l) (auto split: option.splits sum.splits)

named_theorems read_steps \<open>the reader, entry by entry\<close>

lemmas reader_simps = ApplyEntry_def processEntry_def process_checkpoint_def process_canonical_def process_event_def
  process_link_def process_check_def process_padding_def hasCompleteBlock_def hasIncompleteLog_def
  checkpoint_codec.decode_encode canonical_codec.decode_encode event_codec.decode_encode
  link_codec.decode_encode check_codec.decode_encode flag_simps Let_def

text \<open>The logs seen so far are forgotten at a block boundary.\<close>

definition forget_log :: "log_context \<Rightarrow> log_context" where
  "forget_log l = (if lc_logsSince l = 0 then l\<lparr>lc_logHash := 0, lc_execMsg := None\<rparr> else l)"

definition set_block :: "log_context \<Rightarrow> log_context \<Rightarrow> log_context" where
  "set_block w l = l\<lparr>lc_blockNum := lc_blockNum w, lc_blockHash := lc_blockHash w, lc_timestamp := lc_timestamp w,
     lc_logsSince := lc_logsSince w\<rparr>"

lemma read_checkpoint [read_steps]:
  assumes "lc_out l = []" and "lc_need l = 0 \<or> lc_need l = 2"
  shows "ApplyEntry (searchCheckpoint_encode c) l = Some (Inr (forget_log
     (l\<lparr>lc_blockNum := cp_blockNum c, lc_logsSince := cp_logsSince c, lc_timestamp := cp_timestamp c,
        lc_blockHash := 0, lc_need := 2, lc_nextEntryIndex := lc_nextEntryIndex l + 1\<rparr>)))"
  using assms by (auto simp: reader_simps forget_log_def)

lemma read_canonical [read_steps]:
  assumes "lc_out l = []" and "lc_need l = 2"
  shows "ApplyEntry (canonicalHash_encode h) l
     = Some (Inr (l\<lparr>lc_blockHash := h, lc_need := 0, lc_nextEntryIndex := lc_nextEntryIndex l + 1\<rparr>))"
  using assms by (simp add: reader_simps)

lemma read_padding [read_steps]:
  assumes "lc_out l = []" and "lc_need l = 0"
  shows "ApplyEntry padding_encode l = Some (Inr (l\<lparr>lc_nextEntryIndex := lc_nextEntryIndex l + 1\<rparr>))"
  using assms by (simp add: reader_simps)

lemma read_event [read_steps]:
  assumes "lc_out l = []" and "lc_need l = 0"
  shows "ApplyEntry (initiatingEvent_encode i) l = Some (Inr
     (l\<lparr>lc_execMsg := None, lc_logHash := ie_logHash i, lc_need := (if ie_hasExecMsg i then 24 else 0),
        lc_logsSince := (if ie_hasExecMsg i then lc_logsSince l else lc_logsSince l + 1),
        lc_nextEntryIndex := lc_nextEntryIndex l + 1\<rparr>))"
  using assms by (simp add: reader_simps)

lemma read_link [read_steps]:
  assumes "lc_out l = []" and "lc_need l = 24" and "el_logIdx link < push_bit 24 1"
  shows "ApplyEntry (executingLink_encode link) l = Some (Inr
     (l\<lparr>lc_execMsg := Some \<lparr>em_Chain = el_chain link, em_BlockNum = el_blockNum link, em_LogIdx = el_logIdx link,
          em_Timestamp = el_timestamp link, em_Hash = 0\<rparr>,
        lc_need := 16, lc_nextEntryIndex := lc_nextEntryIndex l + 1\<rparr>))"
  using assms by (simp add: reader_simps)

lemma read_check [read_steps]:
  assumes "lc_out l = []" and "lc_need l = 16" and "lc_execMsg l = Some m"
  shows "ApplyEntry (executingCheck_encode h) l = Some (Inr
     (l\<lparr>lc_execMsg := Some (m\<lparr>em_Hash := h\<rparr>), lc_logsSince := lc_logsSince l + 1,
        lc_need := 0, lc_nextEntryIndex := lc_nextEntryIndex l + 1\<rparr>))"
  using assms by (simp add: reader_simps)

lemma read_block:
  assumes "lc_out l = []" and "lc_need l = 0 \<or> lc_need l = 2"
  shows "apply_entries (block_entries w) l
     = Some (Inr (forget_log ((set_block w l)\<lparr>lc_need := 0, lc_nextEntryIndex := lc_nextEntryIndex l + 2\<rparr>)))"
  using assms by (simp add: block_entries_def read_steps forget_log_def set_block_def)

lemma read_message:
  assumes "lc_out l = []" and "lc_need l = 0" and "newExecutingLink m = Inr link" and "em_LogIdx m < push_bit 24 1"
    and "lc_execMsg w = Some m" and "lc_logHash w = h"
  shows "apply_entries (exec_entries w m link) l
     = Some (Inr (l\<lparr>lc_execMsg := Some m, lc_logHash := h, lc_logsSince := lc_logsSince l + 1,
         lc_nextEntryIndex := lc_nextEntryIndex l + 3\<rparr>))"
  using assms by (auto simp: exec_entries_def event_entry_def read_steps newExecutingLink_def split: if_splits)

text \<open>Well-formed entries: every entry at a multiple of the search interval is a checkpoint, a checkpoint does not
  interrupt a log, a checkpoint is followed by the hash of its block, unless a forced checkpoint comes next, and the
  link and the check of an executing message follow its event.\<close>

fun aligned :: "log_entry list \<Rightarrow> log_context \<Rightarrow> bool" where
  "aligned [] l \<longleftrightarrow> True"
| "aligned (e # es) l \<longleftrightarrow>
     (lc_nextEntryIndex l mod 256 = 0 \<longrightarrow> entry_Type e = TypeSearchCheckpoint)
     \<and> (entry_Type e = TypeSearchCheckpoint \<longrightarrow> lc_need l = 0 \<or> lc_need l = 2)
     \<and> (lc_need l = 2 \<longrightarrow> entry_Type e = TypeCanonicalHash
           \<or> entry_Type e = TypeSearchCheckpoint \<and> lc_nextEntryIndex l mod 256 = 0)
     \<and> (lc_need l = 0 \<or> lc_need l = 2 \<or> lc_need l = 16 \<or> lc_need l = 24)
     \<and> (lc_need l = 24 \<longrightarrow> entry_Type e = TypeExecutingLink) \<and> (lc_need l = 16 \<longrightarrow> entry_Type e = TypeExecutingCheck)
     \<and> (case ApplyEntry e l of Some (Inr l') \<Rightarrow> aligned es l' | _ \<Rightarrow> True)"

text \<open>A checkpoint in the middle of a block repeats the count of the logs.\<close>

fun steady :: "log_entry list \<Rightarrow> log_context \<Rightarrow> bool" where
  "steady [] l \<longleftrightarrow> True"
| "steady (e # es) l \<longleftrightarrow>
     (case newSearchCheckpointFromEntry e of Inr cp \<Rightarrow> cp_logsSince cp = 0 \<or> cp_logsSince cp = lc_logsSince l | Inl _ \<Rightarrow> True)
     \<and> (case ApplyEntry e l of Some (Inr l') \<Rightarrow> steady es l' | _ \<Rightarrow> True)"

lemma steady_append:
  "apply_entries xs l = Some (Inr l') \<Longrightarrow> steady (xs @ ys) l \<longleftrightarrow> steady xs l \<and> steady ys l'"
  by (induction xs arbitrary: l) (auto split: option.splits sum.splits)

text \<open>What a reader sees of a complete state: the block, the count of its logs so far and the last of them.\<close>

type_synonym observation = "block_seal \<times> u32 \<times> hash \<times> executing_message option"

definition seal_of :: "log_context \<Rightarrow> block_seal" where
  "seal_of l = \<lparr>seal_Hash = lc_blockHash l, seal_Number = lc_blockNum l, seal_Timestamp = lc_timestamp l\<rparr>"

definition obs :: "log_context \<Rightarrow> observation" where
  "obs l = (seal_of l, lc_logsSince l, if lc_logsSince l = 0 then (0, None) else (lc_logHash l, lc_execMsg l))"

text \<open>The complete states a reader goes through.\<close>

fun stops :: "log_entry list \<Rightarrow> log_context \<Rightarrow> log_context list" where
  "stops [] l = []"
| "stops (e # es) l =
     (case ApplyEntry e l of
        Some (Inr l') \<Rightarrow> (if lc_need l' = 0 then [l'] else []) @ stops es l'
      | _ \<Rightarrow> [])"

lemma stops_append:
  "apply_entries xs l = Some (Inr l') \<Longrightarrow> stops (xs @ ys) l = stops xs l @ stops ys l'"
  by (induction xs arbitrary: l) (auto split: option.splits sum.splits)

lemma aligned_append:
  "apply_entries xs l = Some (Inr l') \<Longrightarrow> aligned (xs @ ys) l \<longleftrightarrow> aligned xs l \<and> aligned ys l'"
  by (induction xs arbitrary: l) (auto split: option.splits sum.splits)

lemma aligned_block:
  assumes "lc_out l = []" and "lc_need l = 0" and "Suc (lc_nextEntryIndex l) mod 256 \<noteq> 0"
  shows "aligned (block_entries w) l"
  using assms by (auto simp: block_entries_def read_steps forget_log_def)

lemma aligned_message:
  assumes "lc_out l = []" and "lc_need l = 0" and "newExecutingLink m = Inr link" and "em_LogIdx m < push_bit 24 1"
    and "lc_execMsg w = Some m" and "lc_nextEntryIndex l mod 256 \<noteq> 0" and "(lc_nextEntryIndex l + 1) mod 256 \<noteq> 0"
    and "(lc_nextEntryIndex l + 2) mod 256 \<noteq> 0"
  shows "aligned (exec_entries w m link) l"
  using assms by (auto simp: exec_entries_def event_entry_def read_steps newExecutingLink_def type_values split: if_splits)

lemma no_checkpoint [simp]: "entry_Type e \<noteq> TypeSearchCheckpoint \<Longrightarrow> newSearchCheckpointFromEntry e = Inl ErrDataCorruption"
  by (rule checkpoint_codec.decode_other)

lemma steady_block:
  assumes "lc_out l = []" and "lc_need l = 0" and "lc_logsSince w = 0 \<or> lc_logsSince w = lc_logsSince l"
  shows "steady (block_entries w) l"
  using assms by (simp add: block_entries_def read_steps forget_log_def checkpoint_codec.decode_encode type_values)

lemma steady_message:
  assumes "lc_out l = []" and "lc_need l = 0" and "newExecutingLink m = Inr link" and "em_LogIdx m < push_bit 24 1"
    and "lc_execMsg w = Some m"
  shows "steady (exec_entries w m link) l"
  using assms by (auto simp: exec_entries_def event_entry_def read_steps newExecutingLink_def type_values split: if_splits)

lemma stops_block:
  assumes "lc_out l = []" and "lc_need l = 0 \<or> lc_need l = 2"
  shows "stops (block_entries w) l = [forget_log ((set_block w l)\<lparr>lc_need := 0, lc_nextEntryIndex := lc_nextEntryIndex l + 2\<rparr>)]"
  using assms by (simp add: block_entries_def read_steps forget_log_def set_block_def)

lemma stops_message:
  assumes "lc_out l = []" and "lc_need l = 0" and "newExecutingLink m = Inr link" and "em_LogIdx m < push_bit 24 1"
    and "lc_execMsg w = Some m" and "lc_logHash w = h"
  shows "stops (exec_entries w m link) l
     = [l\<lparr>lc_execMsg := Some m, lc_logHash := h, lc_logsSince := lc_logsSince l + 1, lc_nextEntryIndex := lc_nextEntryIndex l + 3\<rparr>]"
  using assms by (auto simp: exec_entries_def event_entry_def read_steps newExecutingLink_def split: if_splits)

text \<open>A list that stays at one element for a while and then goes over to another.\<close>

fun settles :: "'a \<Rightarrow> 'a \<Rightarrow> 'a list \<Rightarrow> bool" where
  "settles x y [] \<longleftrightarrow> False"
| "settles x y (z # zs) \<longleftrightarrow> z = x \<and> settles x y zs \<or> z = y \<and> (\<forall>w \<in> set zs. w = y)"

definition flushed :: "log_context \<Rightarrow> log_context" where
  "flushed l = l\<lparr>lc_out := []\<rparr>"

text \<open>A step of the writer from \<open>l\<close> to \<open>l'\<close> that the reader follows.\<close>

definition replays :: "log_context \<Rightarrow> log_context \<Rightarrow> bool" where
  "replays l l' \<longleftrightarrow> quiet (flushed l') \<and> lc_nextEntryIndex l' = lc_nextEntryIndex l + length (lc_out l')
     \<and> apply_entries (lc_out l') l = Some (Inr (flushed l')) \<and> aligned (lc_out l') l
     \<and> steady (lc_out l') l \<and> settles (obs l) (obs l') (map obs (stops (lc_out l') l))
     \<and> (lc_nextEntryIndex l = 0 \<longrightarrow> (\<forall>z \<in> set (stops (lc_out l') l). obs z = obs l'))"

lemma seal_replays:
  assumes "quiet l"
  shows "\<exists>l'. inferFull (seal_state upd t l) = Some (None, l') \<and> replays l l'"
proof -
  let ?s = "seal_state upd t l" and ?n = "lc_nextEntryIndex l"
  have q: "lc_need l = 0" "lc_out l = []" using assms by (simp_all add: quiet_def)
  have s: "lc_need ?s = 1" "lc_out ?s = []" "lc_nextEntryIndex ?s = ?n" "lc_logsSince ?s = 0"
    using q by (simp_all add: seal_state_def flag_simps)
  note I = infer_seal [OF s(1,2), unfolded s(3)]
  note defs = replays_def quiet_def flushed_def forget_log_def set_block_def s q seal_state_def flag_simps obs_def seal_of_def
  have b: "length (block_entries w) = 2" for w by (simp add: block_entries_def)
  consider "Suc ?n mod 256 = 0" | "Suc ?n mod 256 \<noteq> 0" "Suc (Suc ?n) mod 256 = 0"
    | "Suc ?n mod 256 \<noteq> 0" "Suc (Suc ?n) mod 256 \<noteq> 0" by blast
  then show ?thesis
  proof cases
    case 1
    then have "Suc (Suc (Suc ?n)) mod 256 \<noteq> 0" by (simp add: mod_Suc)
    moreover have "apply_entries (hd (block_entries ?s) # block_entries ?s) l
        = Some (Inr (?s\<lparr>lc_need := 0, lc_nextEntryIndex := ?n + 3\<rparr>))"
      using q by (simp add: block_entries_def read_steps defs)
    moreover have "stops (hd (block_entries ?s) # block_entries ?s) l = [?s\<lparr>lc_need := 0, lc_nextEntryIndex := ?n + 3\<rparr>]"
      using q by (simp add: block_entries_def read_steps defs)
    moreover have "steady (hd (block_entries ?s) # block_entries ?s) l"
      using q s(4) by (simp add: block_entries_def read_steps forget_log_def checkpoint_codec.decode_encode type_values)
    moreover have "aligned (hd (block_entries ?s) # block_entries ?s) l"
      using q 1 by (simp add: block_entries_def read_steps forget_log_def mod_Suc)
    ultimately show ?thesis using 1 I by (simp add: defs b)
  next
    case 2
    then have "Suc (Suc (Suc (Suc ?n))) mod 256 \<noteq> 0" by (simp add: mod_Suc)
    moreover have "apply_entries (block_entries ?s @ block_entries ?s) l
        = Some (Inr (?s\<lparr>lc_need := 0, lc_nextEntryIndex := ?n + 4\<rparr>))"
      using q by (simp add: block_entries_def read_steps defs)
    moreover have "stops (block_entries ?s @ block_entries ?s) l
        = [?s\<lparr>lc_need := 0, lc_nextEntryIndex := ?n + 2\<rparr>, ?s\<lparr>lc_need := 0, lc_nextEntryIndex := ?n + 4\<rparr>]"
      using q by (simp add: block_entries_def read_steps defs)
    moreover have "steady (block_entries ?s @ block_entries ?s) l"
      using q s(4) by (simp add: block_entries_def read_steps forget_log_def checkpoint_codec.decode_encode type_values)
    moreover have "aligned (block_entries ?s @ block_entries ?s) l"
      using q 2 by (simp add: block_entries_def read_steps forget_log_def mod_Suc)
    ultimately show ?thesis using 2 I by (simp add: defs b)
  next
    case 3
    have "apply_entries (block_entries ?s) l = Some (Inr (?s\<lparr>lc_need := 0, lc_nextEntryIndex := ?n + 2\<rparr>))"
      using q by (simp add: block_entries_def read_steps defs)
    moreover have "stops (block_entries ?s) l = [?s\<lparr>lc_need := 0, lc_nextEntryIndex := ?n + 2\<rparr>]"
      using q by (simp add: block_entries_def read_steps defs)
    ultimately show ?thesis using 3 I aligned_block [of l ?s] steady_block [of l ?s] q s(4) by (simp add: defs b)
  qed
qed

lemma log_replays:
  assumes "quiet l" and "lc_nextEntryIndex l \<noteq> 0" and "lc_logsSince l + 1 \<noteq> 0"
  shows "\<exists>l'. inferFull (log_state h None l) = Some (None, l') \<and> replays l l'"
proof -
  let ?s = "log_state h None l" and ?n = "lc_nextEntryIndex l"
  have q: "lc_need l = 0" "lc_out l = []" "?n mod 256 \<noteq> 0" using assms by (simp_all add: quiet_def)
  have s: "lc_need ?s = 4" "lc_out ?s = []" "lc_execMsg ?s = None" "lc_nextEntryIndex ?s = ?n" "lc_logHash ?s = h"
    using q by (simp_all add: log_state_def flag_simps)
  note I = infer_log [OF s(1,2,3), unfolded s(4), OF q(3)]
  note defs = replays_def quiet_def flushed_def forget_log_def set_block_def s q log_state_def flag_simps counted_def
    event_entry_def block_entries_def read_steps obs_def seal_of_def checkpoint_codec.decode_encode
  show ?thesis
  proof (cases "Suc ?n mod 256 = 0")
    case True
    then have "Suc (Suc (Suc ?n)) mod 256 \<noteq> 0" by (simp add: mod_Suc)
    with True I assms(3) show ?thesis by (simp add: defs mod_Suc)
  next
    case False
    with I show ?thesis by (simp add: defs)
  qed
qed

lemma add_mod_256: "(n + k) mod 256 = (n mod 256 + k) mod (256 :: nat)"
  by (simp add: mod_add_left_eq)

lemma exec_replays:
  assumes "quiet l" and "lc_nextEntryIndex l \<noteq> 0" and "lc_logsSince l + 1 \<noteq> 0" and "em_LogIdx m < push_bit 24 1"
  shows "\<exists>l'. inferFull (log_state h (Some m) l) = Some (None, l') \<and> replays l l'"
proof -
  let ?s = "log_state h (Some m) l" and ?n = "lc_nextEntryIndex l"
  have "\<not> em_LogIdx m > push_bit 24 1" using assms(4) by (auto dest: order.asym simp del: push_bit_of_1)
  then obtain link where link: "newExecutingLink m = Inr link" unfolding newExecutingLink_def by auto
  have q: "lc_need l = 0" "lc_out l = []" "?n mod 256 \<noteq> 0" using assms by (simp_all add: quiet_def)
  have s: "lc_need ?s = 28" "lc_out ?s = []" "lc_execMsg ?s = Some m" "lc_nextEntryIndex ?s = ?n" "lc_logHash ?s = h"
    using q by (simp_all add: log_state_def flag_simps)
  note I = infer_exec [OF s(1,2,3), unfolded s(4), OF q(3) link]
  note defs = replays_def quiet_def flushed_def log_entries_def s q counted_def padding_before_def obs_def seal_of_def
  have R: "apply_entries (exec_entries ?s m link) l'
     = Some (Inr (l'\<lparr>lc_execMsg := Some m, lc_logHash := h, lc_logsSince := lc_logsSince l' + 1,
         lc_nextEntryIndex := lc_nextEntryIndex l' + 3\<rparr>))" if "lc_out l' = []" "lc_need l' = 0" for l'
    using read_message [OF that link assms(4) s(3,5)] .
  have S: "stops (exec_entries ?s m link) l'
     = [l'\<lparr>lc_execMsg := Some m, lc_logHash := h, lc_logsSince := lc_logsSince l' + 1,
         lc_nextEntryIndex := lc_nextEntryIndex l' + 3\<rparr>]" if "lc_out l' = []" "lc_need l' = 0" for l'
    using stops_message [OF that link assms(4) s(3,5)] .
  have T: "steady (exec_entries ?s m link) l'" if "lc_out l' = []" "lc_need l' = 0" for l'
    using steady_message [OF that link assms(4) s(3)] .
  have A: "aligned (exec_entries ?s m link) l'" if "lc_out l' = []" "lc_need l' = 0" "lc_nextEntryIndex l' mod 256 \<noteq> 0"
      "(lc_nextEntryIndex l' + 1) mod 256 \<noteq> 0" "(lc_nextEntryIndex l' + 2) mod 256 \<noteq> 0" for l'
    using aligned_message [OF that(1,2) link assms(4) s(3) that(3,4,5)] .
  have len: "length (exec_entries ?s m link) = 3" "length (block_entries w) = 2" for w
    by (simp_all add: exec_entries_def block_entries_def)
  have fields: "lc_blockNum ?s = lc_blockNum l" "lc_blockHash ?s = lc_blockHash l" "lc_timestamp ?s = lc_timestamp l"
    "lc_logsSince ?s = lc_logsSince l"
    by (simp_all add: log_state_def need_add_def)
  have fin: "?s\<lparr>lc_logsSince := lc_logsSince l + 1, lc_need := 0, lc_nextEntryIndex := k, lc_out := []\<rparr>
     = l\<lparr>lc_execMsg := Some m, lc_logHash := h, lc_logsSince := lc_logsSince l + 1, lc_nextEntryIndex := k\<rparr>" for k
    using q by (simp add: log_state_def need_add_def)
  consider "?n mod 256 = 255" | "?n mod 256 = 254" | "?n mod 256 = 253" | "?n mod 256 \<notin> {0, 253, 254, 255}"
    using q(3) by blast
  then show ?thesis
  proof cases
    case 1
    then have "(?n + 6) mod 256 \<noteq> 0" by (simp add: add_mod_256 [of ?n])
    with 1 I show ?thesis
      by (simp add: defs len fields fin read_steps apply_entries_append [OF read_block] R forget_log_def set_block_def
          aligned_append [OF read_block] aligned_block A stops_append [OF read_block] stops_block S steady_append [OF read_block] steady_block T type_values mod_Suc add_mod_256 [of ?n])
  next
    case 2
    then have "(?n + 7) mod 256 \<noteq> 0" by (simp add: add_mod_256 [of ?n])
    with 2 I show ?thesis
      by (simp add: defs len fields fin read_steps apply_entries_append [OF read_block] R forget_log_def set_block_def
          aligned_append [OF read_block] aligned_block A stops_append [OF read_block] stops_block S steady_append [OF read_block] steady_block T type_values mod_Suc add_mod_256 [of ?n])
  next
    case 3
    then have "(?n + 5) mod 256 \<noteq> 0" by (simp add: add_mod_256 [of ?n])
    moreover have "(?n + 4) mod 256 \<noteq> 0" using 3 by (simp add: add_mod_256 [of ?n])
    then have "aligned (block_entries w) (l\<lparr>lc_execMsg := Some m, lc_logHash := h, lc_logsSince := lc_logsSince l + 1,
        lc_nextEntryIndex := ?n + 3\<rparr>)" for w
      by (intro aligned_block) (use q in \<open>simp_all add: add.commute\<close>)
    ultimately show ?thesis using 3 I assms(3)
      by (simp add: defs len fields fin apply_entries_append [OF R] read_block forget_log_def set_block_def
          aligned_append [OF R] A stops_append [OF R] stops_block S steady_append [OF R] steady_block T mod_Suc add_mod_256 [of ?n])
  next
    case 4
    then have "?n mod 256 < 253" using mod_less_divisor [of 256 ?n] by (simp, linarith)
    then have "(?n + 3) mod 256 \<noteq> 0" by (simp add: add_mod_256 [of ?n])
    with 4 I show ?thesis using \<open>?n mod 256 < 253\<close> by (simp add: defs len fields fin R A S T mod_Suc add_mod_256 [of ?n])
  qed
qed

section \<open>The operations on a quiet context\<close>

text \<open>The two operations return on every input, and either leave a quiet context alone or take a step that
  the reader follows.\<close>

lemma SealBlock_quiet:
  assumes "quiet l"
  shows "\<exists>err l'. SealBlock parent upd t l = Some (err, l') \<and> (case err of Some _ \<Rightarrow> l' = l | None \<Rightarrow> replays l l')"
proof (cases "lc_nextEntryIndex l = 0")
  case True
  with seal_replays [OF assms, of upd t] show ?thesis by (auto simp: SealBlock_def)
next
  case False
  with inferFull_quiet [OF assms] seal_replays [OF assms, of upd t] show ?thesis by (auto simp: SealBlock_def)
qed

lemma ApplyLog_quiet:
  assumes "quiet l" and "lc_nextEntryIndex l \<noteq> 0" and "lc_logsSince l + 1 \<noteq> 0"
    and "\<And>m. execMsg = Some m \<Longrightarrow> em_LogIdx m < push_bit 24 1"
  shows "\<exists>err l'. ApplyLog parent logIdx h execMsg l = Some (err, l') \<and> (case err of Some _ \<Rightarrow> l' = l | None \<Rightarrow> replays l l')"
proof -
  have "\<exists>l'. inferFull (log_state h execMsg l) = Some (None, l') \<and> replays l l'"
    using log_replays [OF assms(1-3)] exec_replays [OF assms(1-3)] assms(4) by (cases execMsg) auto
  with inferFull_quiet [OF assms(1,2)] show ?thesis by (auto simp: ApplyLog_def)
qed

text \<open>A context reached by successful operations: what the last block was, and how many logs follow it.\<close>

lemma SealBlock_state:
  assumes "quiet l" and "SealBlock parent upd t l = Some (None, l')"
  shows "lc_blockHash l' = bid_hash upd \<and> lc_blockNum l' = bid_number upd \<and> lc_timestamp l' = t \<and> lc_logsSince l' = 0
     \<and> (lc_nextEntryIndex l \<noteq> 0 \<longrightarrow> lc_blockHash l = parent \<and> lc_timestamp l \<le> t
          \<and> (lc_blockHash l \<noteq> 0 \<longrightarrow> bid_number upd = lc_blockNum l + 1))"
proof -
  have "lc_need (seal_state upd t l) = 1" "lc_out (seal_state upd t l) = []"
    using assms(1) by (simp_all add: quiet_def seal_state_def flag_simps)
  note I = infer_seal [OF this]
  have "inferFull (seal_state upd t l) = Some (None, l')"
    using assms inferFull_quiet by (auto simp: SealBlock_def split: if_splits)
  with I have "lc_blockHash l' = bid_hash upd \<and> lc_blockNum l' = bid_number upd \<and> lc_timestamp l' = t \<and> lc_logsSince l' = 0"
    by (auto simp: seal_state_def need_add_def)
  moreover have "lc_nextEntryIndex l \<noteq> 0 \<longrightarrow> lc_blockHash l = parent \<and> lc_timestamp l \<le> t
          \<and> (lc_blockHash l \<noteq> 0 \<longrightarrow> bid_number upd = lc_blockNum l + 1)"
    using assms inferFull_quiet by (auto simp: SealBlock_def split: if_splits)
  ultimately show ?thesis by blast
qed

end
