(* ===== verification/Entry_Store.thy ===== *)
theory Entry_Store
  imports Super_Types
begin

text \<open>
  The stores of fixed-size entries under the databases of the supervisor
  (\<^verbatim>\<open>rhs-supervisor/supervisor/backend/db/entrydb/entry_db.go\<close>, \<^verbatim>\<open>memdb.go\<close>).

  The file of \<open>EntryDB\<close> is a list of bytes, opened for appending. Its size in bytes per entry is the
  argument \<open>sz\<close> (\<open>b.EntrySize()\<close>), and an entry is a list of \<open>sz\<close> bytes. What the file system
  does is an argument of the operations that write: a \<open>file_write\<close> that succeeds or stops after some
  bytes, and for each truncation whether it succeeds. An \<open>EntryIdx\<close> is an \<open>int\<close>.
\<close>

record entry_db =
  ed_data :: bytes
  ed_lastEntryIdx :: int
  ed_cleanupFailedWrite :: bool

datatype file_write = WriteOK | WriteFails nat

text \<open>\<open>os.File.Truncate\<close>: it cuts, or fills up with zeros; a negative size is refused.\<close>

definition file_truncate :: "nat \<Rightarrow> bytes \<Rightarrow> bytes" where
  "file_truncate n d = take n d @ replicate (n - length d) 0"

definition ed_Size :: "entry_db \<Rightarrow> int" where
  "ed_Size e = ed_lastEntryIdx e + 1"

definition ed_LastEntryIdx :: "entry_db \<Rightarrow> int" where
  "ed_LastEntryIdx e = ed_lastEntryIdx e"

definition ed_Read :: "nat \<Rightarrow> int \<Rightarrow> entry_db \<Rightarrow> super_error + bytes" where
  "ed_Read sz idx e =
     (if idx > ed_lastEntryIdx e then Inl S_EOF
      else if idx * int sz < 0 then Inl (S_New ''failed to read entry'')
      else let out = take sz (drop (nat (idx * int sz)) (ed_data e))
           in if length out < sz then Inl S_EOF else Inr out)"

definition ed_Truncate :: "nat \<Rightarrow> bool \<Rightarrow> int \<Rightarrow> entry_db \<Rightarrow> super_error option \<times> entry_db" where
  "ed_Truncate sz truncates idx e =
     (if \<not> truncates \<or> (idx + 1) * int sz < 0 then (Some (S_New ''failed to truncate''), e)
      else (None, e\<lparr>ed_data := file_truncate (nat ((idx + 1) * int sz)) (ed_data e), ed_lastEntryIdx := idx,
                    ed_cleanupFailedWrite := False\<rparr>))"

definition ed_Append :: "nat \<Rightarrow> bool \<Rightarrow> file_write \<Rightarrow> bool \<Rightarrow> bytes list \<Rightarrow> entry_db \<Rightarrow> super_error option \<times> entry_db" where
  "ed_Append sz cleans writes rollsBack entries e =
     (case (if ed_cleanupFailedWrite e then ed_Truncate sz cleans (ed_lastEntryIdx e) e else (None, e)) of
        (Some err, e) \<Rightarrow> (Some (S_New ''failed to recover from previous write error''), e)
      | (None, e) \<Rightarrow>
          (let data = concat entries
           in case writes of
                WriteFails n \<Rightarrow>
                  if n = 0 then (Some (S_New ''write''), e)
                  else let e = e\<lparr>ed_data := ed_data e @ take n data\<rparr>
                       in (case ed_Truncate sz rollsBack (ed_lastEntryIdx e) e of
                             (Some err, e) \<Rightarrow> (Some (S_New ''failed to remove partially written data''),
                                               e\<lparr>ed_cleanupFailedWrite := True\<rparr>)
                           | (None, e) \<Rightarrow> (Some (S_New ''write''), e))
              | WriteOK \<Rightarrow>
                  (None, e\<lparr>ed_data := ed_data e @ data,
                           ed_lastEntryIdx := ed_lastEntryIdx e + int (length entries)\<rparr>)))"

definition ed_recover :: "nat \<Rightarrow> entry_db \<Rightarrow> entry_db" where
  "ed_recover sz e = e\<lparr>ed_data := file_truncate (nat (ed_Size e * int sz)) (ed_data e)\<rparr>"

text \<open>The part of \<open>NewEntryDB\<close> after the file has been opened; \<open>None\<close> is the error of \<open>recover\<close>.\<close>

definition NewEntryDB :: "nat \<Rightarrow> bool \<Rightarrow> bytes \<Rightarrow> entry_db option" where
  "NewEntryDB sz truncates file =
     (let size = length file div sz;
          db = \<lparr>ed_data = file, ed_lastEntryIdx = int size - 1, ed_cleanupFailedWrite = False\<rparr>
      in if size * sz \<noteq> length file
         then if truncates then Some (ed_recover sz db) else None
         else Some db)"

section \<open>The store in memory\<close>

definition mem_Size :: "'e list \<Rightarrow> int" where
  "mem_Size es = int (length es)"

definition mem_LastEntryIdx :: "'e list \<Rightarrow> int" where
  "mem_LastEntryIdx es = mem_Size es - 1"

text \<open>A negative index panics.\<close>

definition mem_Read :: "int \<Rightarrow> 'e list \<Rightarrow> (super_error + 'e) option" where
  "mem_Read idx es =
     (if idx < int (length es) then if idx < 0 then None else Some (Inr (es ! nat idx)) else Some (Inl S_EOF))"

definition mem_Append :: "'e list \<Rightarrow> 'e list \<Rightarrow> 'e list" where
  "mem_Append entries es = es @ entries"

definition mem_Truncate :: "int \<Rightarrow> 'e list \<Rightarrow> 'e list option" where
  "mem_Truncate idx es =
     (let n = min (mem_Size es - 1) (idx + 1) in if n < 0 then None else Some (take (nat n) es))"

text \<open>Truncating to the last entry should change nothing, as it does on the file.\<close>

lemma mem_Truncate_last: "mem_Truncate (mem_LastEntryIdx (es @ [e])) (es @ [e]) = Some es"
  by (simp add: mem_Truncate_def mem_LastEntryIdx_def mem_Size_def)

section \<open>The contract\<close>

text \<open>A store as its clients see it: a list of entries that grows at the end.\<close>

locale append_store =
  fixes inv :: "'s \<Rightarrow> bool"
    and entries :: "'s \<Rightarrow> 'e list"
    and good :: "'e \<Rightarrow> bool"
    and Size :: "'s \<Rightarrow> int"
    and Read :: "int \<Rightarrow> 's \<Rightarrow> (super_error + 'e) option"
    and Append :: "'e list \<Rightarrow> 's \<Rightarrow> 's"
  assumes Size: "inv s \<Longrightarrow> Size s = int (length (entries s))"
    and Read: "inv s \<Longrightarrow> i < length (entries s) \<Longrightarrow> Read (int i) s = Some (Inr (entries s ! i))"
    and Read_EOF: "inv s \<Longrightarrow> length (entries s) \<le> i \<Longrightarrow> Read (int i) s = Some (Inl S_EOF)"
    and Append: "inv s \<Longrightarrow> list_all good es \<Longrightarrow> inv (Append es s) \<and> entries (Append es s) = entries s @ es"
begin

lemma Read_Append_old:
  "inv s \<Longrightarrow> list_all good es \<Longrightarrow> i < length (entries s) \<Longrightarrow> Read (int i) (Append es s) = Read (int i) s"
  using Append [of s es] by (simp add: Read nth_append)

lemma Read_Append_new:
  "inv s \<Longrightarrow> list_all good es \<Longrightarrow> i < length es \<Longrightarrow> Read (Size s + int i) (Append es s) = Some (Inr (es ! i))"
  using Append [of s es] Read [of "Append es s" "length (entries s) + i"] by (simp add: Size nth_append)

end

locale entry_store = append_store +
  fixes Truncate :: "int \<Rightarrow> 's \<Rightarrow> 's"
  assumes Truncate: "inv s \<Longrightarrow> n \<le> length (entries s) \<Longrightarrow> inv (Truncate (int n - 1) s)
     \<and> entries (Truncate (int n - 1) s) = take n (entries s)"
begin

lemma Truncate_Append:
  "inv s \<Longrightarrow> list_all good es \<Longrightarrow> entries (Truncate (Size s - 1) (Append es s)) = entries s"
  using Append [of s es] Truncate [of "Append es s" "length (entries s)"] by (simp add: Size)

end

text \<open>The store in memory keeps the contract of an append-only store, and not that of \<open>Truncate\<close>.\<close>

interpretation mem_store: append_store "\<lambda>_. True" id "\<lambda>_. True" mem_Size mem_Read mem_Append
  by unfold_locales (auto simp: mem_Size_def mem_Read_def mem_Append_def)

section \<open>The store on a file\<close>

fun chunks :: "nat \<Rightarrow> nat \<Rightarrow> 'a list \<Rightarrow> 'a list list" where
  "chunks sz 0 d = []"
| "chunks sz (Suc n) d = take sz d # chunks sz n (drop sz d)"

definition ed_entries :: "nat \<Rightarrow> entry_db \<Rightarrow> bytes list" where
  "ed_entries sz e = chunks sz (nat (ed_lastEntryIdx e + 1)) (ed_data e)"

text \<open>The file holds the entries, and more only while a failed write has not been cleaned up.\<close>

definition ed_inv :: "nat \<Rightarrow> entry_db \<Rightarrow> bool" where
  "ed_inv sz e \<longleftrightarrow> -1 \<le> ed_lastEntryIdx e \<and> nat (ed_lastEntryIdx e + 1) * sz \<le> length (ed_data e)
     \<and> (\<not> ed_cleanupFailedWrite e \<longrightarrow> length (ed_data e) = nat (ed_lastEntryIdx e + 1) * sz)"

lemma length_chunks [simp]: "length (chunks sz n d) = n"
  by (induction n arbitrary: d) auto

lemma nth_chunks: "i < n \<Longrightarrow> chunks sz n d ! i = take sz (drop (i * sz) d)"
proof (induction n arbitrary: i d)
  case (Suc n)
  then show ?case by (cases i) (simp_all add: add.commute)
qed simp

lemma chunks_prefix: "n * sz \<le> length d \<Longrightarrow> chunks sz n (d @ d') = chunks sz n d"
proof (induction n arbitrary: d)
  case (Suc n)
  then have "sz \<le> length d" "n * sz \<le> length (drop sz d)" by auto
  with Suc.IH [of "drop sz d"] show ?case by simp
qed simp

lemma chunks_append: "length d = n * sz \<Longrightarrow> chunks sz (n + m) (d @ d') = chunks sz n d @ chunks sz m d'"
proof (induction n arbitrary: d)
  case (Suc n)
  then have "sz \<le> length d" "length (drop sz d) = n * sz" by auto
  with Suc.IH [of "drop sz d"] show ?case by simp
qed simp

lemma chunks_concat: "list_all (\<lambda>e. length e = sz) es \<Longrightarrow> chunks sz (length es) (concat es) = es"
  by (induction es) auto

lemma chunks_take: "m \<le> n \<Longrightarrow> chunks sz m d = take m (chunks sz n d)"
proof (induction m arbitrary: n d)
  case (Suc m)
  then obtain k where "n = Suc k" "m \<le> k" by (cases n) auto
  with Suc.IH [of k "drop sz d"] show ?case by simp
qed simp

lemma length_concat_entries: "list_all (\<lambda>e. length e = sz) es \<Longrightarrow> length (concat es) = length es * sz"
  by (induction es) auto

text \<open>The operations when the file system does not fail.\<close>

definition ed_read_ok :: "nat \<Rightarrow> int \<Rightarrow> entry_db \<Rightarrow> (super_error + bytes) option" where
  "ed_read_ok sz i e = Some (ed_Read sz i e)"

definition ed_append_ok :: "nat \<Rightarrow> bytes list \<Rightarrow> entry_db \<Rightarrow> entry_db" where
  "ed_append_ok sz es e = snd (ed_Append sz True WriteOK True es e)"

definition ed_truncate_ok :: "nat \<Rightarrow> int \<Rightarrow> entry_db \<Rightarrow> entry_db" where
  "ed_truncate_ok sz i e = snd (ed_Truncate sz True i e)"

lemma ed_Read_entry:
  assumes "ed_inv sz e" and "i < length (ed_entries sz e)"
  shows "ed_Read sz (int i) e = Inr (ed_entries sz e ! i)"
proof -
  have i: "i < nat (ed_lastEntryIdx e + 1)" using assms by (simp add: ed_entries_def)
  then have "Suc i * sz \<le> nat (ed_lastEntryIdx e + 1) * sz" by (intro mult_le_mono1) simp
  with assms(1) have "i * sz + sz \<le> length (ed_data e)" by (simp add: ed_inv_def)
  moreover have "nat (int i * int sz) = i * sz" by (metis nat_int of_nat_mult)
  ultimately show ?thesis
    using i by (simp add: ed_Read_def ed_entries_def nth_chunks) (auto simp: not_less mult_less_0_iff)
qed

lemma ed_clean_Truncate:
  assumes "ed_inv sz e"
  shows "ed_Truncate sz True (ed_lastEntryIdx e) e
     = (None, e\<lparr>ed_data := take (nat (ed_lastEntryIdx e + 1) * sz) (ed_data e), ed_cleanupFailedWrite := False\<rparr>)"
proof -
  have z: "(ed_lastEntryIdx e + 1) * int sz = int (nat (ed_lastEntryIdx e + 1) * sz)"
    using assms by (simp add: ed_inv_def)
  show ?thesis using assms
    unfolding ed_Truncate_def file_truncate_def z nat_int by (simp add: ed_inv_def del: of_nat_mult)
qed

lemma ed_inv_take:
  assumes "ed_inv sz e"
  shows "ed_inv sz (e\<lparr>ed_data := take (nat (ed_lastEntryIdx e + 1) * sz) (ed_data e), ed_cleanupFailedWrite := b\<rparr>)"
    and "ed_entries sz (e\<lparr>ed_data := take (nat (ed_lastEntryIdx e + 1) * sz) (ed_data e), ed_cleanupFailedWrite := b\<rparr>)
      = ed_entries sz e"
proof -
  let ?n = "nat (ed_lastEntryIdx e + 1)"
  show "ed_inv sz (e\<lparr>ed_data := take (?n * sz) (ed_data e), ed_cleanupFailedWrite := b\<rparr>)"
    using assms by (simp add: ed_inv_def)
  have "chunks sz ?n (take (?n * sz) (ed_data e)) = chunks sz ?n (ed_data e)"
    using chunks_prefix [of ?n sz "take (?n * sz) (ed_data e)" "drop (?n * sz) (ed_data e)"] assms
    by (simp add: ed_inv_def)
  then show "ed_entries sz (e\<lparr>ed_data := take (?n * sz) (ed_data e), ed_cleanupFailedWrite := b\<rparr>) = ed_entries sz e"
    by (simp add: ed_entries_def)
qed

lemma ed_Truncate_cut:
  assumes "ed_inv sz e" and "n \<le> length (ed_entries sz e)"
  shows "ed_inv sz (ed_truncate_ok sz (int n - 1) e) \<and> ed_entries sz (ed_truncate_ok sz (int n - 1) e) = take n (ed_entries sz e)"
proof -
  have n: "n \<le> nat (ed_lastEntryIdx e + 1)" using assms(2) by (simp add: ed_entries_def)
  then have le: "n * sz \<le> length (ed_data e)"
    using assms(1) by (meson ed_inv_def mult_le_mono1 order_trans)
  have z: "(int n - 1 + 1) * int sz = int (n * sz)" by simp
  have e': "ed_truncate_ok sz (int n - 1) e
      = e\<lparr>ed_data := take (n * sz) (ed_data e), ed_lastEntryIdx := int n - 1, ed_cleanupFailedWrite := False\<rparr>"
    unfolding ed_truncate_ok_def ed_Truncate_def file_truncate_def z nat_int using le by (simp del: of_nat_mult)
  have "chunks sz n (take (n * sz) (ed_data e)) = chunks sz n (ed_data e)"
    using chunks_prefix [of n sz "take (n * sz) (ed_data e)" "drop (n * sz) (ed_data e)"] le by simp
  with n le show ?thesis by (simp add: e' ed_inv_def ed_entries_def chunks_take [OF n])
qed

text \<open>The start of \<open>Append\<close>: what a failed write left is removed, or nothing is written.\<close>

lemma ed_Append_start:
  assumes "ed_inv sz e"
  shows "\<exists>e1. ed_inv sz e1 \<and> \<not> ed_cleanupFailedWrite e1 \<and> ed_entries sz e1 = ed_entries sz e
     \<and> ed_Append sz True w b es e = ed_Append sz c w b es e1
     \<and> (\<not> ed_cleanupFailedWrite e \<longrightarrow> e1 = e)"
proof (cases "ed_cleanupFailedWrite e")
  case True
  let ?e1 = "e\<lparr>ed_data := take (nat (ed_lastEntryIdx e + 1) * sz) (ed_data e), ed_cleanupFailedWrite := False\<rparr>"
  have "ed_Append sz True w b es e = ed_Append sz c w b es ?e1"
    using True by (simp add: ed_Append_def ed_clean_Truncate [OF assms])
  with ed_inv_take [OF assms, of False] True show ?thesis by (intro exI [of _ ?e1]) simp
next
  case False
  then have "ed_Append sz True w b es e = ed_Append sz c w b es e" by (simp add: ed_Append_def)
  with False assms show ?thesis by blast
qed

lemma ed_Append_ok:
  assumes "ed_inv sz e" and "list_all (\<lambda>x. length x = sz) es"
  shows "\<exists>e'. ed_Append sz True WriteOK b es e = (None, e') \<and> ed_inv sz e' \<and> ed_entries sz e' = ed_entries sz e @ es"
proof -
  obtain e1 where e1: "ed_inv sz e1" "\<not> ed_cleanupFailedWrite e1" "ed_entries sz e1 = ed_entries sz e"
    "ed_Append sz True WriteOK b es e = ed_Append sz True WriteOK b es e1"
    using ed_Append_start [OF assms(1)] by blast
  let ?n = "nat (ed_lastEntryIdx e1 + 1)"
  let ?e' = "e1\<lparr>ed_data := ed_data e1 @ concat es, ed_lastEntryIdx := ed_lastEntryIdx e1 + int (length es)\<rparr>"
  have len: "length (ed_data e1) = ?n * sz" "-1 \<le> ed_lastEntryIdx e1" using e1 by (auto simp: ed_inv_def)
  then have n': "nat (ed_lastEntryIdx e1 + int (length es) + 1) = ?n + length es" by simp
  have "ed_inv sz ?e'"
    using e1(2) len n' by (simp add: ed_inv_def length_concat_entries [OF assms(2)] add_mult_distrib)
  moreover have "ed_entries sz ?e' = ed_entries sz e1 @ es"
    using n' chunks_append [OF len(1), of "length es" "concat es"]
    by (simp add: ed_entries_def chunks_concat [OF assms(2)])
  ultimately show ?thesis using e1 by (simp add: ed_Append_def)
qed

lemma ed_Append_fails:
  assumes "ed_inv sz e" and "ed_Append sz c w b es e = (Some err, e')"
  shows "ed_inv sz e' \<and> ed_entries sz e' = ed_entries sz e"
proof (cases "ed_cleanupFailedWrite e \<and> \<not> c")
  case True
  with assms show ?thesis by (auto simp: ed_Append_def ed_Truncate_def)
next
  case False
  then have "ed_Append sz c w b es e = ed_Append sz True w b es e" by (auto simp: ed_Append_def)
  with ed_Append_start [OF assms(1), of w b es True] obtain e1 where
    e1: "ed_inv sz e1" "\<not> ed_cleanupFailedWrite e1" "ed_entries sz e1 = ed_entries sz e"
      "ed_Append sz c w b es e = ed_Append sz True w b es e1" by auto
  then obtain n where w: "w = WriteFails n" using assms(2) by (cases w) (auto simp: ed_Append_def)
  let ?e2 = "e1\<lparr>ed_data := ed_data e1 @ take n (concat es)\<rparr>"
  let ?k = "nat (ed_lastEntryIdx e1 + 1)"
  have pre: "?k * sz \<le> length (ed_data e1)" "length (ed_data e1) = ?k * sz" using e1 by (auto simp: ed_inv_def)
  have e2: "ed_inv sz (?e2\<lparr>ed_cleanupFailedWrite := True\<rparr>)" "ed_entries sz (?e2\<lparr>ed_cleanupFailedWrite := True\<rparr>) = ed_entries sz e1"
    using e1(1) chunks_prefix [OF pre(1)] by (auto simp: ed_inv_def ed_entries_def)
  show ?thesis
  proof (cases "n = 0")
    case True
    with e1 w assms(2) show ?thesis by (simp add: ed_Append_def)
  next
    case n: False
    show ?thesis
    proof (cases b)
      case True
      have z: "(ed_lastEntryIdx e1 + 1) * int sz = int (?k * sz)" using e1(1) by (simp add: ed_inv_def)
      have "ed_Truncate sz True (ed_lastEntryIdx e1) ?e2 = (None, e1)"
        using e1(2) pre(2) unfolding ed_Truncate_def file_truncate_def z nat_int by (simp del: of_nat_mult)
      with True n w e1 assms(2) show ?thesis by (simp add: ed_Append_def)
    next
      case False
      with n w e1 e2 assms(2) show ?thesis by (simp add: ed_Append_def ed_Truncate_def)
    qed
  qed
qed

text \<open>The file-backed store keeps the whole contract.\<close>

interpretation file_store: entry_store "ed_inv sz" "ed_entries sz" "\<lambda>x. length x = sz" ed_Size "ed_read_ok sz"
  "ed_append_ok sz" "ed_truncate_ok sz"
  for sz
proof unfold_locales
  fix s :: entry_db and i :: nat and es :: "bytes list"
  show "ed_inv sz s \<Longrightarrow> ed_Size s = int (length (ed_entries sz s))"
    by (simp add: ed_Size_def ed_entries_def ed_inv_def)
  show "ed_inv sz s \<Longrightarrow> i < length (ed_entries sz s) \<Longrightarrow> ed_read_ok sz (int i) s = Some (Inr (ed_entries sz s ! i))"
    by (simp add: ed_read_ok_def ed_Read_entry)
  show "ed_inv sz s \<Longrightarrow> length (ed_entries sz s) \<le> i \<Longrightarrow> ed_read_ok sz (int i) s = Some (Inl S_EOF)"
    by (auto simp: ed_read_ok_def ed_Read_def ed_entries_def ed_inv_def)
  show "ed_inv sz s \<Longrightarrow> list_all (\<lambda>x. length x = sz) es
      \<Longrightarrow> ed_inv sz (ed_append_ok sz es s) \<and> ed_entries sz (ed_append_ok sz es s) = ed_entries sz s @ es"
    using ed_Append_ok [of sz s es True] by (auto simp: ed_append_ok_def)
  show "ed_inv sz s \<Longrightarrow> i \<le> length (ed_entries sz s) \<Longrightarrow> ed_inv sz (ed_truncate_ok sz (int i - 1) s)
      \<and> ed_entries sz (ed_truncate_ok sz (int i - 1) s) = take i (ed_entries sz s)"
    by (rule ed_Truncate_cut)
qed

lemma NewEntryDB_inv:
  assumes "NewEntryDB sz truncates file = Some e"
  shows "ed_inv sz e \<and> ed_entries sz e = chunks sz (length file div sz) file"
proof -
  let ?n = "length file div sz"
  have le: "?n * sz \<le> length file" by (rule div_times_less_eq_dividend)
  have c: "chunks sz ?n (take (?n * sz) file) = chunks sz ?n file"
    using chunks_prefix [of ?n sz "take (?n * sz) file" "drop (?n * sz) file"] le by simp
  have z: "nat (int ?n * int sz) = ?n * sz" by (metis nat_int of_nat_mult)
  show ?thesis
  proof (cases "?n * sz = length file")
    case True
    with assms show ?thesis by (auto simp: NewEntryDB_def Let_def ed_inv_def ed_entries_def)
  next
    case False
    with assms have "e = \<lparr>ed_data = take (?n * sz) file, ed_lastEntryIdx = int ?n - 1, ed_cleanupFailedWrite = False\<rparr>"
      using le z by (auto simp: NewEntryDB_def Let_def ed_recover_def ed_Size_def file_truncate_def split: if_splits)
    with c le show ?thesis by (simp add: ed_inv_def ed_entries_def)
  qed
qed

section \<open>Failing writes\<close>

text \<open>A run of appends, each with what the file system does to it, and the entries of those that reported
  success.\<close>

type_synonym append_call = "bool \<times> file_write \<times> bool \<times> bytes list"

fun append_run :: "nat \<Rightarrow> append_call list \<Rightarrow> entry_db \<Rightarrow> bytes list \<times> entry_db" where
  "append_run sz [] e = ([], e)"
| "append_run sz ((c, w, b, es) # calls) e =
     (case ed_Append sz c w b es e of
        (Some err, e) \<Rightarrow> append_run sz calls e
      | (None, e) \<Rightarrow> (let (written, e) = append_run sz calls e in (es @ written, e)))"

lemma ed_Append_success:
  assumes "ed_inv sz e" and "list_all (\<lambda>x. length x = sz) es" and "ed_Append sz c w b es e = (None, e')"
  shows "ed_inv sz e' \<and> ed_entries sz e' = ed_entries sz e @ es"
proof -
  have c: "ed_cleanupFailedWrite e \<Longrightarrow> c" and w: "w = WriteOK"
    using assms(3) by (auto simp: ed_Append_def ed_Truncate_def Let_def split: if_splits file_write.splits option.splits prod.splits)
  then have "ed_Append sz c w b es e = ed_Append sz True WriteOK b es e"
    by (cases "ed_cleanupFailedWrite e") (auto simp: ed_Append_def)
  with ed_Append_ok [OF assms(1,2), of b] assms(3) show ?thesis by simp
qed

text \<open>C17: the entries of a file-backed store are exactly the batches whose \<open>Append\<close> reported success, in
  order, whatever the file system did to the writes and to the attempts to roll them back: a failed
  write never leaves a partial batch among the entries.\<close>
theorem append_run_entries:
  assumes "ed_inv sz e" and "list_all (\<lambda>(c, w, b, es). list_all (\<lambda>x. length x = sz) es) calls"
  shows "ed_inv sz (snd (append_run sz calls e))
    \<and> ed_entries sz (snd (append_run sz calls e)) = ed_entries sz e @ fst (append_run sz calls e)"
  using assms
proof (induction calls arbitrary: e)
  case (Cons call calls)
  obtain c w b es where call: "call = (c, w, b, es)" by (cases call)
  obtain r e' where r: "ed_Append sz c w b es e = (r, e')" by (cases "ed_Append sz c w b es e")
  have "ed_inv sz e' \<and> ed_entries sz e' = ed_entries sz e @ (if r = None then es else [])"
    using ed_Append_success [of sz e es c w b e'] ed_Append_fails [of sz e c w b es _ e'] Cons.prems r call
    by (cases r) auto
  with Cons.IH [of e'] Cons.prems(2) r call show ?case
    by (cases r) (auto simp: case_prod_beta Let_def)
qed simp

theorem append_run_entries_witness:
  "ed_entries 2 (snd (append_run 2 [(True, WriteOK, True, [[1, 2]]), (True, WriteFails 1, False, [[3, 4]]),
       (True, WriteOK, True, [[5, 6]])] \<lparr>ed_data = [], ed_lastEntryIdx = -1, ed_cleanupFailedWrite = False\<rparr>))
     = [[1, 2], [5, 6]]"
proof -
  let ?e = "\<lparr>ed_data = [], ed_lastEntryIdx = -1, ed_cleanupFailedWrite = False\<rparr>"
  have "ed_inv 2 ?e" by (simp add: ed_inv_def)
  from append_run_entries [OF this, of "[(True, WriteOK, True, [[1, 2]]), (True, WriteFails 1, False, [[3, 4]]),
       (True, WriteOK, True, [[5, 6]])]"]
  show ?thesis by (simp add: ed_entries_def ed_Append_def ed_Truncate_def file_truncate_def Let_def)
qed

end
