(* ===== verification/Logs_DB.thy ===== *)
theory Logs_DB
  imports Log_Context Entry_Store
begin

text \<open>
  The log database (\<^verbatim>\<open>rhs-supervisor/supervisor/backend/db/logs/db.go\<close>) and its iterator
  (\<^verbatim>\<open>iterator.go\<close>). The store is the list of its entries, which is what the stores of
  \<open>Entry_Store\<close> amount to for their clients as long as the file system does not fail. A panic is
  \<open>None\<close>. The hash function of a checksum is the parameter \<open>keccak\<close>. The read-write lock makes
  every method one atomic step; the counters for the metrics are left out.
\<close>

section \<open>The iterator\<close>

text \<open>\<open>next\<close>: the type of the entry that was read, and the context after it.\<close>

definition it_next :: "log_entry list \<Rightarrow> log_context \<Rightarrow> (super_error + u8 \<times> log_context) option" where
  "it_next store c =
     (if lc_nextEntryIndex c < length store
      then let entry = store ! lc_nextEntryIndex c
           in (case ApplyEntry entry c of
                 None \<Rightarrow> None
               | Some (Inl err) \<Rightarrow> Some (Inl err)
               | Some (Inr c') \<Rightarrow> Some (Inr (entry_Type entry, c')))
      else Some (Inl ErrFuture))"

lemma processEntry_index: "processEntry e c = Some (Inr c') \<Longrightarrow> lc_nextEntryIndex c' = Suc (lc_nextEntryIndex c)"
  by (auto simp: processEntry_def process_checkpoint_def process_canonical_def process_event_def process_link_def
      process_check_def process_padding_def need_add_def need_remove_def Let_def
      split: if_splits sum.splits option.splits)

lemma it_next_index:
  assumes "it_next store c = Some (Inr (t, c'))"
  shows "lc_nextEntryIndex c' = Suc (lc_nextEntryIndex c)" "lc_nextEntryIndex c < length store"
  using assms processEntry_index
  by (auto simp: it_next_def ApplyEntry_def Let_def split: if_splits option.splits sum.splits)

abbreviation unread :: "log_entry list \<Rightarrow> log_context \<Rightarrow> nat" where
  "unread store c \<equiv> length store - lc_nextEntryIndex c"

lemma it_next_unread [termination_simp]:
  "it_next store c = Some (Inr (t, c')) \<Longrightarrow> unread store c' < unread store c"
  using it_next_index [of store c t c'] by simp

function it_End :: "log_entry list \<Rightarrow> log_context \<Rightarrow> (super_error option \<times> log_context) option" where
  "it_End store c =
     (case it_next store c of
        None \<Rightarrow> None
      | Some (Inl err) \<Rightarrow> Some (if err = ErrFuture then None else Some err, c)
      | Some (Inr (_, c')) \<Rightarrow> it_End store c')"
  by auto
termination by (relation "measure (\<lambda>(store, c). unread store c)") (auto dest: it_next_unread)

function next_init :: "bool \<Rightarrow> log_entry list \<Rightarrow> log_context \<Rightarrow> (super_error option \<times> log_context) option" where
  "next_init seenLog store c =
     (case it_next store c of
        None \<Rightarrow> None
      | Some (Inl err) \<Rightarrow> Some (Some err, c)
      | Some (Inr (t, c')) \<Rightarrow>
          let seenLog = (seenLog \<or> t = TypeInitiatingEvent)
          in if \<not> hasCompleteBlock c' then next_init seenLog store c'
             else if hasIncompleteLog c' then next_init seenLog store c'
             else if seenLog then Some (None, c')
             else next_init seenLog store c')"
  by auto
termination by (relation "measure (\<lambda>(_, store, c). unread store c)") (auto dest: it_next_unread)

definition NextInitMsg :: "log_entry list \<Rightarrow> log_context \<Rightarrow> (super_error option \<times> log_context) option" where
  "NextInitMsg store c = next_init False store c"

function next_block :: "bool \<Rightarrow> log_entry list \<Rightarrow> log_context \<Rightarrow> (super_error option \<times> log_context) option" where
  "next_block seenBlock store c =
     (case it_next store c of
        None \<Rightarrow> None
      | Some (Inl err) \<Rightarrow> Some (Some err, c)
      | Some (Inr (t, c')) \<Rightarrow>
          let seenBlock = (seenBlock \<or> t = TypeSearchCheckpoint)
          in if \<not> hasCompleteBlock c' then next_block seenBlock store c'
             else if seenBlock then Some (None, c')
             else next_block seenBlock store c')"
  by auto
termination by (relation "measure (\<lambda>(_, store, c). unread store c)") (auto dest: it_next_unread)

definition NextBlock :: "log_entry list \<Rightarrow> log_context \<Rightarrow> (super_error option \<times> log_context) option" where
  "NextBlock store c = next_block False store c"

text \<open>\<open>TraverseConditional\<close>, with the state of the closure \<open>fn\<close> as an argument of its own.\<close>

function TraverseConditional ::
  "(log_context \<Rightarrow> 's \<Rightarrow> super_error option \<times> 's) \<Rightarrow> log_entry list \<Rightarrow> log_context \<Rightarrow> 's
     \<Rightarrow> (super_error \<times> log_context \<times> 's) option" where
  "TraverseConditional fn store c s =
     (case it_next store c of
        None \<Rightarrow> None
      | Some (Inl err) \<Rightarrow> Some (err, c, s)
      | Some (Inr (_, c')) \<Rightarrow>
          if lc_need c' \<noteq> 0 then TraverseConditional fn store c' s
          else (case fn c' s of
                  (None, s) \<Rightarrow> TraverseConditional fn store c' s
                | (Some err, s) \<Rightarrow> Some (err, if err = ErrStop then c' else c, s)))"
  by auto
termination by (relation "measure (\<lambda>(_, store, c, _). unread store c)") (auto dest: it_next_unread)

declare it_End.simps [simp del] next_init.simps [simp del] next_block.simps [simp del] TraverseConditional.simps [simp del]

lemma next_init_index:
  "next_init b store c = Some (None, c') \<Longrightarrow> lc_nextEntryIndex c < lc_nextEntryIndex c' \<and> lc_nextEntryIndex c' \<le> length store"
proof (induction "unread store c" arbitrary: b c rule: less_induct)
  case less
  from less.prems obtain t d where d: "it_next store c = Some (Inr (t, d))"
    by (subst (asm) next_init.simps) (auto split: option.splits sum.splits)
  note I = it_next_index [OF d]
  have "d = c' \<or> next_init (b \<or> t = TypeInitiatingEvent) store d = Some (None, c')"
    using less.prems d by (subst (asm) next_init.simps) (auto simp: Let_def split: if_splits)
  with less.hyps [OF it_next_unread [OF d], of "b \<or> t = TypeInitiatingEvent"] I show ?case by auto
qed

function NextExecMsg :: "log_entry list \<Rightarrow> log_context \<Rightarrow> (super_error option \<times> log_context) option" where
  "NextExecMsg store c =
     (case NextInitMsg store c of
        None \<Rightarrow> None
      | Some (Some err, c') \<Rightarrow> Some (Some err, c')
      | Some (None, c') \<Rightarrow> if lc_execMsg c' \<noteq> None then Some (None, c') else NextExecMsg store c')"
  by auto
termination
proof (relation "measure (\<lambda>(store, c). unread store c)", goal_cases)
  case (2 store c r y z)
  then have "next_init False store c = Some (None, z)" by (simp add: NextInitMsg_def)
  from next_init_index [OF this] have "lc_nextEntryIndex c < lc_nextEntryIndex z" "lc_nextEntryIndex z \<le> length store" by simp_all
  then show ?case by (simp add: diff_less_mono2)
qed simp

declare NextExecMsg.simps [simp del]

lemma next_block_index:
  "next_block b store c = Some (None, c') \<Longrightarrow> lc_nextEntryIndex c < lc_nextEntryIndex c' \<and> lc_nextEntryIndex c' \<le> length store"
proof (induction "unread store c" arbitrary: b c rule: less_induct)
  case less
  from less.prems obtain t d where d: "it_next store c = Some (Inr (t, d))"
    by (subst (asm) next_block.simps) (auto split: option.splits sum.splits)
  note I = it_next_index [OF d]
  have "d = c' \<or> next_block (b \<or> t = TypeSearchCheckpoint) store d = Some (None, c')"
    using less.prems d by (subst (asm) next_block.simps) (auto simp: Let_def split: if_splits)
  with less.hyps [OF it_next_unread [OF d], of "b \<or> t = TypeSearchCheckpoint"] I show ?case by auto
qed

section \<open>The database\<close>

record log_db =
  db_store :: "log_entry list"
  db_chainID :: hash
  db_lastEntryContext :: log_context

text \<open>\<open>newIterator\<close>: a zero context at an index.\<close>

definition newIterator :: "nat \<Rightarrow> log_context" where
  "newIterator index = zero_context\<lparr>lc_nextEntryIndex := index\<rparr>"

text \<open>\<open>trimToLastSealed\<close>: the number of entries that are left.\<close>

fun trim_loop :: "log_entry list \<Rightarrow> nat \<Rightarrow> nat" where
  "trim_loop store 0 = 0"
| "trim_loop store (Suc i) = (if entry_Type (store ! i) = TypeCanonicalHash then Suc i else trim_loop store i)"

definition trimToLastSealed :: "log_db \<Rightarrow> log_db" where
  "trimToLastSealed db = db\<lparr>db_store := take (trim_loop (db_store db) (length (db_store db))) (db_store db)\<rparr>"

definition db_init :: "bool \<Rightarrow> log_db \<Rightarrow> (super_error option \<times> log_db) option" where
  "db_init trim db =
     (let db = (if trim then trimToLastSealed db else db)
      in if db_store db = [] then Some (None, db\<lparr>db_lastEntryContext := zero_context\<rparr>)
         else let lastCheckpoint = ((length (db_store db) - 1) div searchCheckpointFrequency) * searchCheckpointFrequency
              in (case it_End (db_store db) (need_add FlagCanonicalHash (newIterator lastCheckpoint)) of
                    None \<Rightarrow> None
                  | Some (Some err, c) \<Rightarrow> Some (Some err, db)
                  | Some (None, c) \<Rightarrow> Some (None, db\<lparr>db_lastEntryContext := c\<rparr>)))"

definition NewFromEntryStore :: "hash \<Rightarrow> log_entry list \<Rightarrow> bool \<Rightarrow> (super_error + log_db) option" where
  "NewFromEntryStore chainID store trim =
     (case db_init trim \<lparr>db_store = store, db_chainID = chainID, db_lastEntryContext = zero_context\<rparr> of
        None \<Rightarrow> None
      | Some (Some err, db) \<Rightarrow> Some (Inl err)
      | Some (None, db) \<Rightarrow> Some (Inr db))"

section \<open>Searching\<close>

definition readSearchCheckpoint :: "log_db \<Rightarrow> nat \<Rightarrow> super_error + search_checkpoint" where
  "readSearchCheckpoint db entryIdx =
     (if entryIdx < length (db_store db) then newSearchCheckpointFromEntry (db_store db ! entryIdx) else Inl S_EOF)"

definition cp_before :: "search_checkpoint \<Rightarrow> u64 \<Rightarrow> u32 \<Rightarrow> bool" where
  "cp_before checkpoint sealedBlockNum logsSince \<longleftrightarrow>
     cp_blockNum checkpoint < sealedBlockNum
     \<or> (cp_blockNum checkpoint = sealedBlockNum \<and> cp_logsSince checkpoint < logsSince)"

function search_loop :: "log_db \<Rightarrow> u64 \<Rightarrow> u32 \<Rightarrow> nat \<Rightarrow> nat \<Rightarrow> super_error + nat \<times> nat" where
  "search_loop db sealedBlockNum logsSince i j =
     (if i + 1 < j
      then let h = (i + j) div 2
           in (case readSearchCheckpoint db (h * searchCheckpointFrequency) of
                 Inl err \<Rightarrow> Inl err
               | Inr checkpoint \<Rightarrow>
                   if cp_before checkpoint sealedBlockNum logsSince
                   then search_loop db sealedBlockNum logsSince h j
                   else search_loop db sealedBlockNum logsSince i h)
      else Inr (i, j))"
  by auto
termination by (relation "measure (\<lambda>(db, n, l, i, j). j - i)") auto

declare search_loop.simps [simp del]

definition searchCheckpoint :: "log_db \<Rightarrow> u64 \<Rightarrow> u32 \<Rightarrow> (super_error + nat) option" where
  "searchCheckpoint db sealedBlockNum logsSince =
     (if lc_nextEntryIndex (db_lastEntryContext db) = 0 then Some (Inl ErrFuture)
      else let n = (length (db_store db) - 1) div searchCheckpointFrequency + 1
           in (case search_loop db sealedBlockNum logsSince 0 n of
                 Inl err \<Rightarrow> Some (Inl err)
               | Inr (i, j) \<Rightarrow>
                   if i + 1 \<noteq> j then None
                   else let result = i * searchCheckpointFrequency
                        in (case readSearchCheckpoint db result of
                              Inl err \<Rightarrow> Some (Inl err)
                            | Inr checkpoint \<Rightarrow>
                                if cp_blockNum checkpoint > sealedBlockNum
                                   \<or> (cp_blockNum checkpoint = sealedBlockNum \<and> cp_logsSince checkpoint > logsSince)
                                then Some (Inl ErrSkipped)
                                else Some (Inr result))))"

text \<open>The first loop of \<open>newIteratorAt\<close>, up to the block.\<close>

function find_block :: "log_entry list \<Rightarrow> u64 \<Rightarrow> log_context \<Rightarrow> (super_error + log_context) option" where
  "find_block store blockNum c =
     (if (case SealedBlock c of Some (h, n) \<Rightarrow> n = blockNum | None \<Rightarrow> False) then Some (Inr c)
      else case NextBlock store c of
             None \<Rightarrow> None
           | Some (Some err, c') \<Rightarrow> Some (Inl err)
           | Some (None, c') \<Rightarrow>
               (case SealedBlock c' of
                  None \<Rightarrow> None
                | Some (h, num) \<Rightarrow>
                    if num < blockNum then find_block store blockNum c'
                    else if num \<noteq> blockNum then Some (Inl ErrConflict)
                    else Some (Inr c')))"
  by auto
termination
proof (relation "measure (\<lambda>(store, _, c). unread store c)", goal_cases)
  case (2 store blockNum c r o1 c' h num)
  then have "next_block False store c = Some (None, c')" by (simp add: NextBlock_def)
  from next_block_index [OF this] have "lc_nextEntryIndex c < lc_nextEntryIndex c'" "lc_nextEntryIndex c' \<le> length store" by simp_all
  then show ?case by (simp add: diff_less_mono2)
qed simp

declare find_block.simps [simp del]

text \<open>The second loop, up to the log.\<close>

function seek_log :: "log_entry list \<Rightarrow> u64 \<Rightarrow> u32 \<Rightarrow> log_context \<Rightarrow> (super_error + log_context) option" where
  "seek_log store blockNum logIndex c =
     (if lc_logsSince c < logIndex
      then (case NextInitMsg store c of
              None \<Rightarrow> None
            | Some (Some err, c') \<Rightarrow> Some (Inl (if err = S_EOF then ErrFuture else err))
            | Some (None, c') \<Rightarrow>
                (case SealedBlock c' of
                   None \<Rightarrow> None
                 | Some (h, num) \<Rightarrow>
                     if num > blockNum then Some (Inl ErrConflict)
                     else (case InitMessage c' of
                             None \<Rightarrow> None
                           | Some (_, idx) \<Rightarrow>
                               if idx + 1 < logIndex then seek_log store blockNum logIndex c'
                               else if idx + 1 = logIndex then Some (Inr c')
                               else Some (Inl (S_New ''unexpected log-skip'')))))
      else Some (Inr c))"
  by auto
termination
proof (relation "measure (\<lambda>(store, _, _, c). unread store c)", goal_cases)
  case (2 store blockNum logIndex c r o1 c' h num)
  then have "next_init False store c = Some (None, c')" by (simp add: NextInitMsg_def)
  from next_init_index [OF this] have "lc_nextEntryIndex c < lc_nextEntryIndex c'" "lc_nextEntryIndex c' \<le> length store" by simp_all
  then show ?case by (simp add: diff_less_mono2)
qed simp

declare seek_log.simps [simp del]

definition newIteratorAt :: "log_db \<Rightarrow> u64 \<Rightarrow> u32 \<Rightarrow> (super_error + log_context) option" where
  "newIteratorAt db blockNum logIndex =
     (case searchCheckpoint db blockNum logIndex of
        None \<Rightarrow> None
      | Some (Inl err) \<Rightarrow> Some (Inl (if err = S_EOF then ErrFuture else err))
      | Some (Inr searchCheckpointIndex) \<Rightarrow>
          (case find_block (db_store db) blockNum
                  (need_add FlagCanonicalHash (newIterator searchCheckpointIndex)) of
             None \<Rightarrow> None
           | Some (Inl err) \<Rightarrow> Some (Inl err)
           | Some (Inr c) \<Rightarrow> seek_log (db_store db) blockNum logIndex c))"

section \<open>Queries\<close>

definition FindSealedBlock :: "log_db \<Rightarrow> u64 \<Rightarrow> (super_error + block_seal) option" where
  "FindSealedBlock db number =
     (case newIteratorAt db number 0 of
        None \<Rightarrow> None
      | Some (Inl err) \<Rightarrow> Some (Inl err)
      | Some (Inr c) \<Rightarrow>
          (case SealedBlock c of
             None \<Rightarrow> None
           | Some (h, n) \<Rightarrow>
               if n \<noteq> number then None
               else (case SealedTimestamp c of
                       None \<Rightarrow> None
                     | Some timestamp \<Rightarrow> Some (Inr \<lparr>seal_Hash = h, seal_Number = n, seal_Timestamp = timestamp\<rparr>))))"

definition StartingBlock :: "log_db \<Rightarrow> (super_error + block_seal) option" where
  "StartingBlock db =
     (case NextBlock (db_store db) (newIterator 0) of
        None \<Rightarrow> None
      | Some (Some err, _) \<Rightarrow> Some (Inl err)
      | Some (None, c) \<Rightarrow>
          let (h, n) = (case SealedBlock c of Some x \<Rightarrow> x | None \<Rightarrow> (0, 0));
              t = (case SealedTimestamp c of Some t \<Rightarrow> t | None \<Rightarrow> 0)
          in Some (Inr \<lparr>seal_Hash = h, seal_Number = n, seal_Timestamp = t\<rparr>))"

text \<open>What the closure of \<open>OpenBlock\<close> writes: the block reference, the count of logs and the executing messages.\<close>

type_synonym open_state = "block_ref \<times> u32 \<times> (u32, executing_message) gomap"

definition open_visit :: "u64 \<Rightarrow> log_context \<Rightarrow> open_state \<Rightarrow> super_error option \<times> open_state" where
  "open_visit blockNum c s =
     (case s of (ref, logCount, execMsgs) \<Rightarrow>
        let (logIndex, logCount) = (case InitMessage c of Some (_, i) \<Rightarrow> (i, i + 1) | None \<Rightarrow> (0, logCount));
            execMsgs = (case ExecMessage c of Some m \<Rightarrow> gm_put logIndex m execMsgs | None \<Rightarrow> execMsgs)
        in case SealedBlock c of
             None \<Rightarrow> (None, ref, logCount, execMsgs)
           | Some (h, n) \<Rightarrow>
               if n = blockNum
               then (Some ErrStop, ref\<lparr>l1_number := n, l1_hash := h,
                       l1_time := (case SealedTimestamp c of Some t \<Rightarrow> t | None \<Rightarrow> 0)\<rparr>, logCount, execMsgs)
               else if n > blockNum then (Some ErrDataCorruption, ref, logCount, execMsgs)
               else (None, ref, logCount, execMsgs))"

text \<open>The error is returned next to the results, which may be partial.\<close>

definition OpenBlock :: "log_db \<Rightarrow> u64 \<Rightarrow> (super_error option \<times> open_state) option" where
  "OpenBlock db blockNum =
     (if blockNum = 0
      then case StartingBlock db of
             None \<Rightarrow> None
           | Some (Inl err) \<Rightarrow> Some (Some err, zero_l1, 0, [])
           | Some (Inr seal) \<Rightarrow>
               Some (None, \<lparr>l1_hash = seal_Hash seal, l1_number = seal_Number seal, l1_parent = 0,
                            l1_time = seal_Timestamp seal\<rparr>, 0, [])
      else case newIteratorAt db (blockNum - 1) 0 of
             None \<Rightarrow> None
           | Some (Inl err) \<Rightarrow> Some (Some err, zero_l1, 0, [])
           | Some (Inr c) \<Rightarrow>
               let ref = (case SealedBlock c of Some (parentHash, _) \<Rightarrow> zero_l1\<lparr>l1_parent := parentHash\<rparr> | None \<Rightarrow> zero_l1)
               in map_option (\<lambda>(err, _, s). (if err = ErrStop then None else Some err, s))
                    (TraverseConditional (open_visit blockNum) (db_store db) c (ref, 0, [])))"

definition LatestSealedBlock :: "log_db \<Rightarrow> block_id option" where
  "LatestSealedBlock db =
     (if lc_nextEntryIndex (db_lastEntryContext db) = 0 then None
      else Some \<lparr>bid_hash = lc_blockHash (db_lastEntryContext db), bid_number = lc_blockNum (db_lastEntryContext db)\<rparr>)"

definition findLogInfo :: "log_db \<Rightarrow> u64 \<Rightarrow> u32 \<Rightarrow> (super_error + hash \<times> log_context) option" where
  "findLogInfo db blockNum logIdx =
     (if blockNum = 0 then Some (Inl ErrConflict)
      else case newIteratorAt db (blockNum - 1) logIdx of
             None \<Rightarrow> None
           | Some (Inl err) \<Rightarrow> Some (Inl err)
           | Some (Inr c) \<Rightarrow>
               (case NextInitMsg (db_store db) c of
                  None \<Rightarrow> None
                | Some (Some err, _) \<Rightarrow> Some (Inl err)
                | Some (None, c) \<Rightarrow>
                    (case SealedBlock c of
                       None \<Rightarrow> None
                     | Some (_, x) \<Rightarrow>
                         if x < blockNum - 1 then None
                         else if x > blockNum - 1 then Some (Inl ErrConflict)
                         else (case InitMessage c of
                                 None \<Rightarrow> None
                               | Some (logHash, x) \<Rightarrow> if x \<noteq> logIdx then None else Some (Inr (logHash, c))))))"

definition contains_visit :: "u64 \<Rightarrow> log_context \<Rightarrow> unit \<Rightarrow> super_error option \<times> unit" where
  "contains_visit blockNum c s =
     (case SealedBlock c of
        None \<Rightarrow> (None, s)
      | Some (_, n) \<Rightarrow>
          if n = blockNum then (Some ErrStop, s)
          else if n > blockNum then (Some ErrDataCorruption, s)
          else (None, s))"

definition Contains :: "(bytes \<Rightarrow> hash) \<Rightarrow> log_db \<Rightarrow> contains_query \<Rightarrow> (super_error + block_seal) option" where
  "Contains keccak db query =
     (let blockNum = cq_BlockNum query; logIdx = cq_LogIdx query; timestamp = cq_Timestamp query;
          ctx = db_lastEntryContext db
      in if hasCompleteBlock ctx \<and> lc_blockNum ctx < blockNum
         then Some (Inl (if lc_timestamp ctx > timestamp then ErrConflict else ErrFuture))
         else case findLogInfo db blockNum logIdx of
                None \<Rightarrow> None
              | Some (Inl err) \<Rightarrow>
                  Some (Inl (if err = ErrFuture \<and> hasCompleteBlock ctx then ErrConflict else err))
              | Some (Inr (entryLogHash, c)) \<Rightarrow>
                  (case TraverseConditional (contains_visit blockNum) (db_store db) c () of
                     None \<Rightarrow> None
                   | Some (err, c, _) \<Rightarrow>
                       if err = ErrStop
                       then (case SealedBlock c of
                               None \<Rightarrow> Some (Inl (S_New ''iterator stopped but no sealed block found''))
                             | Some (h, n) \<Rightarrow>
                                 let t = (case SealedTimestamp c of Some t \<Rightarrow> t | None \<Rightarrow> 0)
                                 in if t \<noteq> timestamp then Some (Inl ErrConflict)
                                    else if Checksum keccak \<lparr>ca_BlockNumber = n, ca_LogIndex = logIdx, ca_Timestamp = t,
                                              ca_ChainID = db_chainID db, ca_LogHash = entryLogHash\<rparr> \<noteq> cq_Checksum query
                                    then Some (Inl ErrConflict)
                                    else Some (Inr \<lparr>seal_Hash = h, seal_Number = n, seal_Timestamp = t\<rparr>))
                       else Some (Inl err)))"

section \<open>Writing\<close>

definition flush :: "log_db \<Rightarrow> log_db" where
  "flush db = db\<lparr>db_store := db_store db @ lc_out (db_lastEntryContext db),
                 db_lastEntryContext := (db_lastEntryContext db)\<lparr>lc_out := []\<rparr>\<rparr>"

definition db_SealBlock :: "hash \<Rightarrow> block_id \<Rightarrow> u64 \<Rightarrow> log_db \<Rightarrow> (super_error option \<times> log_db) option" where
  "db_SealBlock parentHash block timestamp db =
     (case SealBlock parentHash block timestamp (db_lastEntryContext db) of
        None \<Rightarrow> None
      | Some (Some err, c) \<Rightarrow> Some (Some err, db\<lparr>db_lastEntryContext := c\<rparr>)
      | Some (None, c) \<Rightarrow> Some (None, flush (db\<lparr>db_lastEntryContext := c\<rparr>)))"

definition AddLog ::
  "hash \<Rightarrow> block_id \<Rightarrow> u32 \<Rightarrow> executing_message option \<Rightarrow> log_db \<Rightarrow> (super_error option \<times> log_db) option" where
  "AddLog logHash parentBlock logIdx execMsg db =
     (case ApplyLog parentBlock logIdx logHash execMsg (db_lastEntryContext db) of
        None \<Rightarrow> None
      | Some (Some err, c) \<Rightarrow> Some (Some err, db\<lparr>db_lastEntryContext := c\<rparr>)
      | Some (None, c) \<Rightarrow> Some (None, flush (db\<lparr>db_lastEntryContext := c\<rparr>)))"

definition Rewind :: "block_id \<Rightarrow> log_db \<Rightarrow> (super_error option \<times> log_db) option" where
  "Rewind newHead db =
     (case newIteratorAt db (bid_number newHead) 0 of
        None \<Rightarrow> None
      | Some (Inl err) \<Rightarrow> Some (Some err, db)
      | Some (Inr c) \<Rightarrow>
          (case SealedBlock c of
             None \<Rightarrow> Some (Some ErrDataCorruption, db)
           | Some (hash, num) \<Rightarrow>
               if hash \<noteq> bid_hash newHead then Some (Some ErrConflict, db)
               else db_init True (db\<lparr>db_store := take (lc_nextEntryIndex c) (db_store db)\<rparr>)))"

end
