(* ===== verification/Logs_Replay.thy ===== *)
theory Logs_Replay
  imports Logs_DB
begin

text \<open>
  What the entries of the log database say: the context a reader rebuilds from them, and the chain of blocks
  and logs they stand for, which is the abstract database.
\<close>

section \<open>Contexts that differ only in the log they have seen last\<close>

text \<open>A context rebuilt from a checkpoint in the middle of a block does not know the last log.\<close>

definition ctx_sim :: "log_context \<Rightarrow> log_context \<Rightarrow> bool" where
  "ctx_sim a b \<longleftrightarrow> lc_nextEntryIndex b = lc_nextEntryIndex a \<and> lc_blockHash b = lc_blockHash a
     \<and> lc_blockNum b = lc_blockNum a \<and> lc_timestamp b = lc_timestamp a \<and> lc_logsSince b = lc_logsSince a
     \<and> lc_need b = lc_need a \<and> lc_out b = lc_out a
     \<and> (flag_Any (lc_need a) FlagExecutingCheck \<and> \<not> flag_Any (lc_need a) FlagExecutingLink
          \<longrightarrow> lc_execMsg a = lc_execMsg b)"

lemma ctx_sim_refl [simp]: "ctx_sim a a"
  by (simp add: ctx_sim_def)

lemma ctx_sim_fields:
  assumes "ctx_sim a b"
  shows "lc_nextEntryIndex b = lc_nextEntryIndex a" "lc_blockHash b = lc_blockHash a" "lc_blockNum b = lc_blockNum a"
    "lc_timestamp b = lc_timestamp a" "lc_logsSince b = lc_logsSince a" "lc_need b = lc_need a" "lc_out b = lc_out a"
  using assms by (auto simp: ctx_sim_def)

lemma flag_frame:
  fixes x :: u8
  shows "(x OR 2) AND 16 = x AND 16" "(x OR 2) AND 8 = x AND 8" "(x AND - 3) AND 16 = x AND 16"
    "(x AND - 3) AND 8 = x AND 8" "(x AND - 33) AND 16 = x AND 16" "(x AND - 33) AND 8 = x AND 8"
    "(x AND - 65) AND 16 = x AND 16" "(x AND - 65) AND 8 = x AND 8" "(x AND - 17) AND 16 = 0"
  by (simp_all add: and.assoc bit.conj_disj_distrib2)

lemma processEntry_sim:
  assumes "ctx_sim a b" and "processEntry e a = Some (Inr a')"
  shows "\<exists>b'. processEntry e b = Some (Inr b') \<and> ctx_sim a' b'"
proof -
  define h where "h = lc_logHash b"
  define m where "m = lc_execMsg b"
  have b: "b = a\<lparr>lc_logHash := h, lc_execMsg := m\<rparr>"
    using assms(1) by (intro log_context.equality) (simp_all add: ctx_sim_def h_def m_def)
  have m: "flag_Any (lc_need a) FlagExecutingCheck \<and> \<not> flag_Any (lc_need a) FlagExecutingLink \<longrightarrow> lc_execMsg a = m"
    using assms(1) by (simp add: ctx_sim_def m_def)
  note defs = processEntry_def b need_add_def need_remove_def flag_ops flag_values flag_frame ctx_sim_def Let_def
  have out: "lc_out a = []" using assms(2) by (auto simp: processEntry_def split: if_splits)
  consider "entry_Type e = TypeSearchCheckpoint" | "entry_Type e = TypeCanonicalHash" | "entry_Type e = TypeInitiatingEvent"
    | "entry_Type e = TypeExecutingLink" | "entry_Type e = TypeExecutingCheck" | "entry_Type e = TypePadding"
    using assms(2) out by (auto simp: processEntry_def Let_def split: if_splits)
  then show ?thesis
  proof cases
    case 1
    with assms(2) m out show ?thesis
      by (auto simp: defs process_checkpoint_def type_values split: sum.splits if_splits)
  next
    case 2
    with assms(2) m out show ?thesis
      by (auto simp: defs process_canonical_def type_values split: sum.splits if_splits)
  next
    case 3
    with assms(2) m out show ?thesis
      by (auto simp: defs process_event_def hasCompleteBlock_def hasIncompleteLog_def type_values split: sum.splits if_splits)
  next
    case 4
    with assms(2) m out show ?thesis
      by (auto simp: defs process_link_def type_values split: sum.splits if_splits)
  next
    case 5
    with assms(2) m out show ?thesis
      by (auto simp: defs process_check_def type_values split: sum.splits if_splits option.splits)
  next
    case 6
    with assms(2) m out show ?thesis
      by (auto simp: defs process_padding_def type_values split: if_splits)
  qed
qed

lemma apply_entries_sim:
  assumes "ctx_sim a b" and "apply_entries es a = Some (Inr a')"
  shows "\<exists>b'. apply_entries es b = Some (Inr b') \<and> ctx_sim a' b'"
  using assms
proof (induction es arbitrary: a b)
  case (Cons e es)
  then obtain a1 where a1: "processEntry e a = Some (Inr a1)" "apply_entries es a1 = Some (Inr a')"
    by (auto simp: ApplyEntry_def split: option.splits sum.splits)
  with processEntry_sim [OF Cons.prems(1) a1(1)] Cons.IH show ?case by (fastforce simp: ApplyEntry_def)
qed simp

lemma ctx_sim_sym: "ctx_sim a b \<Longrightarrow> ctx_sim b a"
  by (auto simp: ctx_sim_def)

text \<open>The operations overwrite what may differ.\<close>

lemma seal_state_sim: "ctx_sim a b \<Longrightarrow> seal_state upd t b = seal_state upd t a"
  by (rule log_context.equality) (auto simp: ctx_sim_def seal_state_def need_add_def)

lemma log_state_sim: "ctx_sim a b \<Longrightarrow> log_state h m b = log_state h m a"
  by (rule log_context.equality) (auto simp: ctx_sim_def log_state_def need_add_def Let_def)

lemma quiet_sim: "ctx_sim a b \<Longrightarrow> quiet b \<longleftrightarrow> quiet a"
  by (auto simp: ctx_sim_def quiet_def)

lemma SealBlock_sim:
  assumes "ctx_sim a b" and "quiet a"
  shows "SealBlock p upd t b = (case SealBlock p upd t a of Some (Some err, _) \<Rightarrow> Some (Some err, b) | r \<Rightarrow> r)"
proof -
  have "quiet b" using assms quiet_sim by simp
  obtain l' where l: "inferFull (seal_state upd t a) = Some (None, l')" using seal_replays [OF assms(2)] by blast
  show ?thesis
  proof (cases "lc_nextEntryIndex a = 0")
    case True
    with l ctx_sim_fields [OF assms(1)] show ?thesis by (simp add: SealBlock_def seal_state_sim [OF assms(1)])
  next
    case False
    with l ctx_sim_fields [OF assms(1)] inferFull_quiet [OF assms(2)] inferFull_quiet [OF \<open>quiet b\<close>] show ?thesis
      by (simp add: SealBlock_def seal_state_sim [OF assms(1)])
  qed
qed

lemma ApplyLog_sim:
  assumes "ctx_sim a b" and "quiet a" and "lc_nextEntryIndex a \<noteq> 0" and "inferFull (log_state h m a) = Some (None, l')"
  shows "ApplyLog p i h m b = (case ApplyLog p i h m a of Some (Some err, _) \<Rightarrow> Some (Some err, b) | r \<Rightarrow> r)"
proof -
  have "quiet b" using assms quiet_sim by simp
  with assms(3,4) ctx_sim_fields [OF assms(1)] inferFull_quiet [OF assms(2)] inferFull_quiet [OF \<open>quiet b\<close>] show ?thesis
    by (simp add: ApplyLog_def log_state_sim [OF assms(1)] hasCompleteBlock_def)
qed

section \<open>What the store says\<close>

definition db_ok :: "log_db \<Rightarrow> bool" where
  "db_ok db \<longleftrightarrow> quiet (db_lastEntryContext db) \<and> lc_nextEntryIndex (db_lastEntryContext db) = length (db_store db)
     \<and> aligned (db_store db) zero_context \<and> steady (db_store db) zero_context
     \<and> (case apply_entries (db_store db) zero_context of
          Some (Inr s) \<Rightarrow> ctx_sim s (db_lastEntryContext db)
        | _ \<Rightarrow> False)"

lemma db_ok_replay:
  assumes "db_ok db"
  obtains s where "apply_entries (db_store db) zero_context = Some (Inr s)" "ctx_sim s (db_lastEntryContext db)" "quiet s"
    "lc_nextEntryIndex s = length (db_store db)"
  using assms quiet_sim ctx_sim_fields(1) by (fastforce simp: db_ok_def split: option.splits sum.splits)

lemma flush_ok:
  assumes "apply_entries (db_store db) zero_context = Some (Inr s)" and "db_ok db"
    and "lc_nextEntryIndex s = length (db_store db)" and "replays s l'"
  shows "db_ok (flush (db\<lparr>db_lastEntryContext := l'\<rparr>))"
  using assms
  by (simp add: db_ok_def flush_def replays_def flushed_def apply_entries_append [OF assms(1)] aligned_append [OF assms(1)]
      steady_append [OF assms(1)])

section \<open>The abstract database\<close>

text \<open>The sealed blocks, the oldest first, each with the logs that were added after it.\<close>

type_synonym log_record = "hash \<times> executing_message option"
type_synonym chain_log = "(block_seal \<times> log_record list) list"

definition block_view :: "block_seal \<times> log_record list \<Rightarrow> observation list" where
  "block_view b = (fst b, 0, 0, None) # map (\<lambda>k. (fst b, of_nat (Suc k), snd b ! k)) [0..<length (snd b)]"

definition chain_view :: "chain_log \<Rightarrow> observation list" where
  "chain_view bs = concat (map block_view bs)"

definition chain_seal :: "block_id \<Rightarrow> u64 \<Rightarrow> chain_log \<Rightarrow> chain_log" where
  "chain_seal blk t bs = bs @ [(\<lparr>seal_Hash = bid_hash blk, seal_Number = bid_number blk, seal_Timestamp = t\<rparr>, [])]"

definition chain_add :: "log_record \<Rightarrow> chain_log \<Rightarrow> chain_log" where
  "chain_add r bs = butlast bs @ [(fst (last bs), snd (last bs) @ [r])]"

text \<open>The blocks are consecutive, and the counters do not wrap around.\<close>

definition chain_next :: "block_seal \<times> log_record list \<Rightarrow> block_seal \<times> log_record list \<Rightarrow> bool" where
  "chain_next a b \<longleftrightarrow> seal_Number (fst b) = seal_Number (fst a) + 1 \<and> seal_Number (fst b) \<noteq> 0
     \<and> seal_Timestamp (fst a) \<le> seal_Timestamp (fst b)"

definition chain_ok :: "chain_log \<Rightarrow> bool" where
  "chain_ok bs \<longleftrightarrow> successively chain_next bs
     \<and> (\<forall>b \<in> set bs. seal_Hash (fst b) \<noteq> 0 \<and> length (snd b) < 2 ^ 32)"

lemma chain_view_snoc: "chain_view (bs @ [b]) = chain_view bs @ block_view b"
  by (simp add: chain_view_def)

lemma chain_view_seal:
  "chain_view (chain_seal blk t bs)
     = chain_view bs @ [(\<lparr>seal_Hash = bid_hash blk, seal_Number = bid_number blk, seal_Timestamp = t\<rparr>, 0, 0, None)]"
  by (simp add: chain_seal_def chain_view_snoc block_view_def)

lemma block_view_snoc: "block_view (b, rs @ [r]) = block_view (b, rs) @ [(b, of_nat (Suc (length rs)), r)]"
  by (simp add: block_view_def nth_append)

lemma chain_view_add:
  assumes "bs \<noteq> []"
  shows "chain_view (chain_add r bs) = chain_view bs @ [(fst (last bs), of_nat (Suc (length (snd (last bs)))), r)]"
proof -
  have "chain_view (chain_add r bs) = chain_view (butlast bs) @ block_view (fst (last bs), snd (last bs) @ [r])"
    by (simp add: chain_add_def chain_view_snoc)
  moreover have "chain_view bs = chain_view (butlast bs) @ block_view (last bs)"
    using chain_view_snoc [of "butlast bs" "last bs"] append_butlast_last_id [OF assms] by simp
  ultimately show ?thesis by (simp add: block_view_snoc)
qed

lemma chain_view_Nil [simp]: "chain_view bs = [] \<longleftrightarrow> bs = []"
  by (cases bs) (auto simp: chain_view_def block_view_def)

lemma chain_view_empty [simp]: "chain_view [] = []"
  by (simp add: chain_view_def)

lemma chain_view_last:
  assumes "bs \<noteq> []"
  shows "last (chain_view bs) = (fst (last bs), of_nat (length (snd (last bs))),
     if snd (last bs) = [] then (0, None) else last (snd (last bs)))"
proof -
  obtain b rs where l: "last bs = (b, rs)" by fastforce
  have v: "chain_view bs = chain_view (butlast bs) @ block_view (b, rs)"
    using chain_view_snoc [of "butlast bs" "last bs"] append_butlast_last_id [OF assms] l by simp
  show ?thesis
  proof (cases rs rule: rev_cases)
    case Nil
    then show ?thesis by (simp add: v l block_view_def)
  next
    case (snoc rs' r)
    then show ?thesis by (simp add: v l block_view_snoc)
  qed
qed

lemma remdups_adj_same:
  assumes "\<forall>w \<in> set zs. w = y"
  shows "remdups_adj (xs @ y # zs) = remdups_adj (xs @ [y])"
proof -
  have "zs = replicate (length zs) y" using assms by (intro replicate_eqI) auto
  then obtain k where "zs = replicate k y" by blast
  then show ?thesis
    using remdups_adj_append [of xs y zs] remdups_adj_replicate [of "Suc k" y] by simp
qed

lemma remdups_adj_settles:
  "settles x y zs \<Longrightarrow> x \<noteq> y \<Longrightarrow> xs \<noteq> [] \<Longrightarrow> last xs = x \<Longrightarrow> remdups_adj (xs @ zs) = remdups_adj xs @ [y]"
proof (induction zs arbitrary: xs)
  case (Cons z zs)
  obtain ws where xs: "xs = ws @ [x]" using Cons.prems(3,4) by (cases xs rule: rev_cases) auto
  from Cons.prems(1) consider "z = x" "settles x y zs" | "z = y" "\<forall>w \<in> set zs. w = y" by auto
  then show ?case
  proof cases
    case 1
    have "remdups_adj (xs @ [x]) = remdups_adj xs" unfolding xs by (simp add: remdups_adj_append_two)
    moreover have "remdups_adj ((xs @ [x]) @ zs) = remdups_adj (xs @ [x]) @ [y]"
      using 1 Cons.prems(2) by (intro Cons.IH) simp_all
    ultimately show ?thesis using 1 by simp
  next
    case 2
    then have "remdups_adj (xs @ z # zs) = remdups_adj (ws @ [x, y])"
      using remdups_adj_same [OF 2(2), of xs] by (simp add: xs)
    then show ?thesis using Cons.prems(2) by (simp add: xs remdups_adj_append_two)
  qed
qed simp

lemma stops_last:
  "apply_entries es l = Some (Inr s) \<Longrightarrow> lc_need s = 0 \<Longrightarrow> es \<noteq> [] \<Longrightarrow> stops es l \<noteq> [] \<and> last (stops es l) = s"
proof (induction es arbitrary: l)
  case (Cons e es)
  then obtain l1 where "ApplyEntry e l = Some (Inr l1)" "apply_entries es l1 = Some (Inr s)"
    by (auto split: option.splits sum.splits)
  with Cons show ?case by (cases es) auto
qed simp

text \<open>The database and the abstract one.\<close>

definition refines :: "log_db \<Rightarrow> chain_log \<Rightarrow> bool" where
  "refines db bs \<longleftrightarrow> db_ok db \<and> chain_ok bs
     \<and> remdups_adj (map obs (stops (db_store db) zero_context)) = chain_view bs"

lemma refines_replay:
  assumes "refines db bs"
  obtains s where "apply_entries (db_store db) zero_context = Some (Inr s)" "ctx_sim s (db_lastEntryContext db)" "quiet s"
    "lc_nextEntryIndex s = length (db_store db)" "bs = [] \<longleftrightarrow> db_store db = []"
    "bs \<noteq> [] \<longrightarrow> obs s = last (chain_view bs)" "aligned (db_store db) zero_context"
proof -
  have ok: "db_ok db" and v: "remdups_adj (map obs (stops (db_store db) zero_context)) = chain_view bs"
    using assms by (simp_all add: refines_def)
  obtain s where s: "apply_entries (db_store db) zero_context = Some (Inr s)" "ctx_sim s (db_lastEntryContext db)" "quiet s"
    "lc_nextEntryIndex s = length (db_store db)" using db_ok_replay [OF ok] .
  have q: "lc_need s = 0" using s(3) by (simp add: quiet_def)
  have e: "bs = [] \<longleftrightarrow> db_store db = []"
    using v [symmetric] stops_last [OF s(1) q] remdups_adj_Nil_iff [of "map obs (stops (db_store db) zero_context)"]
    by (cases "db_store db = []") (auto simp del: remdups_adj_Nil_iff)
  have l: "obs s = last (chain_view bs)" if "bs \<noteq> []"
    using that e stops_last [OF s(1) q] by (simp add: v [symmetric] last_remdups_adj last_map)
  from s e l ok that [of s] show ?thesis by (simp add: db_ok_def)
qed

end
