(* ===== verification/Logs_Correct.thy ===== *)
theory Logs_Correct
  imports Logs_Replay
begin

text \<open>
  What the log database guarantees: each operation does to the stored entries what the abstract operation does to
  the chain, a restart finds the same context, and the queries answer from the chain.
\<close>

section \<open>The operations on the abstract database\<close>

definition seal_accepts :: "hash \<Rightarrow> block_id \<Rightarrow> u64 \<Rightarrow> chain_log \<Rightarrow> bool" where
  "seal_accepts parent blk t bs \<longleftrightarrow> bs = [] \<or>
     (let b = fst (last bs) in parent = seal_Hash b \<and> bid_number blk = seal_Number b + 1 \<and> seal_Timestamp b \<le> t)"

definition log_accepts :: "block_id \<Rightarrow> u32 \<Rightarrow> chain_log \<Rightarrow> bool" where
  "log_accepts parent logIdx bs \<longleftrightarrow>
     (case last bs of (b, rs) \<Rightarrow> parent = Seal_ID b \<and> logIdx = of_nat (length rs))"

lemma seal_obs:
  assumes "quiet l" and "inferFull (seal_state blk t l) = Some (None, l')"
  shows "obs l' = (\<lparr>seal_Hash = bid_hash blk, seal_Number = bid_number blk, seal_Timestamp = t\<rparr>, 0, 0, None)"
proof -
  have "lc_need (seal_state blk t l) = 1" "lc_out (seal_state blk t l) = []"
    using assms(1) by (simp_all add: quiet_def seal_state_def flag_simps)
  from infer_seal [OF this] assms(2) show ?thesis by (auto simp: seal_state_def need_add_def obs_def seal_of_def)
qed

lemma log_obs:
  assumes "quiet l" and "lc_nextEntryIndex l \<noteq> 0" and "lc_logsSince l + 1 \<noteq> 0"
    and "\<And>e. m = Some e \<Longrightarrow> em_LogIdx e < push_bit 24 1" and "inferFull (log_state h m l) = Some (None, l')"
  shows "obs l' = (seal_of l, lc_logsSince l + 1, h, m)"
proof -
  have q: "lc_need l = 0" "lc_out l = []" "lc_nextEntryIndex l mod 256 \<noteq> 0" using assms(1,2) by (simp_all add: quiet_def)
  show ?thesis
  proof (cases m)
    case None
    have "lc_need (log_state h m l) = 4" "lc_out (log_state h m l) = []" "lc_execMsg (log_state h m l) = None"
      "lc_nextEntryIndex (log_state h m l) mod 256 \<noteq> 0"
      using q None by (simp_all add: log_state_def flag_simps)
    from infer_log [OF this] assms(3,5) None show ?thesis
      by (auto simp: log_state_def need_add_def obs_def seal_of_def counted_def)
  next
    case (Some e)
    then have "\<not> em_LogIdx e > push_bit 24 1" using assms(4) by (auto dest: order.asym simp del: push_bit_of_1)
    then obtain link where link: "newExecutingLink e = Inr link" unfolding newExecutingLink_def by auto
    have "lc_need (log_state h m l) = 28" "lc_out (log_state h m l) = []" "lc_execMsg (log_state h m l) = Some e"
      "lc_nextEntryIndex (log_state h m l) mod 256 \<noteq> 0"
      using q Some by (simp_all add: log_state_def flag_simps)
    from infer_exec [OF this link] assms(3,5) Some show ?thesis
      by (auto simp: log_state_def need_add_def obs_def seal_of_def counted_def)
  qed
qed

lemma flush_view:
  assumes "apply_entries (db_store db) zero_context = Some (Inr s)" and "replays s l'" and "quiet s"
    and "lc_nextEntryIndex s = length (db_store db)" and "obs s \<noteq> obs l' \<or> db_store db = []"
  shows "remdups_adj (map obs (stops (db_store (flush (db\<lparr>db_lastEntryContext := l'\<rparr>))) zero_context))
     = remdups_adj (map obs (stops (db_store db) zero_context)) @ [obs l']"
proof -
  let ?zs = "map obs (stops (lc_out l') s)"
  have z: "settles (obs s) (obs l') ?zs" "lc_nextEntryIndex s = 0 \<longrightarrow> (\<forall>z \<in> set (stops (lc_out l') s). obs z = obs l')"
    using assms(2) by (simp_all add: replays_def)
  have st: "stops (db_store (flush (db\<lparr>db_lastEntryContext := l'\<rparr>))) zero_context
     = stops (db_store db) zero_context @ stops (lc_out l') s"
    by (simp add: flush_def stops_append [OF assms(1)])
  show ?thesis
  proof (cases "db_store db = []")
    case True
    then have "\<forall>w \<in> set ?zs. w = obs l'" using z(2) assms(4) by simp
    moreover obtain y ys where y: "?zs = y # ys" using z(1) by (cases ?zs) auto
    ultimately have "remdups_adj ?zs = [obs l']" using remdups_adj_same [of ys "obs l'" "[]"] by simp
    with True st show ?thesis by simp
  next
    case False
    have l: "stops (db_store db) zero_context \<noteq> []" "last (stops (db_store db) zero_context) = s"
      using stops_last [OF assms(1)] False assms(3) by (auto simp: quiet_def)
    have "remdups_adj (map obs (stops (db_store db) zero_context) @ ?zs)
       = remdups_adj (map obs (stops (db_store db) zero_context)) @ [obs l']"
      using z(1) assms(5) False l by (intro remdups_adj_settles) (simp_all add: last_map)
    with st show ?thesis by simp
  qed
qed

lemma chain_ok_seal:
  assumes "chain_ok bs" and "seal_accepts parent blk t bs" and "bid_hash blk \<noteq> 0" and "bs = [] \<or> bid_number blk \<noteq> 0"
  shows "chain_ok (chain_seal blk t bs)"
  using assms by (auto simp: chain_ok_def chain_seal_def seal_accepts_def successively_append_iff chain_next_def Let_def)

lemma chain_ok_add:
  assumes "chain_ok bs" and "bs \<noteq> []" and "length (snd (last bs)) + 1 < 2 ^ 32"
  shows "chain_ok (chain_add r bs)"
proof -
  obtain as b rs where bs: "bs = as @ [(b, rs)]" using assms(2) by (metis append_butlast_last_id surj_pair)
  from assms show ?thesis
    by (auto simp: bs chain_ok_def chain_add_def successively_append_iff chain_next_def)
qed

lemma obs_last:
  assumes "obs s = last (chain_view bs)" and "bs \<noteq> []"
  shows "seal_of s = fst (last bs)" "lc_logsSince s = of_nat (length (snd (last bs)))"
  using assms by (simp_all add: chain_view_last obs_def)

lemma seal_step:
  assumes "refines db bs" and "bid_hash blk \<noteq> 0" and "bs = [] \<or> bid_number blk \<noteq> 0"
  shows "\<exists>db'. db_SealBlock parent blk t db = Some (if seal_accepts parent blk t bs then None else Some ErrConflict, db')
     \<and> refines db' (if seal_accepts parent blk t bs then chain_seal blk t bs else bs)
     \<and> (\<not> seal_accepts parent blk t bs \<longrightarrow> db' = db)"
proof -
  obtain s where s: "apply_entries (db_store db) zero_context = Some (Inr s)" "ctx_sim s (db_lastEntryContext db)" "quiet s"
    "lc_nextEntryIndex s = length (db_store db)" "bs = [] \<longleftrightarrow> db_store db = []"
    "bs \<noteq> [] \<longrightarrow> obs s = last (chain_view bs)" "aligned (db_store db) zero_context"
    using refines_replay [OF assms(1)] .
  obtain l' where l': "inferFull (seal_state blk t s) = Some (None, l')" "replays s l'" using seal_replays [OF s(3)] by blast
  have ok: "chain_ok bs" and okdb: "db_ok db" using assms(1) by (simp_all add: refines_def)
  have S: "SealBlock parent blk t s = (if seal_accepts parent blk t bs then Some (None, l') else Some (Some ErrConflict, s))"
  proof (cases "bs = []")
    case True
    with s(4,5) l' show ?thesis by (simp add: SealBlock_def seal_accepts_def)
  next
    case False
    then have n: "lc_nextEntryIndex s \<noteq> 0" using s(4,5) by simp
    note o = obs_last(1) [OF mp [OF s(6) False] False]
    have "seal_Hash (fst (last bs)) \<noteq> 0" using ok False by (simp add: chain_ok_def)
    with n False l'(1) inferFull_quiet [OF s(3) n] show ?thesis
      by (auto simp: SealBlock_def seal_accepts_def o [symmetric] seal_of_def)
  qed
  show ?thesis
  proof (cases "seal_accepts parent blk t bs")
    case False
    with S SealBlock_sim [OF s(2,3)] assms(1) show ?thesis by (simp add: db_SealBlock_def)
  next
    case True
    have o: "obs l' = (\<lparr>seal_Hash = bid_hash blk, seal_Number = bid_number blk, seal_Timestamp = t\<rparr>, 0, 0, None)"
      using seal_obs [OF s(3) l'(1)] .
    have "obs s \<noteq> obs l' \<or> db_store db = []"
    proof (cases "bs = []")
      case False
      then have "fst (obs s) = fst (last bs)" using obs_last(1) [OF mp [OF s(6) False] False] by (simp add: obs_def)
      with True False have "bid_number blk = seal_Number (fst (obs s)) + 1" by (simp add: seal_accepts_def Let_def)
      then have "seal_Number (fst (obs s)) \<noteq> bid_number blk" by simp
      with o show ?thesis by (metis block_seal.select_convs(2) fst_conv)
    qed (use s(5) in simp)
    from flush_view [OF s(1) l'(2) s(3,4) this] flush_ok [OF s(1) okdb s(4) l'(2)] assms(1) True o
      chain_ok_seal [OF ok True assms(2,3)]
    have "refines (flush (db\<lparr>db_lastEntryContext := l'\<rparr>)) (chain_seal blk t bs)"
      by (simp add: refines_def chain_view_seal)
    with True S SealBlock_sim [OF s(2,3)] show ?thesis by (simp add: db_SealBlock_def)
  qed
qed

lemma log_step:
  assumes "refines db bs" and "bs \<noteq> []" and "length (snd (last bs)) + 1 < 2 ^ 32"
    and "\<And>e. m = Some e \<Longrightarrow> em_LogIdx e < push_bit 24 1"
  shows "\<exists>db'. AddLog h parent logIdx m db = Some (if log_accepts parent logIdx bs then None else Some ErrOutOfOrder, db')
     \<and> refines db' (if log_accepts parent logIdx bs then chain_add (h, m) bs else bs)
     \<and> (\<not> log_accepts parent logIdx bs \<longrightarrow> db' = db)"
proof -
  obtain s where s: "apply_entries (db_store db) zero_context = Some (Inr s)" "ctx_sim s (db_lastEntryContext db)" "quiet s"
    "lc_nextEntryIndex s = length (db_store db)" "bs = [] \<longleftrightarrow> db_store db = []"
    "bs \<noteq> [] \<longrightarrow> obs s = last (chain_view bs)" "aligned (db_store db) zero_context"
    using refines_replay [OF assms(1)] .
  have n: "lc_nextEntryIndex s \<noteq> 0" using s(4,5) assms(2) by simp
  note o = obs_last [OF mp [OF s(6) assms(2)] assms(2)]
  have w: "lc_logsSince s + 1 \<noteq> 0"
  proof -
    have eq: "lc_logsSince s + 1 = of_nat (Suc (length (snd (last bs))))" by (simp add: o(2))
    have "\<not> 2 ^ LENGTH(32) dvd Suc (length (snd (last bs)))" using assms(3) by (intro nat_dvd_not_less) simp_all
    then show ?thesis unfolding eq word_of_nat_eq_0_iff .
  qed
  have "\<exists>l'. inferFull (log_state h m s) = Some (None, l') \<and> replays s l'"
    using log_replays [OF s(3) n w] exec_replays [OF s(3) n w] assms(4) by (cases m) auto
  then obtain l' where l': "inferFull (log_state h m s) = Some (None, l')" "replays s l'" by blast
  have ok: "chain_ok bs" and okdb: "db_ok db" using assms(1) by (simp_all add: refines_def)
  have S: "ApplyLog parent logIdx h m s = (if log_accepts parent logIdx bs then Some (None, l') else Some (Some ErrOutOfOrder, s))"
  proof -
    have "seal_Hash (fst (last bs)) \<noteq> 0" using ok assms(2) by (simp add: chain_ok_def)
    moreover have "lc_need s = 0" using s(3) by (simp add: quiet_def)
    moreover have "log_accepts parent logIdx bs \<longleftrightarrow> parent = Seal_ID (seal_of s) \<and> logIdx = lc_logsSince s"
      by (simp add: log_accepts_def o split: prod.split)
    ultimately show ?thesis using l'(1) inferFull_quiet [OF s(3) n]
      by (auto simp: ApplyLog_def o(1) [symmetric] seal_of_def Seal_ID_def zero_id_def hasCompleteBlock_def flag_ops)
  qed
  show ?thesis
  proof (cases "log_accepts parent logIdx bs")
    case False
    with S ApplyLog_sim [OF s(2,3) n l'(1)] assms(1) show ?thesis by (simp add: AddLog_def)
  next
    case True
    have o': "obs l' = (seal_of s, lc_logsSince s + 1, h, m)" using log_obs [OF s(3) n w assms(4) l'(1)] .
    have "fst (snd (obs s)) = lc_logsSince s" by (simp add: obs_def)
    moreover have "fst (snd (obs l')) = lc_logsSince s + 1" using o' by simp
    ultimately have "fst (snd (obs s)) \<noteq> fst (snd (obs l'))" by simp
    then have d: "obs s \<noteq> obs l' \<or> db_store db = []" by force
    from flush_view [OF s(1) l'(2) s(3,4) d] flush_ok [OF s(1) okdb s(4) l'(2)] assms(1) o o'
      chain_ok_add [OF ok assms(2,3)]
    have "refines (flush (db\<lparr>db_lastEntryContext := l'\<rparr>)) (chain_add (h, m) bs)"
      by (simp add: refines_def chain_view_add [OF assms(2)])
    with True S ApplyLog_sim [OF s(2,3) n l'(1)] show ?thesis by (simp add: AddLog_def)
  qed
qed

section \<open>Reading from a checkpoint\<close>

lemma aligned_sim:
  "ctx_sim a b \<Longrightarrow> apply_entries es a = Some (Inr a') \<Longrightarrow> aligned es a \<Longrightarrow> aligned es b"
proof (induction es arbitrary: a b)
  case (Cons e es)
  then obtain a1 where a1: "processEntry e a = Some (Inr a1)" "apply_entries es a1 = Some (Inr a')"
    by (auto simp: ApplyEntry_def split: option.splits sum.splits)
  then obtain b1 where b1: "processEntry e b = Some (Inr b1)" "ctx_sim a1 b1" using processEntry_sim [OF Cons.prems(1)] by blast
  with Cons.IH [OF b1(2) a1(2)] Cons.prems(3) a1(1) ctx_sim_fields [OF Cons.prems(1)] show ?case
    by (simp add: ApplyEntry_def)
qed simp

lemma stops_sim:
  "ctx_sim a b \<Longrightarrow> apply_entries es a = Some (Inr a') \<Longrightarrow> list_all2 ctx_sim (stops es a) (stops es b)"
proof (induction es arbitrary: a b)
  case (Cons e es)
  then obtain a1 where a1: "processEntry e a = Some (Inr a1)" "apply_entries es a1 = Some (Inr a')"
    by (auto simp: ApplyEntry_def split: option.splits sum.splits)
  then obtain b1 where b1: "processEntry e b = Some (Inr b1)" "ctx_sim a1 b1" using processEntry_sim [OF Cons.prems(1)] by blast
  with Cons.IH [OF b1(2) a1(2)] a1(1) ctx_sim_fields(6) [OF b1(2)] show ?case by (simp add: ApplyEntry_def)
qed simp

lemma checkpoint_sim:
  assumes "ApplyEntry e a = Some (Inr a')" and "entry_Type e = TypeSearchCheckpoint" and "lc_need a = 0 \<or> lc_need a = 2"
    and "lc_need b = 2" and "lc_out b = []" and "lc_nextEntryIndex b = lc_nextEntryIndex a"
  shows "\<exists>b'. ApplyEntry e b = Some (Inr b') \<and> ctx_sim a' b' \<and> lc_need a' = 2"
  using assms
  by (auto simp: ApplyEntry_def processEntry_def process_checkpoint_def need_add_def flag_ops flag_values ctx_sim_def Let_def
      split: if_splits sum.splits)

lemma apply_entries_prefix:
  "apply_entries (xs @ ys) l = Some (Inr s) \<Longrightarrow> \<exists>a. apply_entries xs l = Some (Inr a) \<and> apply_entries ys a = Some (Inr s)"
  by (induction xs arbitrary: l) (auto split: option.splits sum.splits)

lemma apply_entries_index:
  "apply_entries es l = Some (Inr s) \<Longrightarrow> lc_nextEntryIndex s = lc_nextEntryIndex l + length es"
proof (induction es arbitrary: l)
  case (Cons e es)
  then obtain l1 where "processEntry e l = Some (Inr l1)" "apply_entries es l1 = Some (Inr s)"
    by (auto simp: ApplyEntry_def split: option.splits sum.splits)
  with Cons.IH processEntry_index show ?case by fastforce
qed simp

abbreviation checkpoint_iterator :: "nat \<Rightarrow> log_context" where
  "checkpoint_iterator p \<equiv> need_add FlagCanonicalHash (newIterator p)"

lemma checkpoint_iterator_fields:
  "lc_need (checkpoint_iterator p) = 2" "lc_out (checkpoint_iterator p) = []" "lc_nextEntryIndex (checkpoint_iterator p) = p"
  by (simp_all add: need_add_def newIterator_def zero_context_def flag_simps)

text \<open>The reader that starts at the checkpoint at \<open>p\<close> follows the one that has read everything before.\<close>

lemma read_from_checkpoint:
  assumes "apply_entries store zero_context = Some (Inr s)" and "aligned store zero_context"
    and "p mod 256 = 0" and "p < length store"
  obtains a a' b' s' where "apply_entries (take p store) zero_context = Some (Inr a)"
    "ApplyEntry (store ! p) a = Some (Inr a')" "apply_entries (drop (Suc p) store) a' = Some (Inr s)"
    "ApplyEntry (store ! p) (checkpoint_iterator p) = Some (Inr b')" "ctx_sim a' b'" "lc_need a' = 2"
    "apply_entries (drop (Suc p) store) b' = Some (Inr s')" "ctx_sim s s'"
    "entry_Type (store ! p) = TypeSearchCheckpoint" "aligned (drop (Suc p) store) a'"
proof -
  have st: "store = take p store @ store ! p # drop (Suc p) store" using assms(4) by (simp add: id_take_nth_drop)
  obtain a where a: "apply_entries (take p store) zero_context = Some (Inr a)"
      "apply_entries (store ! p # drop (Suc p) store) a = Some (Inr s)"
    using apply_entries_prefix assms(1) st by metis
  have al: "aligned (store ! p # drop (Suc p) store) a" using aligned_append [OF a(1)] assms(2) st by metis
  have i: "lc_nextEntryIndex a = p" using apply_entries_index [OF a(1)] assms(4) by (simp add: zero_context_def)
  obtain a' where a': "ApplyEntry (store ! p) a = Some (Inr a')" "apply_entries (drop (Suc p) store) a' = Some (Inr s)"
    using a(2) by (auto split: option.splits sum.splits)
  have t: "entry_Type (store ! p) = TypeSearchCheckpoint" "lc_need a = 0 \<or> lc_need a = 2" "aligned (drop (Suc p) store) a'"
    using al i assms(3) a'(1) by auto
  obtain b' where b': "ApplyEntry (store ! p) (checkpoint_iterator p) = Some (Inr b')" "ctx_sim a' b'" "lc_need a' = 2"
    using checkpoint_sim [OF a'(1) t(1,2) checkpoint_iterator_fields(1,2)] checkpoint_iterator_fields(3) i by auto
  obtain s' where "apply_entries (drop (Suc p) store) b' = Some (Inr s')" "ctx_sim s s'"
    using apply_entries_sim [OF b'(2) a'(2)] by blast
  with that a(1) a' t b' show ?thesis by blast
qed

lemma it_End_apply:
  "apply_entries (drop (lc_nextEntryIndex c) store) c = Some (Inr c') \<Longrightarrow> lc_nextEntryIndex c \<le> length store
     \<Longrightarrow> it_End store c = Some (None, c')"
proof (induction "unread store c" arbitrary: c rule: less_induct)
  case less
  let ?n = "lc_nextEntryIndex c"
  show ?case
  proof (cases "?n < length store")
    case False
    then have "it_End store c = Some (None, c)" by (subst it_End.simps) (simp add: it_next_def)
    with False less.prems show ?thesis by simp
  next
    case True
    then have "apply_entries (store ! ?n # drop (Suc ?n) store) c = Some (Inr c')"
      using less.prems(1) by (simp add: Cons_nth_drop_Suc)
    then obtain d where d: "ApplyEntry (store ! ?n) c = Some (Inr d)" "apply_entries (drop (Suc ?n) store) d = Some (Inr c')"
      by (auto split: option.splits sum.splits)
    then have nx: "it_next store c = Some (Inr (entry_Type (store ! ?n), d))" using True by (simp add: it_next_def)
    note I = it_next_index [OF nx]
    have "it_End store d = Some (None, c')"
      using less.hyps [OF it_next_unread [OF nx]] d(2) I by simp
    then show ?thesis by (simp add: it_End.simps [of store c] nx)
  qed
qed

lemma restart_step:
  assumes "refines db bs"
  shows "\<exists>c. db_init False db = Some (None, db\<lparr>db_lastEntryContext := c\<rparr>) \<and> refines (db\<lparr>db_lastEntryContext := c\<rparr>) bs
     \<and> (\<forall>s. apply_entries (db_store db) zero_context = Some (Inr s) \<longrightarrow> ctx_sim s c)"
proof -
  obtain s where s: "apply_entries (db_store db) zero_context = Some (Inr s)" "ctx_sim s (db_lastEntryContext db)" "quiet s"
    "lc_nextEntryIndex s = length (db_store db)" "bs = [] \<longleftrightarrow> db_store db = []"
    "bs \<noteq> [] \<longrightarrow> obs s = last (chain_view bs)" "aligned (db_store db) zero_context"
    using refines_replay [OF assms] .
  have R: "refines (db\<lparr>db_lastEntryContext := c\<rparr>) bs" if "ctx_sim s c" for c
    using assms s that quiet_sim [OF that] ctx_sim_fields(1) [OF that] by (simp add: refines_def db_ok_def)
  show ?thesis
  proof (cases "db_store db = []")
    case True
    then have "s = zero_context" using s(1) by simp
    with True R [of zero_context] s(1) show ?thesis
      by (intro exI [of _ zero_context]) (simp add: db_init_def)
  next
    case False
    define p where "p = (length (db_store db) - 1) div searchCheckpointFrequency * searchCheckpointFrequency"
    have "p mod 256 = 0" by (simp add: p_def searchCheckpointFrequency_def)
    moreover have p: "p < length (db_store db)"
    proof -
      have "p \<le> length (db_store db) - 1" unfolding p_def by (rule div_times_less_eq_dividend)
      with False show ?thesis by (simp add: less_eq_Suc_le Suc_le_eq [symmetric] flip: length_greater_0_conv)
    qed
    ultimately obtain a a' b' s' where "ApplyEntry (db_store db ! p) (checkpoint_iterator p) = Some (Inr b')"
      "apply_entries (drop (Suc p) (db_store db)) b' = Some (Inr s')" "ctx_sim s s'"
      using read_from_checkpoint [OF s(1,7)] by metis
    moreover from this p have "apply_entries (drop p (db_store db)) (checkpoint_iterator p) = Some (Inr s')"
      by (simp flip: Cons_nth_drop_Suc)
    then have "it_End (db_store db) (checkpoint_iterator p) = Some (None, s')"
      using p by (intro it_End_apply) (simp_all add: checkpoint_iterator_fields)
    ultimately show ?thesis using False R [of s'] s(1)
      by (intro exI [of _ s']) (simp add: db_init_def p_def)
  qed
qed

end
