(* ===== verification/Logs_Search.thy ===== *)
theory Logs_Search
  imports Logs_Correct
begin

text \<open>
  The search of the log database: the iterator stops at the complete states of the reader, the binary search finds a
  checkpoint before its target, and the walk from there ends at the sealed block that was asked for.
\<close>

section \<open>One entry of a well-formed store\<close>

lemma entry_step:
  assumes "ApplyEntry e c = Some (Inr d)" and "aligned (e # es) c"
  shows "entry_Type e = TypeSearchCheckpoint \<Longrightarrow> lc_need d = 2 \<and> (lc_logsSince d = 0 \<longrightarrow> lc_logHash d = 0 \<and> lc_execMsg d = None)"
    "entry_Type e = TypeCanonicalHash \<Longrightarrow> lc_need c = 2 \<and> lc_need d = 0 \<and> lc_blockNum d = lc_blockNum c
       \<and> lc_logsSince d = lc_logsSince c \<and> lc_logHash d = lc_logHash c \<and> lc_execMsg d = lc_execMsg c"
    "entry_Type e \<noteq> TypeSearchCheckpoint \<Longrightarrow> entry_Type e \<noteq> TypeCanonicalHash
       \<Longrightarrow> lc_need c \<noteq> 2 \<and> lc_need d \<noteq> 2 \<and> seal_of d = seal_of c"
proof -
  have n: "lc_need c = 0 \<or> lc_need c = 2 \<or> lc_need c = 16 \<or> lc_need c = 24"
    and cp: "entry_Type e = TypeSearchCheckpoint \<Longrightarrow> lc_need c = 0 \<or> lc_need c = 2"
    and two: "entry_Type e \<noteq> TypeSearchCheckpoint \<Longrightarrow> entry_Type e \<noteq> TypeCanonicalHash \<Longrightarrow> lc_need c \<noteq> 2"
    using assms(2) by auto
  note defs = ApplyEntry_def processEntry_def need_add_def need_remove_def flag_ops flag_values type_values Let_def seal_of_def
  show "lc_need d = 2 \<and> (lc_logsSince d = 0 \<longrightarrow> lc_logHash d = 0 \<and> lc_execMsg d = None)" if "entry_Type e = TypeSearchCheckpoint"
    using cp [OF that] assms(1) that
    by (auto simp: defs process_checkpoint_def split: if_splits sum.splits)
  show "lc_need c = 2 \<and> lc_need d = 0 \<and> lc_blockNum d = lc_blockNum c
       \<and> lc_logsSince d = lc_logsSince c \<and> lc_logHash d = lc_logHash c \<and> lc_execMsg d = lc_execMsg c" if "entry_Type e = TypeCanonicalHash"
    using n assms(1) that
    by (auto simp: defs process_canonical_def split: if_splits sum.splits)
  show "lc_need c \<noteq> 2 \<and> lc_need d \<noteq> 2 \<and> seal_of d = seal_of c"
    if t: "entry_Type e \<noteq> TypeSearchCheckpoint" "entry_Type e \<noteq> TypeCanonicalHash"
    using n two [OF t] assms(1) t
    by (auto simp: defs process_event_def process_link_def process_check_def process_padding_def hasCompleteBlock_def
        hasIncompleteLog_def split: if_splits sum.splits option.splits)
qed

text \<open>The state after the next block hash, and the entries after it.\<close>

fun seal_at :: "log_entry list \<Rightarrow> log_context \<Rightarrow> (log_context \<times> log_entry list) option" where
  "seal_at [] c = None"
| "seal_at (e # es) c =
     (case ApplyEntry e c of
        Some (Inr d) \<Rightarrow> if entry_Type e = TypeCanonicalHash then Some (d, es) else seal_at es d
      | _ \<Rightarrow> None)"

lemma apply_entries_Cons:
  assumes "apply_entries (e # es) c = Some (Inr s)"
  obtains d where "ApplyEntry e c = Some (Inr d)" "apply_entries es d = Some (Inr s)"
  using assms by (auto split: option.splits sum.splits)

lemma next_block_seal_at:
  assumes "apply_entries (drop (lc_nextEntryIndex c) store) c = Some (Inr s)" and "aligned (drop (lc_nextEntryIndex c) store) c"
    and "b \<longrightarrow> lc_need c = 2"
    and "lc_need c = 2 \<longrightarrow> b \<or> (\<exists>e es. drop (lc_nextEntryIndex c) store = e # es \<and> entry_Type e = TypeSearchCheckpoint)"
  shows "next_block b store c = (case seal_at (drop (lc_nextEntryIndex c) store) c of
     None \<Rightarrow> Some (Some ErrFuture, s) | Some (d, _) \<Rightarrow> Some (None, d))"
  using assms
proof (induction "unread store c" arbitrary: b c rule: less_induct)
  case less
  let ?n = "lc_nextEntryIndex c"
  show ?case
  proof (cases "?n < length store")
    case False
    with less.prems(1) show ?thesis by (subst next_block.simps) (simp add: it_next_def)
  next
    case True
    let ?e = "store ! ?n" and ?es = "drop (Suc ?n) store"
    have dr: "drop ?n store = ?e # ?es" using True by (simp add: Cons_nth_drop_Suc)
    obtain d where d: "ApplyEntry ?e c = Some (Inr d)" "apply_entries ?es d = Some (Inr s)"
      using apply_entries_Cons less.prems(1) dr by metis
    have nx: "it_next store c = Some (Inr (entry_Type ?e, d))" using True d by (simp add: it_next_def)
    have i: "lc_nextEntryIndex d = Suc ?n" using it_next_index [OF nx] by simp
    have al: "aligned (?e # ?es) c" using less.prems(2) dr by simp
    then have al': "aligned ?es d" using d(1) by simp
    note E = entry_step [OF d(1) al]
    have IH: "next_block b' store d = (case seal_at ?es d of None \<Rightarrow> Some (Some ErrFuture, s) | Some (d', _) \<Rightarrow> Some (None, d'))"
      if "b' \<longrightarrow> lc_need d = 2" "lc_need d = 2 \<longrightarrow> b'" for b'
      using less.hyps [OF it_next_unread [OF nx]] d(2) al' that i by simp
    consider "entry_Type ?e = TypeSearchCheckpoint" | "entry_Type ?e = TypeCanonicalHash"
      | "entry_Type ?e \<noteq> TypeSearchCheckpoint" "entry_Type ?e \<noteq> TypeCanonicalHash" by blast
    then show ?thesis
    proof cases
      case 1
      then have "lc_need d = 2" using E(1) by simp
      with 1 IH [of True] show ?thesis
        by (subst next_block.simps) (simp add: nx dr d(1) hasCompleteBlock_def flag_ops flag_values type_values)
    next
      case 2
      then have "lc_need c = 2" "lc_need d = 0" using E(2) by simp_all
      moreover from this(1) have "b" using less.prems(4) dr 2 by (auto simp: type_values)
      ultimately show ?thesis using 2
        by (subst next_block.simps) (simp add: nx dr d(1) hasCompleteBlock_def flag_ops flag_values)
    next
      case 3
      then have "lc_need c \<noteq> 2" "lc_need d \<noteq> 2" using E(3) by simp_all
      moreover from this(1) have "\<not> b" using less.prems(3) by simp
      ultimately show ?thesis using 3 IH [of False]
        by (subst next_block.simps) (simp add: nx dr d(1) Let_def)
    qed
  qed
qed

lemma seal_at_split:
  assumes "seal_at es c = Some (d, ys)" and "apply_entries es c = Some (Inr s)" and "aligned es c"
    and "lc_need c = 2 \<longrightarrow> (lc_logsSince c = 0 \<longrightarrow> lc_logHash c = 0 \<and> lc_execMsg c = None)
      \<or> (\<exists>e es'. es = e # es' \<and> entry_Type e = TypeSearchCheckpoint)"
  shows "\<exists>xs. es = xs @ ys \<and> xs \<noteq> [] \<and> apply_entries xs c = Some (Inr d) \<and> lc_need d = 0
     \<and> (lc_logsSince d = 0 \<longrightarrow> lc_logHash d = 0 \<and> lc_execMsg d = None)"
  using assms
proof (induction es arbitrary: c)
  case (Cons e es)
  obtain c1 where c1: "ApplyEntry e c = Some (Inr c1)" "apply_entries es c1 = Some (Inr s)"
    using apply_entries_Cons [OF Cons.prems(2)] .
  note E = entry_step [OF c1(1) Cons.prems(3)]
  show ?case
  proof (cases "entry_Type e = TypeCanonicalHash")
    case True
    then have "d = c1" "ys = es" using Cons.prems(1) c1 by simp_all
    with True E(2) c1 Cons.prems(4) show ?thesis by (intro exI [of _ "[e]"]) (auto simp: type_values)
  next
    case False
    then have s1: "seal_at es c1 = Some (d, ys)" using Cons.prems(1) c1 by simp
    have "aligned es c1" using Cons.prems(3) c1 by simp
    moreover have "lc_need c1 = 2 \<longrightarrow> lc_logsSince c1 = 0 \<longrightarrow> lc_logHash c1 = 0 \<and> lc_execMsg c1 = None"
      using E(1,3) False by blast
    ultimately obtain xs where "es = xs @ ys \<and> xs \<noteq> [] \<and> apply_entries xs c1 = Some (Inr d) \<and> lc_need d = 0
       \<and> (lc_logsSince d = 0 \<longrightarrow> lc_logHash d = 0 \<and> lc_execMsg d = None)"
      using Cons.IH [OF s1 c1(2)] by blast
    with c1 show ?thesis by (intro exI [of _ "e # xs"]) simp
  qed
qed simp

lemma stops_seal_at:
  assumes "apply_entries es c = Some (Inr s)" and "aligned es c" and "lc_need c = 2 \<or> lc_blockNum c < n"
  shows "dropWhile (\<lambda>q. lc_blockNum q < n) (stops es c)
     = (case seal_at es c of None \<Rightarrow> [] | Some (d, ys) \<Rightarrow> dropWhile (\<lambda>q. lc_blockNum q < n) (d # stops ys d))"
  using assms
proof (induction es arbitrary: c)
  case (Cons e es)
  obtain c1 where c1: "ApplyEntry e c = Some (Inr c1)" "apply_entries es c1 = Some (Inr s)"
    using apply_entries_Cons [OF Cons.prems(1)] .
  note E = entry_step [OF c1(1) Cons.prems(2)]
  have al: "aligned es c1" using Cons.prems(2) c1 by simp
  consider "entry_Type e = TypeSearchCheckpoint" | "entry_Type e = TypeCanonicalHash"
    | "entry_Type e \<noteq> TypeSearchCheckpoint" "entry_Type e \<noteq> TypeCanonicalHash" by blast
  then show ?case
  proof cases
    case 1
    then have "lc_need c1 = 2" using E(1) by simp
    with 1 c1 Cons.IH [OF c1(2) al] show ?thesis by (simp add: type_values)
  next
    case 2
    with E(2) c1 show ?thesis by simp
  next
    case 3
    with E(3) Cons.prems(3) have "lc_blockNum c1 < n" by (auto simp: seal_of_def)
    with 3 c1 Cons.IH [OF c1(2) al] show ?thesis by simp
  qed
qed simp

text \<open>The walk to a block stops at the first complete state with its number.\<close>

definition found :: "log_entry list \<Rightarrow> log_context \<Rightarrow> log_context \<Rightarrow> log_context list \<Rightarrow> bool" where
  "found store c q B \<longleftrightarrow> B = stops (drop (lc_nextEntryIndex q) store) q \<and> lc_need q = 0
     \<and> (lc_logsSince q = 0 \<longrightarrow> lc_logHash q = 0 \<and> lc_execMsg q = None)
     \<and> (\<exists>xs. drop (lc_nextEntryIndex c) store = xs @ drop (lc_nextEntryIndex q) store \<and> apply_entries xs c = Some (Inr q))"

lemma find_block_stops:
  assumes "apply_entries (drop (lc_nextEntryIndex c) store) c = Some (Inr s)" and "aligned (drop (lc_nextEntryIndex c) store) c"
    and "lc_nextEntryIndex c \<le> length store"
    and "lc_need c = 2 \<and> (\<exists>e es. drop (lc_nextEntryIndex c) store = e # es \<and> entry_Type e = TypeSearchCheckpoint)
      \<or> lc_need c = 0 \<and> lc_blockNum c < n"
  shows "case dropWhile (\<lambda>q. lc_blockNum q < n) (stops (drop (lc_nextEntryIndex c) store) c) of
     [] \<Rightarrow> find_block store n c = Some (Inl ErrFuture)
   | q # B \<Rightarrow> if lc_blockNum q = n then find_block store n c = Some (Inr q) \<and> found store c q B
       else find_block store n c = Some (Inl ErrConflict)"
  using assms
proof (induction "unread store c" arbitrary: c rule: less_induct)
  case less
  let ?es = "drop (lc_nextEntryIndex c) store"
  let ?P = "\<lambda>q. lc_blockNum q < n"
  have start: "\<not> (case SealedBlock c of Some (h, m) \<Rightarrow> m = n | None \<Rightarrow> False)"
    using less.prems(4) by (auto simp: SealedBlock_def hasCompleteBlock_def flag_ops flag_values)
  have nb: "NextBlock store c = (case seal_at ?es c of None \<Rightarrow> Some (Some ErrFuture, s) | Some (d, _) \<Rightarrow> Some (None, d))"
    unfolding NextBlock_def using less.prems by (intro next_block_seal_at) auto
  have st: "dropWhile ?P (stops ?es c) = (case seal_at ?es c of None \<Rightarrow> [] | Some (d, ys) \<Rightarrow> dropWhile ?P (d # stops ys d))"
    using less.prems by (intro stops_seal_at) auto
  show ?case
  proof (cases "seal_at ?es c")
    case None
    then have "dropWhile ?P (stops ?es c) = []" unfolding st by simp
    moreover have "find_block store n c = Some (Inl ErrFuture)" using start nb None by (subst find_block.simps) simp
    ultimately show ?thesis by (simp only: list.case)
  next
    case (Some r)
    then obtain d ys where d: "seal_at ?es c = Some (d, ys)" by (cases r) simp
    obtain xs where xs: "?es = xs @ ys" "xs \<noteq> []" "apply_entries xs c = Some (Inr d)" "lc_need d = 0"
        "lc_logsSince d = 0 \<longrightarrow> lc_logHash d = 0 \<and> lc_execMsg d = None"
      using seal_at_split [OF d less.prems(1,2)] less.prems(4) by auto
    have i: "lc_nextEntryIndex d = lc_nextEntryIndex c + length xs" using apply_entries_index [OF xs(3)] .
    have ys: "drop (lc_nextEntryIndex d) store = ys"
      using arg_cong [OF xs(1), of "drop (length xs)"] i by (simp add: add.commute)
    have le: "lc_nextEntryIndex d \<le> length store"
      using arg_cong [OF xs(1), of length] i less.prems(3) by simp
    have u: "unread store d < unread store c"
      using i xs(2) le by (simp add: diff_less_mono2 flip: length_greater_0_conv)
    have ap: "apply_entries ys d = Some (Inr s)" using less.prems(1) apply_entries_append [OF xs(3), of ys] xs(1) by simp
    have al: "aligned ys d" using less.prems(2) aligned_append [OF xs(3), of ys] xs(1) by simp
    have sb: "SealedBlock d = Some (lc_blockHash d, lc_blockNum d)"
      using xs(4) by (simp add: SealedBlock_def hasCompleteBlock_def flag_ops)
    have fb: "find_block store n c = (if lc_blockNum d < n then find_block store n d
        else if lc_blockNum d \<noteq> n then Some (Inl ErrConflict) else Some (Inr d))"
      using start nb d sb by (simp add: find_block.simps [of store n c])
    show ?thesis
    proof (cases "lc_blockNum d < n")
      case False
      have "found store c d (stops ys d)" using xs ys by (auto simp: found_def)
      with False st d fb show ?thesis by simp
    next
      case True
      have F: "found store c q B" if "found store d q B" for q B
      proof -
        from that obtain zs where "ys = zs @ drop (lc_nextEntryIndex q) store" "apply_entries zs d = Some (Inr q)"
          by (auto simp: found_def ys)
        with that xs(1) apply_entries_append [OF xs(3), of zs] show ?thesis
          by (auto simp: found_def intro!: exI [of _ "xs @ zs"])
      qed
      have "case dropWhile ?P (stops ys d) of [] \<Rightarrow> find_block store n d = Some (Inl ErrFuture)
        | q # B \<Rightarrow> if lc_blockNum q = n then find_block store n d = Some (Inr q) \<and> found store d q B
            else find_block store n d = Some (Inl ErrConflict)"
        using less.hyps [OF u] ap al le True xs(4) ys by simp
      moreover have "dropWhile ?P (stops ?es c) = dropWhile ?P (stops ys d)" using st d True by simp
      moreover have "find_block store n c = find_block store n d" using fb True by simp
      ultimately show ?thesis using F
        by (cases "dropWhile ?P (stops ys d)") (simp_all del: dropWhile_eq_Nil_conv split: if_splits)
    qed
  qed
qed

section \<open>The binary search\<close>

lemma search_loop_before:
  assumes "\<And>h. i \<le> h \<Longrightarrow> h < j \<Longrightarrow> \<exists>cp. readSearchCheckpoint db (h * searchCheckpointFrequency) = Inr cp" and "i < j"
  shows "\<exists>k. search_loop db n l i j = Inr (k, Suc k) \<and> i \<le> k \<and> k < j
     \<and> (k = i \<or> (\<exists>cp. readSearchCheckpoint db (k * searchCheckpointFrequency) = Inr cp \<and> cp_before cp n l))"
  using assms
proof (induction db n l i j rule: search_loop.induct)
  case (1 db n l i j)
  show ?case
  proof (cases "i + 1 < j")
    case False
    with "1.prems"(2) show ?thesis by (subst search_loop.simps) simp
  next
    case True
    define h where "h = (i + j) div 2"
    have h: "i < h" "h < j" using True by (auto simp: h_def)
    obtain cp where cp: "readSearchCheckpoint db (h * searchCheckpointFrequency) = Inr cp"
      using "1.prems"(1) [of h] h by (meson less_imp_le)
    have sl: "search_loop db n l i j = (if cp_before cp n l then search_loop db n l h j else search_loop db n l i h)"
      using True cp by (subst search_loop.simps) (simp add: h_def Let_def)
    show ?thesis
    proof (cases "cp_before cp n l")
      case True
      have "\<exists>k. search_loop db n l h j = Inr (k, Suc k) \<and> h \<le> k \<and> k < j
         \<and> (k = h \<or> (\<exists>cp. readSearchCheckpoint db (k * searchCheckpointFrequency) = Inr cp \<and> cp_before cp n l))"
        using "1.IH"(1) [OF \<open>i + 1 < j\<close> h_def cp True] "1.prems"(1) h by simp
      with sl True cp h show ?thesis by fastforce
    next
      case False
      have "\<exists>k. search_loop db n l i h = Inr (k, Suc k) \<and> i \<le> k \<and> k < h
         \<and> (k = i \<or> (\<exists>cp. readSearchCheckpoint db (k * searchCheckpointFrequency) = Inr cp \<and> cp_before cp n l))"
        using "1.IH"(2) [OF \<open>i + 1 < j\<close> h_def cp False] "1.prems"(1) h by simp
      with sl False h show ?thesis by fastforce
    qed
  qed
qed

lemma checkpoint_fields:
  assumes "ApplyEntry e c = Some (Inr d)" and "entry_Type e = TypeSearchCheckpoint"
  shows "\<exists>cp. newSearchCheckpointFromEntry e = Inr cp \<and> lc_blockNum d = cp_blockNum cp \<and> lc_logsSince d = cp_logsSince cp"
  using assms
  by (auto simp: ApplyEntry_def processEntry_def process_checkpoint_def need_add_def Let_def split: if_splits sum.splits)

lemma first_stop:
  assumes "apply_entries es c = Some (Inr s)" and "aligned es c" and "lc_need c = 2" and "lc_need s = 0"
    and "lc_nextEntryIndex c mod 256 \<noteq> 0"
  shows "\<exists>q B. stops es c = q # B \<and> lc_blockNum q = lc_blockNum c \<and> lc_logsSince q = lc_logsSince c"
proof (cases es)
  case Nil
  with assms show ?thesis by simp
next
  case (Cons e es')
  then obtain d where d: "ApplyEntry e c = Some (Inr d)" using assms(1) apply_entries_Cons by metis
  have al: "aligned (e # es') c" using assms(2) Cons by simp
  then have t: "entry_Type e = TypeCanonicalHash" unfolding aligned.simps using assms(3,5) by blast
  with entry_step(2) [OF d al] Cons d show ?thesis by simp
qed

text \<open>A checkpoint of the database, as the reader from the start sees it.\<close>

lemma checkpoint_view:
  assumes "refines db bs" and "p mod 256 = 0" and "p < length (db_store db)"
  obtains a a' b' s s' cp q B where "apply_entries (take p (db_store db)) zero_context = Some (Inr a)"
    "lc_need a = 0 \<or> lc_need a = 2" "ApplyEntry (db_store db ! p) a = Some (Inr a')"
    "apply_entries (drop p (db_store db)) a = Some (Inr s)" "aligned (drop p (db_store db)) a"
    "ApplyEntry (db_store db ! p) (checkpoint_iterator p) = Some (Inr b')" "ctx_sim a' b'"
    "apply_entries (drop p (db_store db)) (checkpoint_iterator p) = Some (Inr s')"
    "aligned (drop p (db_store db)) (checkpoint_iterator p)"
    "entry_Type (db_store db ! p) = TypeSearchCheckpoint"
    "readSearchCheckpoint db p = Inr cp" "stops (drop p (db_store db)) a = q # B"
    "lc_blockNum q = cp_blockNum cp" "lc_logsSince q = cp_logsSince cp"
    "list_all2 ctx_sim (q # B) (stops (drop p (db_store db)) (checkpoint_iterator p))"
proof -
  obtain s where s: "apply_entries (db_store db) zero_context = Some (Inr s)" "quiet s" "aligned (db_store db) zero_context"
    using refines_replay [OF assms(1)] by metis
  let ?st = "db_store db"
  obtain a a' b' s' where r: "apply_entries (take p ?st) zero_context = Some (Inr a)"
    "ApplyEntry (?st ! p) a = Some (Inr a')" "apply_entries (drop (Suc p) ?st) a' = Some (Inr s)"
    "ApplyEntry (?st ! p) (checkpoint_iterator p) = Some (Inr b')" "ctx_sim a' b'" "lc_need a' = 2"
    "apply_entries (drop (Suc p) ?st) b' = Some (Inr s')" "ctx_sim s s'"
    "entry_Type (?st ! p) = TypeSearchCheckpoint" "aligned (drop (Suc p) ?st) a'"
    using read_from_checkpoint [OF s(1,3) assms(2,3)] by metis
  have dr: "drop p ?st = ?st ! p # drop (Suc p) ?st" using assms(3) by (simp add: Cons_nth_drop_Suc)
  have i: "lc_nextEntryIndex a = p" using apply_entries_index [OF r(1)] assms(3) by (simp add: zero_context_def)
  have i': "lc_nextEntryIndex a' = Suc p" using r(2) i processEntry_index by (simp add: ApplyEntry_def)
  have al: "aligned (drop p ?st) a" using aligned_append [OF r(1), of "drop p ?st"] s(3) by simp
  then have n: "lc_need a = 0 \<or> lc_need a = 2" using r(9) by (simp add: dr)
  have al': "aligned (drop p ?st) (checkpoint_iterator p)"
    using r(4,9) aligned_sim [OF r(5,3,10)] assms(2) by (simp add: dr checkpoint_iterator_fields)
  obtain cp where cp: "newSearchCheckpointFromEntry (?st ! p) = Inr cp" "lc_blockNum a' = cp_blockNum cp"
      "lc_logsSince a' = cp_logsSince cp"
    using checkpoint_fields [OF r(2,9)] by blast
  obtain q B where q: "stops (drop (Suc p) ?st) a' = q # B" "lc_blockNum q = lc_blockNum a'" "lc_logsSince q = lc_logsSince a'"
    using first_stop [OF r(3,10,6)] s(2) i' assms(2) by (auto simp: quiet_def mod_Suc)
  have b2: "lc_need b' = 2" using ctx_sim_fields(6) [OF r(5)] r(6) by simp
  have la: "list_all2 ctx_sim (q # B) (stops (drop p ?st) (checkpoint_iterator p))"
    using stops_sim [OF r(5,3)] q(1) r(4) b2 by (simp add: dr)
  have st: "stops (drop p ?st) a = q # B" using q(1) r(2,6) by (simp add: dr)
  have rc: "readSearchCheckpoint db p = Inr cp" using cp(1) assms(3) by (simp add: readSearchCheckpoint_def)
  have ap: "apply_entries (drop p ?st) a = Some (Inr s)" using r(2,3) by (simp add: dr)
  have ap': "apply_entries (drop p ?st) (checkpoint_iterator p) = Some (Inr s')" using r(4,7) by (simp add: dr)
  show ?thesis by (rule that [OF r(1) n r(2) ap al r(4,5) ap' al' r(9) rc st _ _ la]) (simp_all add: q cp)
qed

lemma searchCheckpoint_spec:
  assumes "refines db bs" and "bs \<noteq> []"
  obtains p cp where "p mod 256 = 0" "p < length (db_store db)" "readSearchCheckpoint db p = Inr cp" "p = 0 \<or> cp_before cp n l"
    "searchCheckpoint db n l = Some (if cp_blockNum cp > n \<or> (cp_blockNum cp = n \<and> cp_logsSince cp > l)
       then Inl ErrSkipped else Inr p)"
proof -
  obtain s where s: "lc_nextEntryIndex s = length (db_store db)" "ctx_sim s (db_lastEntryContext db)" "db_store db \<noteq> []"
    using refines_replay [OF assms(1)] assms(2) by metis
  let ?m = "(length (db_store db) - 1) div searchCheckpointFrequency + 1"
  have R: "\<exists>cp. readSearchCheckpoint db (h * searchCheckpointFrequency) = Inr cp" and L: "h * searchCheckpointFrequency < length (db_store db)"
    if "h < ?m" for h
  proof -
    have "h * 256 \<le> (length (db_store db) - 1) div 256 * 256" using that by (simp add: searchCheckpointFrequency_def)
    also have "\<dots> \<le> length (db_store db) - 1" by (rule div_times_less_eq_dividend)
    finally have "h * 256 < length (db_store db)" using s(3) by (simp add: less_eq_Suc_le Suc_le_eq [symmetric] flip: length_greater_0_conv)
    then show "h * searchCheckpointFrequency < length (db_store db)"
      "\<exists>cp. readSearchCheckpoint db (h * searchCheckpointFrequency) = Inr cp"
      using checkpoint_view [OF assms(1), of "h * 256"] by (auto simp: searchCheckpointFrequency_def)
  qed
  obtain k where k: "search_loop db n l 0 ?m = Inr (k, Suc k)" "k < ?m"
      "k = 0 \<or> (\<exists>cp. readSearchCheckpoint db (k * searchCheckpointFrequency) = Inr cp \<and> cp_before cp n l)"
    using search_loop_before [of 0 ?m db n l] R by auto
  obtain cp where cp: "readSearchCheckpoint db (k * searchCheckpointFrequency) = Inr cp" using R [OF k(2)] by blast
  have "lc_nextEntryIndex (db_lastEntryContext db) \<noteq> 0" using s ctx_sim_fields(1) [OF s(2)] by simp
  with k cp have "searchCheckpoint db n l = Some (if cp_blockNum cp > n \<or> (cp_blockNum cp = n \<and> cp_logsSince cp > l)
       then Inl ErrSkipped else Inr (k * searchCheckpointFrequency))"
    by (simp add: searchCheckpoint_def Let_def)
  with that [of "k * searchCheckpointFrequency" cp] L [OF k(2)] cp k(3) show ?thesis
    by (auto simp: searchCheckpointFrequency_def)
qed

end
