(* ===== verification/Logs_Queries.thy ===== *)
theory Logs_Queries
  imports Logs_Search
begin

text \<open>
  The queries of the log database answer from the abstract chain: the sealed block with a number, the contents of a
  block, and whether a log is included.
\<close>

section \<open>Lists with repetitions\<close>

lemma sorted_remdups_adj_map: "sorted (map f (remdups_adj xs)) \<Longrightarrow> sorted (map f xs)"
  by (induction xs rule: remdups_adj.induct) (auto split: if_splits)

lemma remdups_adj_dropWhile: "remdups_adj (dropWhile P xs) = dropWhile P (remdups_adj xs)"
  by (induction xs rule: remdups_adj.induct) auto

lemma list_all2_dropWhile:
  "list_all2 R xs ys \<Longrightarrow> (\<And>x y. R x y \<Longrightarrow> P x = P y) \<Longrightarrow> list_all2 R (dropWhile P xs) (dropWhile P ys)"
  by (induction rule: list_all2_induct) auto

section \<open>The order of the chain\<close>

abbreviation number_of :: "block_seal \<times> log_record list \<Rightarrow> u64" where
  "number_of b \<equiv> seal_Number (fst b)"

abbreviation blocks_from :: "u64 \<Rightarrow> chain_log \<Rightarrow> chain_log" where
  "blocks_from n bs \<equiv> dropWhile (\<lambda>b. number_of b < n) bs"

lemma word_less_add_1: "w + 1 \<noteq> 0 \<Longrightarrow> w < w + 1" for w :: "'a::len word"
  by (simp add: word_less_nat_alt unatSuc add.commute)

lemma chain_sorted:
  assumes "chain_ok bs"
  shows "sorted_wrt (\<lambda>a b. number_of a < number_of b) bs"
proof -
  have "successively (\<lambda>a b. number_of a < number_of b) bs"
  proof (rule successively_mono)
    show "successively chain_next bs" using assms by (simp add: chain_ok_def)
    show "number_of a < number_of b" if "chain_next a b" for a b
      using that word_less_add_1 [of "number_of a"] by (auto simp: chain_next_def)
  qed
  moreover have "transp (\<lambda>a b. number_of a < number_of (b :: block_seal \<times> log_record list))"
    by (rule transpI) (rule order.strict_trans)
  ultimately show ?thesis by (simp add: successively_conv_sorted_wrt)
qed

lemma block_view_fst: "v \<in> set (block_view b) \<Longrightarrow> fst v = fst b"
  by (auto simp: block_view_def)

lemma chain_view_fst: "v \<in> set (chain_view bs) \<Longrightarrow> \<exists>b \<in> set bs. fst v = fst b"
  by (auto simp: chain_view_def dest!: block_view_fst intro: bexI)

lemma chain_view_Cons: "chain_view (b # bs) = block_view b @ chain_view bs"
  by (simp add: chain_view_def)

lemma view_sorted: "chain_ok bs \<Longrightarrow> sorted (map (\<lambda>v. seal_Number (fst v)) (chain_view bs))"
proof -
  have "sorted (map (\<lambda>v. seal_Number (fst v)) (chain_view bs))" if "sorted_wrt (\<lambda>a b. number_of a < number_of b) bs"
    using that
  proof (induction bs)
    case (Cons b bs)
    have "sorted (map (\<lambda>v. seal_Number (fst v)) (block_view b))"
      by (simp add: block_view_def comp_def sorted_wrt_map)
    moreover have "seal_Number (fst x) \<le> seal_Number (fst y)" if "x \<in> set (block_view b)" "y \<in> set (chain_view bs)" for x y
      using that block_view_fst [OF that(1)] chain_view_fst [OF that(2)] Cons.prems by (force intro: less_imp_le)
    ultimately show ?case using Cons by (simp add: chain_view_Cons sorted_append)
  qed simp
  then show "chain_ok bs \<Longrightarrow> ?thesis" using chain_sorted by blast
qed

lemma dropWhile_chain_view:
  "dropWhile (\<lambda>v. seal_Number (fst v) < n) (chain_view bs) = chain_view (blocks_from n bs)"
proof (induction bs)
  case (Cons b bs)
  show ?case
  proof (cases "number_of b < n")
    case True
    then have "\<forall>v \<in> set (block_view b). seal_Number (fst v) < n" using block_view_fst by metis
    with True Cons show ?thesis by (simp add: chain_view_Cons dropWhile_append2)
  next
    case False
    then show ?thesis by (simp add: chain_view_Cons block_view_def)
  qed
qed simp

text \<open>A number that is missing lies before the first block or after the last.\<close>

lemma blocks_from_gap:
  assumes "chain_ok bs" and "blocks_from n bs = b # bs'" and "number_of b \<noteq> n"
  shows "bs = b # bs' \<and> n < number_of b"
  using assms
proof (induction bs)
  case (Cons a bs)
  show ?case
  proof (cases "number_of a < n")
    case False
    with Cons.prems show ?thesis by auto
  next
    case True
    have ok: "chain_ok bs" using Cons.prems(1) by (cases bs) (auto simp: chain_ok_def)
    have "blocks_from n bs = b # bs'" using Cons.prems(2) True by simp
    with Cons.IH [OF ok this Cons.prems(3)] have "bs = b # bs'" "n < number_of b" by simp_all
    with Cons.prems(1) have "number_of b = number_of a + 1" by (simp add: chain_ok_def chain_next_def)
    with True \<open>n < number_of b\<close> have False
      by (metis inc_le linorder_not_less word_less_nat_alt)
    then show ?thesis ..
  qed
qed simp

section \<open>The iterator at a block\<close>

text \<open>The iterator stands at a complete state from which it sees the chain \<open>cs\<close>.\<close>

definition sees :: "log_db \<Rightarrow> log_context \<Rightarrow> observation list \<Rightarrow> bool" where
  "sees db q vs \<longleftrightarrow> lc_need q = 0 \<and> lc_nextEntryIndex q \<le> length (db_store db)
     \<and> apply_entries (take (lc_nextEntryIndex q) (db_store db)) zero_context = Some (Inr q)
     \<and> remdups_adj (map obs (q # stops (drop (lc_nextEntryIndex q) (db_store db)) q)) = vs"

lemma obs_number [simp]: "seal_Number (fst (obs c)) = lc_blockNum c"
  by (simp add: obs_def seal_of_def)

lemma stops_sorted:
  assumes "refines db bs"
  shows "sorted (map lc_blockNum (stops (db_store db) zero_context))"
proof -
  let ?M = "stops (db_store db) zero_context"
  have "remdups_adj (map obs ?M) = chain_view bs" "chain_ok bs" using assms by (simp_all add: refines_def)
  then have "sorted (map (\<lambda>v. seal_Number (fst v)) (map obs ?M))" using view_sorted sorted_remdups_adj_map by metis
  then show ?thesis by (simp add: comp_def)
qed

lemma stops_from:
  assumes "refines db bs"
  shows "remdups_adj (map obs (dropWhile (\<lambda>q. lc_blockNum q < n) (stops (db_store db) zero_context))) = chain_view (blocks_from n bs)"
proof -
  let ?M = "stops (db_store db) zero_context"
  have "map obs (dropWhile (\<lambda>q. lc_blockNum q < n) ?M) = dropWhile (\<lambda>v. seal_Number (fst v) < n) (map obs ?M)"
    by (simp add: dropWhile_map comp_def)
  with assms show ?thesis by (simp add: remdups_adj_dropWhile refines_def dropWhile_chain_view)
qed

lemma checkpoint_iterator_zero:
  "entry_Type e = TypeSearchCheckpoint \<Longrightarrow> ApplyEntry e (checkpoint_iterator 0) = ApplyEntry e zero_context"
  by (simp add: ApplyEntry_def processEntry_def process_checkpoint_def newIterator_def zero_context_def need_add_def flag_simps
      split: sum.splits)

lemma reach_sees:
  assumes "apply_entries xs c = Some (Inr q)" and "drop (lc_nextEntryIndex c) store = xs @ drop (lc_nextEntryIndex q) store"
    and "apply_entries (take (lc_nextEntryIndex c) store) zero_context = Some (Inr c)" and "lc_nextEntryIndex c \<le> length store"
  shows "apply_entries (take (lc_nextEntryIndex q) store) zero_context = Some (Inr q)" "lc_nextEntryIndex q \<le> length store"
proof -
  let ?n = "lc_nextEntryIndex c" and ?m = "lc_nextEntryIndex q"
  have m: "?m = ?n + length xs" using apply_entries_index [OF assms(1)] .
  have len: "length store - ?n = length xs + (length store - ?m)" using arg_cong [OF assms(2), of length] by simp
  with m assms(4) show "?m \<le> length store" by (cases "?m \<le> length store") auto
  have "take ?m store = take ?n store @ take (length xs) (drop ?n store)" by (simp add: m take_add)
  also have "\<dots> = take ?n store @ xs" by (simp add: assms(2))
  finally show "apply_entries (take ?m store) zero_context = Some (Inr q)"
    using apply_entries_append [OF assms(3), of xs] assms(1) by simp
qed

lemma found_sees:
  assumes "found store c q B" and "apply_entries (take (lc_nextEntryIndex c) store) zero_context = Some (Inr c)"
    and "lc_nextEntryIndex c \<le> length store"
  shows "apply_entries (take (lc_nextEntryIndex q) store) zero_context = Some (Inr q)" "lc_nextEntryIndex q \<le> length store"
  using assms reach_sees unfolding found_def by blast+

lemma find_block_sees:
  assumes "refines db bs" and "p mod 256 = 0" and "p < length (db_store db)" and "readSearchCheckpoint db p = Inr cp"
    and "p = 0 \<or> cp_blockNum cp < n"
  shows "case blocks_from n bs of
     [] \<Rightarrow> find_block (db_store db) n (checkpoint_iterator p) = Some (Inl ErrFuture)
   | b # bs' \<Rightarrow> if number_of b = n
       then \<exists>q. find_block (db_store db) n (checkpoint_iterator p) = Some (Inr q) \<and> sees db q (chain_view (b # bs'))
       else find_block (db_store db) n (checkpoint_iterator p) = Some (Inl ErrConflict)"
proof -
  let ?st = "db_store db" and ?z = "checkpoint_iterator p" and ?P = "\<lambda>q. lc_blockNum q < n"
  obtain a a' b' s s' cp' q0 B where v: "apply_entries (take p ?st) zero_context = Some (Inr a)"
    "lc_need a = 0 \<or> lc_need a = 2" "ApplyEntry (?st ! p) a = Some (Inr a')"
    "apply_entries (drop p ?st) a = Some (Inr s)" "aligned (drop p ?st) a"
    "ApplyEntry (?st ! p) ?z = Some (Inr b')" "ctx_sim a' b'"
    "apply_entries (drop p ?st) ?z = Some (Inr s')" "aligned (drop p ?st) ?z" "entry_Type (?st ! p) = TypeSearchCheckpoint"
    "readSearchCheckpoint db p = Inr cp'" "stops (drop p ?st) a = q0 # B" "lc_blockNum q0 = cp_blockNum cp'"
    "lc_logsSince q0 = cp_logsSince cp'" "list_all2 ctx_sim (q0 # B) (stops (drop p ?st) ?z)"
    using checkpoint_view [OF assms(1-3)] .
  have ia: "lc_nextEntryIndex a = p" using apply_entries_index [OF v(1)] assms(3) by (simp add: zero_context_def)
  have dr: "drop p ?st = ?st ! p # drop (Suc p) ?st" using assms(3) by (simp add: Cons_nth_drop_Suc)
  define M1 where "M1 = stops (take p ?st) zero_context"
  have M: "stops ?st zero_context = M1 @ q0 # B"
    using stops_append [OF v(1), of "drop p ?st"] v(12) by (simp add: M1_def)
  have early: "\<forall>x \<in> set M1. ?P x" if "p \<noteq> 0"
    using stops_sorted [OF assms(1)] that assms(4,5) v(11,13) by (auto simp: M sorted_append)
  have D: "dropWhile ?P (stops ?st zero_context) = dropWhile ?P (q0 # B)"
  proof (cases "p = 0")
    case True
    then have "M1 = []" by (simp add: M1_def)
    then show ?thesis by (simp add: M)
  next
    case False
    then show ?thesis unfolding M using early by (intro dropWhile_append2) blast
  qed
  note view = stops_from [OF assms(1), of n, unfolded D]
  have LA: "list_all2 ctx_sim (dropWhile ?P (q0 # B)) (dropWhile ?P (stops (drop p ?st) ?z))"
    by (rule list_all2_dropWhile [OF v(15)]) (simp add: ctx_sim_def)
  have F: "case dropWhile ?P (stops (drop p ?st) ?z) of [] \<Rightarrow> find_block ?st n ?z = Some (Inl ErrFuture)
     | q # B \<Rightarrow> if lc_blockNum q = n then find_block ?st n ?z = Some (Inr q) \<and> found ?st ?z q B
         else find_block ?st n ?z = Some (Inl ErrConflict)"
    using find_block_stops [of ?z ?st s' n] v(8-10) assms(3) dr by (simp add: checkpoint_iterator_fields)
  show ?thesis
  proof (cases "dropWhile ?P (q0 # B)")
    case Nil
    then have "chain_view (blocks_from n bs) = []" using view by simp
    moreover have "dropWhile ?P (stops (drop p ?st) ?z) = []" using LA Nil by simp
    ultimately show ?thesis using F by (simp del: dropWhile_eq_Nil_conv)
  next
    case (Cons q2 B2)
    then obtain q B' where q: "dropWhile ?P (stops (drop p ?st) ?z) = q # B'" "ctx_sim q2 q"
      using LA by (auto simp: list_all2_Cons1)
    have "chain_view (blocks_from n bs) \<noteq> []" using view Cons by (metis list.simps(8,9) remdups_adj_Nil_iff list.distinct(1))
    then obtain b bs' where b: "blocks_from n bs = b # bs'" by (cases "blocks_from n bs") auto
    have w: "remdups_adj (map obs (q2 # B2)) = chain_view (b # bs')" using view Cons b by simp
    have o: "obs q2 = (fst b, 0, 0, None)"
      using arg_cong [OF w, of hd] by (simp add: chain_view_Cons block_view_def)
    have num: "lc_blockNum q = number_of b" "lc_logsSince q = 0" "lc_blockNum q2 = number_of b" "lc_logsSince q2 = 0"
      using obs_number [of q2] o ctx_sim_fields [OF q(2)] by (auto simp: obs_def simp del: obs_number)
    show ?thesis
    proof (cases "number_of b = n")
      case False
      with F q num b show ?thesis by (simp del: dropWhile_eq_Cons_conv)
    next
      case True
      then have fb: "find_block ?st n ?z = Some (Inr q)" "found ?st ?z q B'" using F q num by (simp_all del: dropWhile_eq_Cons_conv)
      have "sees db q (chain_view (b # bs'))"
      proof (cases "p = 0")
        case p0: True
        then have a0: "a = zero_context" using v(1) by simp
        then have same: "stops (drop p ?st) ?z = stops (drop p ?st) zero_context"
          unfolding dr using checkpoint_iterator_zero [OF v(10)] p0 by simp
        then have "q = q2" "B' = B2" using q(1) v(12) Cons a0 by simp_all
        obtain xs where xs: "drop p ?st = xs @ drop (lc_nextEntryIndex q) ?st" "apply_entries xs ?z = Some (Inr q)"
          using fb(2) unfolding found_def checkpoint_iterator_fields by blast
        have "lc_need q = 0" using fb(2) by (simp add: found_def)
        then have "xs \<noteq> []" using xs(2) checkpoint_iterator_fields(1) [of p] by auto
        then obtain e es where e: "xs = e # es" "e = ?st ! p" using xs(1) dr by (cases xs) auto
        have "apply_entries xs zero_context = Some (Inr q)"
          using xs(2) checkpoint_iterator_zero [OF v(10)] p0 e by simp
        with fb(2) xs(1) p0 have "found ?st zero_context q B'" by (auto simp: found_def zero_context_def)
        from found_sees [OF this] have "apply_entries (take (lc_nextEntryIndex q) ?st) zero_context = Some (Inr q)"
          "lc_nextEntryIndex q \<le> length ?st" by (simp_all add: zero_context_def)
        with fb(2) w \<open>q = q2\<close> \<open>B' = B2\<close> show ?thesis by (simp add: sees_def found_def)
      next
        case False
        have "lc_need a = 2 \<or> lc_need a = 0 \<and> lc_blockNum a < n"
        proof (cases "lc_need a = 0")
          case True
          have "take p ?st \<noteq> []" using False assms(3) by auto
          then have "a \<in> set M1" using stops_last [OF v(1) True] by (metis M1_def last_in_set)
          with early False True show ?thesis by blast
        qed (use v(2) in simp)
        then have "case dropWhile ?P (stops (drop p ?st) a) of [] \<Rightarrow> find_block ?st n a = Some (Inl ErrFuture)
            | q # B \<Rightarrow> if lc_blockNum q = n then find_block ?st n a = Some (Inr q) \<and> found ?st a q B
               else find_block ?st n a = Some (Inl ErrConflict)"
          using find_block_stops [of a ?st s n] v(4,5,10) assms(3) dr ia by auto
        then have fa: "found ?st a q2 B2" using Cons v(12) num True by (simp del: dropWhile_eq_Cons_conv)
        have "q = q2"
          using q(2) fa fb(2) num by (intro log_context.equality) (auto simp: found_def ctx_sim_def)
        with fa found_sees [OF fa] v(1) ia assms(3) w show ?thesis by (simp add: sees_def found_def)
      qed
      with True fb b show ?thesis by simp
    qed
  qed
qed

lemma refines_first:
  assumes "refines db (b # bs)"
  shows "\<exists>cp. readSearchCheckpoint db 0 = Inr cp \<and> cp_blockNum cp = number_of b \<and> cp_logsSince cp = 0"
proof -
  have len: "0 < length (db_store db)" using refines_replay [OF assms] by (metis length_greater_0_conv list.distinct(1))
  obtain a cp q B where v: "apply_entries (take 0 (db_store db)) zero_context = Some (Inr a)" "readSearchCheckpoint db 0 = Inr cp"
    "stops (drop 0 (db_store db)) a = q # B" "lc_blockNum q = cp_blockNum cp" "lc_logsSince q = cp_logsSince cp"
    using checkpoint_view [OF assms _ len] by (metis mod_0)
  then have "remdups_adj (map obs (q # B)) = chain_view (b # bs)" using assms by (simp add: refines_def)
  from arg_cong [OF this, of hd] have "obs q = (fst b, 0, 0, None)" by (simp add: chain_view_Cons block_view_def)
  with v obs_number [of q] show ?thesis by (auto simp: obs_def simp del: obs_number)
qed

lemma newIteratorAt_block:
  assumes "refines db bs"
  shows "case blocks_from n bs of
     [] \<Rightarrow> newIteratorAt db n 0 = Some (Inl ErrFuture)
   | b # bs' \<Rightarrow> if number_of b = n then \<exists>q. newIteratorAt db n 0 = Some (Inr q) \<and> sees db q (chain_view (b # bs'))
       else newIteratorAt db n 0 = Some (Inl ErrSkipped)"
proof (cases bs)
  case Nil
  then have "lc_nextEntryIndex (db_lastEntryContext db) = 0"
    using refines_replay [OF assms] ctx_sim_fields(1) by (metis list.size(3))
  then show ?thesis by (simp add: Nil newIteratorAt_def searchCheckpoint_def)
next
  case (Cons c cs)
  obtain p cp where p: "p mod 256 = 0" "p < length (db_store db)" "readSearchCheckpoint db p = Inr cp" "p = 0 \<or> cp_before cp n 0"
    "searchCheckpoint db n 0 = Some (if cp_blockNum cp > n \<or> (cp_blockNum cp = n \<and> cp_logsSince cp > 0)
       then Inl ErrSkipped else Inr p)"
    using searchCheckpoint_spec [OF assms] Cons by blast
  have before: "p = 0 \<or> cp_blockNum cp < n" using p(4) by (auto simp: cp_before_def)
  have first: "cp_blockNum cp = number_of c \<and> cp_logsSince cp = 0" if "p = 0"
    using refines_first assms p(3) that Cons by fastforce
  note F = find_block_sees [OF assms p(1-3) before]
  show ?thesis
  proof (cases "number_of c > n")
    case True
    have "p = 0"
    proof (rule ccontr)
      assume "p \<noteq> 0"
      then have "cp_blockNum cp < n" using before by simp
      obtain a q B cp' where v: "apply_entries (take p (db_store db)) zero_context = Some (Inr a)"
         "readSearchCheckpoint db p = Inr cp'" "stops (drop p (db_store db)) a = q # B" "lc_blockNum q = cp_blockNum cp'"
        using checkpoint_view [OF assms p(1,2)] by metis
      have "stops (db_store db) zero_context = stops (take p (db_store db)) zero_context @ q # B"
        using stops_append [OF v(1), of "drop p (db_store db)"] v(3) by simp
      then have "q \<in> set (stops (db_store db) zero_context)" by simp
      then have "obs q \<in> set (remdups_adj (map obs (stops (db_store db) zero_context)))" by simp
      then have "obs q \<in> set (chain_view bs)" using assms by (simp only: refines_def)
      then obtain b where b: "b \<in> set bs" "fst (obs q) = fst b" using chain_view_fst by blast
      then have "number_of b < n" using obs_number [of q] v(2,4) p(3) \<open>cp_blockNum cp < n\<close> by simp
      have "sorted_wrt (\<lambda>a b. number_of a < number_of b) bs" using chain_sorted assms by (simp add: refines_def)
      with b(1) \<open>number_of b < n\<close> True Cons show False by auto
    qed
    with first True p(5) Cons show ?thesis by (auto simp: newIteratorAt_def)
  next
    case False
    have "searchCheckpoint db n 0 = Some (Inr p)" using p(5) before first False by auto
    then have nia: "newIteratorAt db n 0 = (case find_block (db_store db) n (checkpoint_iterator p) of
        None \<Rightarrow> None | Some (Inl err) \<Rightarrow> Some (Inl err) | Some (Inr c) \<Rightarrow> Some (Inr c))"
      by (simp add: newIteratorAt_def seek_log.simps split: option.split sum.split)
    show ?thesis
    proof (cases "blocks_from n bs")
      case Nil
      with F nia show ?thesis by (simp del: dropWhile_eq_Nil_conv)
    next
      case c: (Cons b bs')
      have "number_of b = n"
        using blocks_from_gap [OF _ c] assms False Cons by (auto simp: refines_def)
      with F nia c show ?thesis by (auto simp del: dropWhile_eq_Cons_conv)
    qed
  qed
qed

lemma sees_seal:
  assumes "sees db q (chain_view (b # bs))"
  shows "SealedBlock q = Some (seal_Hash (fst b), number_of b)" "SealedTimestamp q = Some (seal_Timestamp (fst b))"
    "lc_logsSince q = 0"
proof -
  have o: "obs q = (fst b, 0, 0, None)"
    using assms by (auto simp: sees_def chain_view_Cons block_view_def dest: arg_cong [where f = hd])
  then have q: "seal_of q = fst b" "lc_logsSince q = 0" by (simp_all add: obs_def)
  show "SealedBlock q = Some (seal_Hash (fst b), number_of b)" "SealedTimestamp q = Some (seal_Timestamp (fst b))"
    "lc_logsSince q = 0"
    using assms q(2)
    by (simp_all add: sees_def SealedBlock_def SealedTimestamp_def hasCompleteBlock_def flag_ops q(1) [symmetric] seal_of_def)
qed

lemma FindSealedBlock_chain:
  assumes "refines db bs"
  shows "FindSealedBlock db n = Some (case blocks_from n bs of [] \<Rightarrow> Inl ErrFuture
     | b # _ \<Rightarrow> if number_of b = n then Inr (fst b) else Inl ErrSkipped)"
proof (cases "blocks_from n bs")
  case Nil
  with newIteratorAt_block [OF assms, of n] show ?thesis by (simp add: FindSealedBlock_def del: dropWhile_eq_Nil_conv)
next
  case (Cons b bs')
  show ?thesis
  proof (cases "number_of b = n")
    case True
    with newIteratorAt_block [OF assms, of n] Cons obtain q where
      q: "newIteratorAt db n 0 = Some (Inr q)" "sees db q (chain_view (b # bs'))" by (auto simp del: dropWhile_eq_Cons_conv)
    with sees_seal [OF q(2)] True Cons show ?thesis by (simp add: FindSealedBlock_def del: dropWhile_eq_Cons_conv)
  next
    case False
    with newIteratorAt_block [OF assms, of n] Cons show ?thesis by (simp add: FindSealedBlock_def del: dropWhile_eq_Cons_conv)
  qed
qed

end
