(* ===== verification/Logs_Blocks.thy ===== *)
theory Logs_Blocks
  imports Logs_Queries
begin

text \<open>
  The contents of a block: \<open>OpenBlock\<close> returns the reference, the count of the logs and the executing messages of
  the block in the abstract chain.
\<close>

section \<open>Traversals\<close>

text \<open>What a traversal does on the complete states it passes.\<close>

fun walk :: "(log_context \<Rightarrow> 's \<Rightarrow> super_error option \<times> 's) \<Rightarrow> log_context list \<Rightarrow> 's \<Rightarrow> super_error \<times> log_context option \<times> 's" where
  "walk fn [] s = (ErrFuture, None, s)"
| "walk fn (q # qs) s =
     (case fn q s of
        (None, s) \<Rightarrow> walk fn qs s
      | (Some err, s) \<Rightarrow> (err, if err = ErrStop then Some q else None, s))"

lemma TraverseConditional_walk:
  assumes "apply_entries (drop (lc_nextEntryIndex c) store) c = Some (Inr z)"
  shows "\<exists>d. TraverseConditional fn store c s
       = Some (fst (walk fn (stops (drop (lc_nextEntryIndex c) store) c) s), d, snd (snd (walk fn (stops (drop (lc_nextEntryIndex c) store) c) s)))
     \<and> (\<forall>q. fst (snd (walk fn (stops (drop (lc_nextEntryIndex c) store) c) s)) = Some q \<longrightarrow> d = q)"
  using assms
proof (induction "unread store c" arbitrary: c s rule: less_induct)
  case less
  let ?n = "lc_nextEntryIndex c"
  show ?case
  proof (cases "?n < length store")
    case False
    then show ?thesis by (subst TraverseConditional.simps) (simp add: it_next_def)
  next
    case True
    let ?e = "store ! ?n" and ?es = "drop (Suc ?n) store"
    have dr: "drop ?n store = ?e # ?es" using True by (simp add: Cons_nth_drop_Suc)
    obtain d where d: "ApplyEntry ?e c = Some (Inr d)" "apply_entries ?es d = Some (Inr z)"
      using apply_entries_Cons less.prems dr by metis
    have nx: "it_next store c = Some (Inr (entry_Type ?e, d))" using True d by (simp add: it_next_def)
    have i: "lc_nextEntryIndex d = Suc ?n" using it_next_index [OF nx] by simp
    note IH = less.hyps [OF it_next_unread [OF nx], unfolded i, OF d(2)]
    show ?thesis
    proof (cases "lc_need d = 0")
      case False
      with IH [of s] show ?thesis by (subst TraverseConditional.simps) (simp add: nx dr d(1))
    next
      case need: True
      obtain r s1 where f: "fn d s = (r, s1)" by fastforce
      show ?thesis
      proof (cases r)
        case None
        with IH [of s1] need f show ?thesis by (subst TraverseConditional.simps) (simp add: nx dr d(1))
      next
        case (Some err)
        with need f show ?thesis by (subst TraverseConditional.simps) (simp add: nx dr d(1))
      qed
    qed
  qed
qed

text \<open>The same on what is seen of the states.\<close>

fun owalk :: "(observation \<Rightarrow> 's \<Rightarrow> super_error option \<times> 's) \<Rightarrow> observation list \<Rightarrow> 's \<Rightarrow> super_error \<times> 's" where
  "owalk fn [] s = (ErrFuture, s)"
| "owalk fn (v # vs) s = (case fn v s of (None, s) \<Rightarrow> owalk fn vs s | (Some err, s) \<Rightarrow> (err, s))"

lemma walk_obs:
  "(\<And>q s. q \<in> set qs \<Longrightarrow> fn q s = ofn (obs q) s)
     \<Longrightarrow> (fst (walk fn qs s), snd (snd (walk fn qs s))) = owalk ofn (map obs qs) s"
  by (induction qs arbitrary: s) (auto split: prod.splits option.splits)

lemma owalk_remdups:
  "(\<And>v s s'. fn v s = (None, s') \<Longrightarrow> fn v s' = (None, s')) \<Longrightarrow> owalk fn (remdups_adj vs) s = owalk fn vs s"
proof (induction vs arbitrary: s rule: remdups_adj.induct)
  case (3 x y xs)
  show ?case
  proof (cases "x = y")
    case True
    obtain r s1 where f: "fn x s = (r, s1)" by fastforce
    show ?thesis
    proof (cases r)
      case None
      then have "fn x s1 = (None, s1)" using 3(3) f by simp
      with True 3(1) [OF True 3(3)] f None show ?thesis by simp
    next
      case (Some err)
      with True 3(1) [OF True 3(3)] f show ?thesis by simp
    qed
  next
    case False
    with 3(2) [OF False 3(3)] show ?thesis by (simp split: prod.splits option.splits)
  qed
qed simp_all

lemma owalk_pass:
  "(\<And>v s. v \<in> set xs \<Longrightarrow> fst (fn v s) = None) \<Longrightarrow> owalk fn (xs @ ys) s = owalk fn ys (fold (\<lambda>v s. snd (fn v s)) xs s)"
proof (induction xs arbitrary: s)
  case (Cons x xs)
  obtain s1 where "fn x s = (None, s1)" using Cons.prems [of x s] by (cases "fn x s") auto
  with Cons show ?case by simp
qed simp

lemma stops_need: "q \<in> set (stops es c) \<Longrightarrow> lc_need q = 0"
  by (induction es arbitrary: c) (auto split: option.splits sum.splits if_splits)

lemma sees_apply:
  assumes "refines db bs" and "sees db q vs"
  shows "\<exists>s. apply_entries (drop (lc_nextEntryIndex q) (db_store db)) q = Some (Inr s)"
proof -
  obtain s where "apply_entries (db_store db) zero_context = Some (Inr s)" using refines_replay [OF assms(1)] .
  moreover have "apply_entries (take (lc_nextEntryIndex q) (db_store db)) zero_context = Some (Inr q)"
    using assms(2) by (simp add: sees_def)
  from apply_entries_append [OF this, of "drop (lc_nextEntryIndex q) (db_store db)"]
  have "apply_entries (drop (lc_nextEntryIndex q) (db_store db)) q = apply_entries (db_store db) zero_context" by simp
  ultimately show ?thesis by simp
qed

section \<open>Opening a block\<close>

definition open_obs :: "u64 \<Rightarrow> observation \<Rightarrow> open_state \<Rightarrow> super_error option \<times> open_state" where
  "open_obs n v s =
     (case (v, s) of ((b, k, h, m), (ref, cnt, ms)) \<Rightarrow>
        let cnt = (if k > 0 then k else cnt);
            ms = (case m of Some e \<Rightarrow> if k > 0 then gm_put (k - 1) e ms else ms | None \<Rightarrow> ms)
        in if seal_Number b = n
           then (Some ErrStop, ref\<lparr>l1_number := n, l1_hash := seal_Hash b, l1_time := seal_Timestamp b\<rparr>, cnt, ms)
           else if seal_Number b > n then (Some ErrDataCorruption, ref, cnt, ms)
           else (None, ref, cnt, ms))"

lemma open_visit_obs: "lc_need q = 0 \<Longrightarrow> open_visit n q s = open_obs n (obs q) s"
  by (cases s) (auto simp: open_visit_def open_obs_def obs_def seal_of_def InitMessage_def ExecMessage_def SealedBlock_def
      SealedTimestamp_def hasReadableLog_def hasIncompleteLog_def hasCompleteBlock_def flag_ops word_gt_0 Let_def split: option.splits)

lemma gm_put_idem: "gm_put k v (gm_put k v m) = gm_put k v m"
  by (induction m) (auto simp: gm_put_def)

lemma open_obs_idem: "open_obs n v s = (None, s') \<Longrightarrow> open_obs n v s' = (None, s')"
  by (cases v, cases s) (auto simp: open_obs_def gm_put_idem Let_def split: option.splits if_splits)

text \<open>The executing messages of a block, by the index of their log.\<close>

fun exec_map :: "log_record list \<Rightarrow> nat \<Rightarrow> (u32, executing_message) gomap \<Rightarrow> (u32, executing_message) gomap" where
  "exec_map [] k ms = ms"
| "exec_map ((h, m) # rs) k ms = exec_map rs (Suc k) (case m of Some e \<Rightarrow> gm_put (of_nat k) e ms | None \<Rightarrow> ms)"

lemma exec_map_snoc:
  "exec_map (rs @ [(h, m)]) k ms
     = (case m of Some e \<Rightarrow> gm_put (of_nat (k + length rs)) e (exec_map rs k ms) | None \<Rightarrow> exec_map rs k ms)"
  by (induction rs k ms rule: exec_map.induct) (auto split: option.splits)

lemma exec_map_get:
  "k + length rs \<le> 2 ^ 32 \<Longrightarrow> gm_inv ms \<Longrightarrow> gm_get (exec_map rs k ms) i
     = (if k \<le> unat i \<and> unat i < k + length rs then case snd (rs ! (unat i - k)) of Some e \<Rightarrow> Some e | None \<Rightarrow> gm_get ms i
        else gm_get ms i)"
proof (induction rs k ms rule: exec_map.induct)
  case (2 h m rs k ms)
  let ?ms = "case m of Some e \<Rightarrow> gm_put (of_nat k) e ms | None \<Rightarrow> ms"
  have inv: "gm_inv ?ms" using "2.prems"(2) by (auto simp: gomap_simps split: option.splits)
  have k: "unat (of_nat k :: u32) = k" using "2.prems"(1) by (intro of_nat_inverse [OF refl]) simp
  have i: "gm_get ?ms i = (if unat i = k \<and> m \<noteq> None then m else gm_get ms i)"
    using "2.prems"(2) k by (auto simp: gomap_simps split: option.splits)
  from "2.IH" [OF _ inv] "2.prems"(1)
  have "gm_get (exec_map ((h, m) # rs) k ms) i = (if Suc k \<le> unat i \<and> unat i < Suc k + length rs
      then case snd (rs ! (unat i - Suc k)) of Some e \<Rightarrow> Some e | None \<Rightarrow> gm_get ?ms i else gm_get ?ms i)" by simp
  then show ?case
    by (cases "unat i = k"; cases "unat i < k") (auto simp: i nth_Cons' split: option.splits)
qed auto

lemma open_block_fold:
  assumes "seal_Number b < n" and "length rs < 2 ^ 32"
  shows "fold (\<lambda>v s. snd (open_obs n v s)) (block_view (b, rs)) (ref, 0, []) = (ref, of_nat (length rs), exec_map rs 0 [])"
  using assms(2)
proof (induction rs rule: rev_induct)
  case Nil
  with assms(1) show ?case by (auto simp: block_view_def open_obs_def)
next
  case (snoc r rs)
  obtain h m where r: "r = (h, m)" by fastforce
  have "\<not> 2 ^ LENGTH(32) dvd Suc (length rs)" using snoc.prems by (intro nat_dvd_not_less) simp_all
  then have "of_nat (Suc (length rs)) \<noteq> (0 :: u32)" unfolding word_of_nat_eq_0_iff .
  with snoc assms(1) show ?case
    by (auto simp: r block_view_snoc open_obs_def exec_map_snoc word_gt_0 Let_def split: option.splits)
qed

definition open_chain :: "u64 \<Rightarrow> chain_log \<Rightarrow> super_error option \<times> open_state" where
  "open_chain n bs =
     (case blocks_from (n - 1) bs of
        [] \<Rightarrow> (Some ErrFuture, zero_l1, 0, [])
      | (b, rs) # bs' \<Rightarrow>
          if seal_Number b \<noteq> n - 1 then (Some ErrSkipped, zero_l1, 0, [])
          else case bs' of
                 [] \<Rightarrow> (Some ErrFuture, zero_l1\<lparr>l1_parent := seal_Hash b\<rparr>, of_nat (length rs), exec_map rs 0 [])
               | (b', _) # _ \<Rightarrow>
                   (None, \<lparr>l1_hash = seal_Hash b', l1_number = n, l1_parent = seal_Hash b, l1_time = seal_Timestamp b'\<rparr>,
                    of_nat (length rs), exec_map rs 0 []))"

lemma OpenBlock_chain:
  assumes "refines db bs" and "n \<noteq> 0"
  shows "OpenBlock db n = Some (open_chain n bs)"
proof (cases "blocks_from (n - 1) bs")
  case Nil
  with newIteratorAt_block [OF assms(1), of "n - 1"] assms(2) show ?thesis
    by (simp add: OpenBlock_def open_chain_def del: dropWhile_eq_Nil_conv)
next
  case (Cons c bs')
  obtain b rs where c: "c = (b, rs)" by fastforce
  show ?thesis
  proof (cases "seal_Number b = n - 1")
    case False
    with newIteratorAt_block [OF assms(1), of "n - 1"] assms(2) Cons c show ?thesis
      by (simp add: OpenBlock_def open_chain_def del: dropWhile_eq_Cons_conv)
  next
    case True
    with newIteratorAt_block [OF assms(1), of "n - 1"] Cons c obtain q where
      q: "newIteratorAt db (n - 1) 0 = Some (Inr q)" "sees db q (chain_view ((b, rs) # bs'))" by (auto simp del: dropWhile_eq_Cons_conv)
    let ?qs = "stops (drop (lc_nextEntryIndex q) (db_store db)) q"
    let ?ref = "zero_l1\<lparr>l1_parent := seal_Hash b\<rparr>"
    obtain z where z: "apply_entries (drop (lc_nextEntryIndex q) (db_store db)) q = Some (Inr z)" using sees_apply [OF assms(1) q(2)] ..
    have b: "seal_Number b < n" using True assms(2) word_less_add_1 [of "n - 1"] by simp
    have mem: "set bs' \<subseteq> set bs" "(b, rs) \<in> set bs" using Cons c set_dropWhileD [of _ "\<lambda>b. number_of b < n - 1" bs] by auto
    then have len: "length rs < 2 ^ 32" using assms(1) by (auto simp: refines_def chain_ok_def)
    have o: "obs q = (b, 0, 0, None)"
      using q(2) by (auto simp: sees_def chain_view_Cons block_view_def dest: arg_cong [where f = hd])
    have "owalk (open_obs n) (map obs ?qs) (?ref, 0, []) = owalk (open_obs n) (obs q # map obs ?qs) (?ref, 0, [])"
      using b by (auto simp: o open_obs_def)
    also have "\<dots> = owalk (open_obs n) (remdups_adj (obs q # map obs ?qs)) (?ref, 0, [])"
      by (rule owalk_remdups [symmetric]) (rule open_obs_idem)
    also have "remdups_adj (obs q # map obs ?qs) = block_view (b, rs) @ chain_view bs'"
      using q(2) by (simp add: sees_def chain_view_Cons)
    also have "owalk (open_obs n) (block_view (b, rs) @ chain_view bs') (?ref, 0, [])
       = owalk (open_obs n) (chain_view bs') (?ref, of_nat (length rs), exec_map rs 0 [])"
    proof -
      have "fst (open_obs n v s) = None" if "v \<in> set (block_view (b, rs))" for v s
        using block_view_fst [OF that] b by (cases v, cases s) (auto simp: open_obs_def Let_def)
      then show ?thesis using owalk_pass [of "block_view (b, rs)" "open_obs n"] open_block_fold [OF b len] by simp
    qed
    finally have W: "owalk (open_obs n) (map obs ?qs) (?ref, 0, [])
       = owalk (open_obs n) (chain_view bs') (?ref, of_nat (length rs), exec_map rs 0 [])" .
    obtain err s' where ow: "owalk (open_obs n) (chain_view bs') (?ref, of_nat (length rs), exec_map rs 0 []) = (err, s')" by (metis prod.exhaust)
    have "(fst (walk (open_visit n) ?qs (?ref, 0, [])), snd (snd (walk (open_visit n) ?qs (?ref, 0, []))))
       = owalk (open_obs n) (map obs ?qs) (?ref, 0, [])"
      by (rule walk_obs) (simp add: open_visit_obs stops_need)
    then have "fst (walk (open_visit n) ?qs (?ref, 0, [])) = err" "snd (snd (walk (open_visit n) ?qs (?ref, 0, []))) = s'"
      unfolding W ow by simp_all
    then obtain d where "TraverseConditional (open_visit n) (db_store db) q (?ref, 0, []) = Some (err, d, s')"
      using TraverseConditional_walk [OF z, of "open_visit n" "(?ref, 0, [])"] by auto
    with sees_seal(1) [OF q(2)] assms(2) q(1) ow
    have O: "OpenBlock db n = Some (case owalk (open_obs n) (chain_view bs') (?ref, of_nat (length rs), exec_map rs 0 []) of
        (err, s) \<Rightarrow> (if err = ErrStop then None else Some err, s))"
      by (simp add: OpenBlock_def Let_def)
    show ?thesis
    proof (cases bs')
      case Nil
      with O True Cons c show ?thesis by (simp add: open_chain_def del: dropWhile_eq_Cons_conv)
    next
      case c2: (Cons c' cs)
      obtain b' rs' where c': "c' = (b', rs')" by fastforce
      have "successively chain_next (takeWhile (\<lambda>b. number_of b < n - 1) bs @ blocks_from (n - 1) bs)"
        using assms(1) by (simp add: refines_def chain_ok_def)
      then have "successively chain_next (blocks_from (n - 1) bs)" by (simp only: successively_append_iff)
      then have "seal_Number b' = n" using Cons c c2 c' True by (simp add: chain_next_def del: dropWhile_eq_Cons_conv)
      with O True Cons c c2 c' show ?thesis
        by (simp add: open_chain_def chain_view_Cons block_view_def open_obs_def zero_l1_def del: dropWhile_eq_Cons_conv)
    qed
  qed
qed

end
