(* ===== verification/Logs_Contains.thy ===== *)
theory Logs_Contains
  imports Logs_Blocks
begin

text \<open>
  The inclusion check: \<open>Contains\<close> finds a log exactly when the abstract chain has it, in the block, at the index and
  with the timestamp and the checksum of the query.
\<close>

section \<open>The next log\<close>

lemma entry_need:
  assumes "ApplyEntry e c = Some (Inr d)" and "aligned (e # es) c"
  shows "entry_Type e = TypeInitiatingEvent \<Longrightarrow> lc_need c = 0 \<and> seal_of d = seal_of c
       \<and> (lc_need d = 0 \<and> lc_logsSince d = lc_logsSince c + 1 \<or> lc_need d = 24 \<and> lc_logsSince d = lc_logsSince c)"
    "entry_Type e = TypeExecutingLink \<Longrightarrow> lc_need c = 24 \<and> lc_need d = 16 \<and> seal_of d = seal_of c \<and> lc_logsSince d = lc_logsSince c"
    "entry_Type e = TypeExecutingCheck \<Longrightarrow> lc_need c = 16 \<and> lc_need d = 0 \<and> seal_of d = seal_of c \<and> lc_logsSince d = lc_logsSince c + 1"
    "entry_Type e = TypePadding \<Longrightarrow> d = c\<lparr>lc_nextEntryIndex := Suc (lc_nextEntryIndex c)\<rparr> \<and> lc_need c \<noteq> 2"
    "entry_Type e \<in> {TypeSearchCheckpoint, TypeCanonicalHash, TypeInitiatingEvent, TypeExecutingLink, TypeExecutingCheck, TypePadding}"
proof -
  have n: "lc_need c = 0 \<or> lc_need c = 2 \<or> lc_need c = 16 \<or> lc_need c = 24"
    and two: "entry_Type e \<noteq> TypeSearchCheckpoint \<Longrightarrow> entry_Type e \<noteq> TypeCanonicalHash \<Longrightarrow> lc_need c \<noteq> 2"
    using assms(2) by auto
  note defs = ApplyEntry_def processEntry_def need_add_def need_remove_def flag_ops flag_values type_values Let_def seal_of_def
  show "lc_need c = 0 \<and> seal_of d = seal_of c
       \<and> (lc_need d = 0 \<and> lc_logsSince d = lc_logsSince c + 1 \<or> lc_need d = 24 \<and> lc_logsSince d = lc_logsSince c)"
    if "entry_Type e = TypeInitiatingEvent"
    using n assms(1) that
    by (auto simp: defs process_event_def hasCompleteBlock_def hasIncompleteLog_def split: if_splits sum.splits)
  show "lc_need c = 24 \<and> lc_need d = 16 \<and> seal_of d = seal_of c \<and> lc_logsSince d = lc_logsSince c"
    if "entry_Type e = TypeExecutingLink"
    using n assms(1) that by (auto simp: defs process_link_def split: if_splits sum.splits)
  show "lc_need c = 16 \<and> lc_need d = 0 \<and> seal_of d = seal_of c \<and> lc_logsSince d = lc_logsSince c + 1"
    if "entry_Type e = TypeExecutingCheck"
    using n assms(1) that by (auto simp: defs process_check_def split: if_splits sum.splits option.splits)
  show "d = c\<lparr>lc_nextEntryIndex := Suc (lc_nextEntryIndex c)\<rparr> \<and> lc_need c \<noteq> 2"
    if "entry_Type e = TypePadding"
    using n two assms(1) that by (auto simp: defs process_padding_def split: if_splits)
  show "entry_Type e \<in> {TypeSearchCheckpoint, TypeCanonicalHash, TypeInitiatingEvent, TypeExecutingLink, TypeExecutingCheck, TypePadding}"
    using assms(1) by (auto simp: ApplyEntry_def processEntry_def Let_def split: if_splits)
qed

text \<open>The state after the next log, and the entries after it.\<close>

fun log_at :: "log_entry list \<Rightarrow> log_context \<Rightarrow> (log_context \<times> log_entry list) option" where
  "log_at [] c = None"
| "log_at (e # es) c =
     (case ApplyEntry e c of
        Some (Inr d) \<Rightarrow>
          if lc_need d = 0 \<and> (entry_Type e = TypeInitiatingEvent \<or> entry_Type e = TypeExecutingCheck) then Some (d, es)
          else log_at es d
      | _ \<Rightarrow> None)"

lemma next_init_log_at:
  assumes "apply_entries (drop (lc_nextEntryIndex c) store) c = Some (Inr s)" and "aligned (drop (lc_nextEntryIndex c) store) c"
    and "b \<longleftrightarrow> lc_need c = 16 \<or> lc_need c = 24"
  shows "next_init b store c = (case log_at (drop (lc_nextEntryIndex c) store) c of
     None \<Rightarrow> Some (Some ErrFuture, s) | Some (d, _) \<Rightarrow> Some (None, d))"
  using assms
proof (induction "unread store c" arbitrary: b c rule: less_induct)
  case less
  let ?n = "lc_nextEntryIndex c"
  show ?case
  proof (cases "?n < length store")
    case False
    with less.prems(1) show ?thesis by (subst next_init.simps) (simp add: it_next_def)
  next
    case True
    let ?e = "store ! ?n" and ?es = "drop (Suc ?n) store"
    have dr: "drop ?n store = ?e # ?es" using True by (simp add: Cons_nth_drop_Suc)
    obtain d where d: "ApplyEntry ?e c = Some (Inr d)" "apply_entries ?es d = Some (Inr s)"
      using apply_entries_Cons less.prems(1) dr by metis
    have nx: "it_next store c = Some (Inr (entry_Type ?e, d))" using True d by (simp add: it_next_def)
    have i: "lc_nextEntryIndex d = Suc ?n" using it_next_index [OF nx] by simp
    have al: "aligned (?e # ?es) c" using less.prems(2) dr by simp
    then have al': "aligned ?es d" using d(1) by simp
    note E = entry_need [OF d(1) al] entry_step [OF d(1) al]
    have IH: "next_init b' store d = (case log_at ?es d of None \<Rightarrow> Some (Some ErrFuture, s) | Some (d', _) \<Rightarrow> Some (None, d'))"
      if "b' \<longleftrightarrow> lc_need d = 16 \<or> lc_need d = 24" for b'
      using less.hyps [OF it_next_unread [OF nx]] d(2) al' that i by simp
    note defs = nx dr d(1) hasCompleteBlock_def hasIncompleteLog_def flag_ops flag_values
    consider "entry_Type ?e = TypeSearchCheckpoint" | "entry_Type ?e = TypeCanonicalHash" | "entry_Type ?e = TypeInitiatingEvent"
      | "entry_Type ?e = TypeExecutingLink" | "entry_Type ?e = TypeExecutingCheck" | "entry_Type ?e = TypePadding"
      using E(5) by blast
    then show ?thesis
    proof cases
      case 1
      then have "lc_need d = 2" using E(6) by simp
      moreover have "\<not> b" using less.prems(3) al 1 by auto
      ultimately show ?thesis using 1 IH [of False]
        by (subst next_init.simps) (simp add: defs type_values)
    next
      case 2
      then have "lc_need c = 2" "lc_need d = 0" using E(7) by simp_all
      then show ?thesis using 2 less.prems(3) IH [of False]
        by (subst next_init.simps) (simp add: defs type_values)
    next
      case 3
      then have "lc_need c = 0" "lc_need d = 0 \<or> lc_need d = 24" using E(1) by auto
      then show ?thesis using 3 less.prems(3) IH [of True]
        by (subst next_init.simps) (auto simp: defs)
    next
      case 4
      then have "lc_need c = 24" "lc_need d = 16" using E(2) by auto
      then show ?thesis using 4 less.prems(3) IH [of True]
        by (subst next_init.simps) (simp add: defs type_values)
    next
      case 5
      then have "lc_need c = 16" "lc_need d = 0" using E(3) by auto
      then show ?thesis using 5 less.prems(3)
        by (subst next_init.simps) (simp add: defs)
    next
      case 6
      then have "lc_need d = lc_need c" "lc_need c \<noteq> 2" using E(4) by auto
      moreover have "lc_need c = 0 \<or> lc_need c = 2 \<or> lc_need c = 16 \<or> lc_need c = 24" using al by simp
      ultimately show ?thesis using 6 less.prems(3) IH [of b]
        by (subst next_init.simps) (auto simp: defs type_values)
    qed
  qed
qed

lemma log_at_split:
  assumes "log_at es c = Some (d, ys)"
  shows "\<exists>xs. es = xs @ ys \<and> apply_entries xs c = Some (Inr d) \<and> lc_need d = 0"
  using assms
proof (induction es arbitrary: c)
  case (Cons e es)
  then obtain c1 where c1: "ApplyEntry e c = Some (Inr c1)" by (auto split: option.splits sum.splits)
  show ?case
  proof (cases "lc_need c1 = 0 \<and> (entry_Type e = TypeInitiatingEvent \<or> entry_Type e = TypeExecutingCheck)")
    case True
    with Cons.prems c1 show ?thesis by (intro exI [of _ "[e]"]) auto
  next
    case False
    then have "log_at es c1 = Some (d, ys)" using Cons.prems c1 by (simp split: if_splits)
    from Cons.IH [OF this] obtain xs where "es = xs @ ys" "apply_entries xs c1 = Some (Inr d)" "lc_need d = 0" by blast
    with c1 show ?thesis by (intro exI [of _ "e # xs"]) simp
  qed
qed simp

lemma event_same:
  assumes "ctx_sim a b" and "ApplyEntry e a = Some (Inr a')" and "entry_Type e = TypeInitiatingEvent"
  shows "ApplyEntry e b = Some (Inr a')"
proof -
  have b: "b = a\<lparr>lc_logHash := lc_logHash b, lc_execMsg := lc_execMsg b\<rparr>"
    using assms(1) by (intro log_context.equality) (simp_all add: ctx_sim_def)
  show ?thesis
    using assms(2,3)
    by (subst b) (auto simp: ApplyEntry_def processEntry_def process_event_def hasCompleteBlock_def hasIncompleteLog_def
        need_add_def need_remove_def type_values Let_def split: if_splits sum.splits)
qed

lemma log_at_sim:
  assumes "ctx_sim a b" and "lc_need a = 16 \<or> lc_need a = 24 \<longrightarrow> b = a" and "apply_entries es a = Some (Inr s)" and "aligned es a"
  shows "log_at es b = log_at es a"
  using assms
proof (induction es arbitrary: a b)
  case (Cons e es)
  obtain a1 where a1: "ApplyEntry e a = Some (Inr a1)" "apply_entries es a1 = Some (Inr s)"
    using apply_entries_Cons [OF Cons.prems(3)] .
  have al: "aligned es a1" using Cons.prems(4) a1(1) by simp
  note E = entry_need [OF a1(1) Cons.prems(4)] entry_step [OF a1(1) Cons.prems(4)]
  obtain b1 where b1: "ApplyEntry e b = Some (Inr b1)" "ctx_sim a1 b1"
    using processEntry_sim [OF Cons.prems(1)] a1(1) unfolding ApplyEntry_def by blast
  have "b1 = a1" if "lc_need a1 = 16 \<or> lc_need a1 = 24 \<or> entry_Type e = TypeExecutingCheck \<or> entry_Type e = TypeInitiatingEvent"
  proof (cases "entry_Type e = TypeInitiatingEvent")
    case True
    with event_same [OF Cons.prems(1) a1(1)] b1(1) show ?thesis by simp
  next
    case False
    have "lc_need a = 16 \<or> lc_need a = 24" using that False E by (auto simp: type_values)
    with Cons.prems(2) a1(1) b1(1) show ?thesis by simp
  qed
  with Cons.IH [OF b1(2) _ a1(2) al] a1(1) b1(1) ctx_sim_fields(6) [OF b1(2)] show ?case by auto
qed simp

text \<open>Neighbours in the view of a chain: the next log of the block, or the next block.\<close>

definition view_next :: "observation \<Rightarrow> observation \<Rightarrow> bool" where
  "view_next v w \<longleftrightarrow> (if fst (snd w) = 0 then fst w \<noteq> fst v else fst w = fst v \<and> fst (snd w) = fst (snd v) + 1)"

text \<open>The last complete state and what has been read since.\<close>

definition since :: "observation \<Rightarrow> log_context \<Rightarrow> bool" where
  "since v c \<longleftrightarrow> (lc_need c = 0 \<longrightarrow> v = obs c) \<and> (lc_need c = 2 \<longrightarrow> lc_logsSince c = 0 \<or> lc_logsSince c = fst (snd v))
     \<and> (lc_need c = 16 \<or> lc_need c = 24 \<longrightarrow> seal_of c = fst v \<and> lc_logsSince c = fst (snd v))"

lemma obs_fst [simp]: "fst (obs c) = seal_of c" "fst (snd (obs c)) = lc_logsSince c"
  by (simp_all add: obs_def)

lemma seal_of_number [simp]: "seal_Number (seal_of c) = lc_blockNum c"
  by (simp add: seal_of_def)

lemma log_at_obs:
  assumes "apply_entries es c = Some (Inr s)" and "aligned es c" and "steady es c" and "since v c"
    and "remdups_adj (v # map obs (stops es c)) = v # vs" and "successively view_next (v # vs)"
  shows "case dropWhile (\<lambda>w. fst (snd w) = 0) vs of
     [] \<Rightarrow> log_at es c = None
   | w # ws \<Rightarrow> \<exists>d ys. log_at es c = Some (d, ys) \<and> obs d = w \<and> remdups_adj (map obs (d # stops ys d)) = w # ws"
  using assms
proof (induction es arbitrary: c v vs)
  case Nil
  then show ?case by simp
next
  case (Cons e es)
  obtain d where d: "ApplyEntry e c = Some (Inr d)" "apply_entries es d = Some (Inr s)"
    using apply_entries_Cons [OF Cons.prems(1)] .
  have al: "aligned es d" and sd: "steady es d" using Cons.prems(2,3) d(1) by simp_all
  have n: "lc_need c = 0 \<or> lc_need c = 2 \<or> lc_need c = 16 \<or> lc_need c = 24" using Cons.prems(2) by simp
  note E = entry_need [OF d(1) Cons.prems(2)] entry_step [OF d(1) Cons.prems(2)]
  consider (log) "lc_need d = 0" "entry_Type e = TypeInitiatingEvent \<or> entry_Type e = TypeExecutingCheck"
    | (part) "lc_need d \<noteq> 0" | (pad) "lc_need d = 0" "entry_Type e = TypePadding" | (seal) "entry_Type e = TypeCanonicalHash"
    using E(2,5,6) by (cases "lc_need d = 0") auto
  then show ?case
  proof cases
    case log
    have "seal_of d = fst v \<and> lc_logsSince d = fst (snd v) + 1"
    proof (cases "entry_Type e = TypeInitiatingEvent")
      case True
      have v: "v = obs c" using E(1) [OF True] Cons.prems(4) by (simp add: since_def)
      show ?thesis unfolding v obs_fst using E(1) [OF True] log(1) by auto
    next
      case False
      then have "entry_Type e = TypeExecutingCheck" using log(2) by blast
      from E(3) [OF this] Cons.prems(4) show ?thesis by (simp add: since_def)
    qed
    then have c: "seal_of d = fst v" "lc_logsSince d = fst (snd v) + 1" by simp_all
    then have "fst (snd (obs d)) \<noteq> fst (snd v)" by simp
    then have ne: "obs d \<noteq> v" by blast
    then have vs: "vs = remdups_adj (obs d # map obs (stops es d))"
      using Cons.prems(5) d(1) log(1) by auto
    then obtain ws where ws: "vs = obs d # ws" unfolding remdups_adj_Cons' by blast
    then have "lc_logsSince d \<noteq> 0" using Cons.prems(6) c by (auto simp: view_next_def)
    with ws vs log d(1) show ?thesis by auto
  next
    case part
    have "since v d"
    proof -
      have "entry_Type e \<noteq> TypeCanonicalHash" "entry_Type e \<noteq> TypeExecutingCheck" using part E(3,7) by blast+
      then consider "entry_Type e = TypeSearchCheckpoint" | "entry_Type e = TypeInitiatingEvent"
        | "entry_Type e = TypeExecutingLink" | "entry_Type e = TypePadding" using E(5) by blast
      then show ?thesis
      proof cases
        case 1
        obtain cp where cp: "newSearchCheckpointFromEntry e = Inr cp" "lc_logsSince d = cp_logsSince cp"
          using checkpoint_fields [OF d(1) 1] by blast
        then have "lc_logsSince d = 0 \<or> lc_logsSince d = lc_logsSince c" using Cons.prems(3) by simp
        moreover have "lc_need c = 0 \<or> lc_need c = 2" using Cons.prems(2) 1 by simp
        then have "lc_logsSince c = 0 \<or> lc_logsSince c = fst (snd v)" using Cons.prems(4) obs_fst(2) [of c] unfolding since_def by metis
        moreover have "lc_need d = 2" using E(6) [OF 1] by simp
        ultimately show ?thesis unfolding since_def by auto
      next
        case 2
        then have "lc_need c = 0" "lc_need d = 24" "seal_of d = seal_of c" "lc_logsSince d = lc_logsSince c" using E(1) part by auto
        with Cons.prems(4) show ?thesis by (simp add: since_def)
      next
        case 3
        with E(2) Cons.prems(4) show ?thesis by (simp add: since_def)
      next
        case 4
        with E(4) part Cons.prems(4) show ?thesis by (simp add: since_def seal_of_def)
      qed
    qed
    moreover have eq: "log_at (e # es) c = log_at es d" "stops (e # es) c = stops es d" using d(1) part by simp_all
    ultimately show ?thesis unfolding eq(1) using Cons.IH [OF d(2) al sd _ _ Cons.prems(6)] Cons.prems(5) eq(2) by simp
  next
    case pad
    then have "obs d = v" using E(4) Cons.prems(4) by (auto simp: since_def obs_def seal_of_def)
    moreover from this have "since v d" using pad by (simp add: since_def)
    moreover have eq: "log_at (e # es) c = log_at es d" "stops (e # es) c = d # stops es d" using d(1) pad by (simp_all add: type_values)
    ultimately show ?thesis unfolding eq(1) using Cons.IH [OF d(2) al sd _ _ Cons.prems(6)] Cons.prems(5) eq(2) by simp
  next
    case seal
    then have nd: "lc_need d = 0" "lc_need c = 2" "lc_logsSince d = lc_logsSince c" using E(7) by simp_all
    then have k: "lc_logsSince d = 0 \<or> lc_logsSince d = fst (snd v)" using Cons.prems(4) by (simp add: since_def)
    have sd': "since (obs d) d" using nd by (simp add: since_def)
    have eq: "log_at (e # es) c = log_at es d" "stops (e # es) c = d # stops es d" using d(1) seal nd by (simp_all add: type_values)
    show ?thesis
    proof (cases "obs d = v")
      case True
      with sd' show ?thesis unfolding eq(1) using Cons.IH [OF d(2) al sd _ _ Cons.prems(6)] Cons.prems(5) eq(2) by simp
    next
      case False
      then have vs: "remdups_adj (obs d # map obs (stops es d)) = vs" using Cons.prems(5) d(1) nd by auto
      then obtain ws where ws: "vs = obs d # ws" unfolding remdups_adj_Cons' by blast
      have "lc_logsSince d = 0"
      proof (rule ccontr)
        assume a: "lc_logsSince d \<noteq> 0"
        then have "fst (snd v) = fst (snd v) + 1" using k Cons.prems(6) ws by (auto simp: view_next_def)
        then show False by simp
      qed
      moreover have "successively view_next (obs d # ws)" using Cons.prems(6) ws by simp
      from Cons.IH [OF d(2) al sd sd' _ this] vs ws
      have "case dropWhile (\<lambda>w. fst (snd w) = 0) ws of [] \<Rightarrow> log_at es d = None
        | w # ws \<Rightarrow> \<exists>d' ys. log_at es d = Some (d', ys) \<and> obs d' = w \<and> remdups_adj (map obs (d' # stops ys d')) = w # ws" by simp
      ultimately show ?thesis unfolding eq(1) ws by simp
    qed
  qed
qed

section \<open>Positions in a block\<close>

text \<open>The rest of a block after its first \<open>k\<close> logs.\<close>

definition block_from :: "block_seal \<Rightarrow> log_record list \<Rightarrow> nat \<Rightarrow> observation list" where
  "block_from b rs k = map (\<lambda>j. (b, of_nat j, if j = 0 then (0, None) else rs ! (j - 1))) [k..<Suc (length rs)]"

lemma block_view_from: "block_view (b, rs) = block_from b rs 0"
proof -
  have "[0..<Suc (length rs)] = 0 # map Suc [0..<length rs]" by (simp add: upt_conv_Cons map_Suc_upt del: upt_Suc)
  then show ?thesis unfolding block_from_def block_view_def by (simp add: comp_def del: upt_Suc)
qed

lemma block_from_Cons:
  "k \<le> length rs \<Longrightarrow> block_from b rs k = (b, of_nat k, if k = 0 then (0, None) else rs ! (k - 1)) # block_from b rs (Suc k)"
  by (simp add: block_from_def upt_conv_Cons del: upt_Suc)

lemma block_from_end: "length rs < k \<Longrightarrow> block_from b rs k = []"
  by (simp add: block_from_def)

lemma count_nonzero: "0 < k \<Longrightarrow> k < 2 ^ 32 \<Longrightarrow> of_nat k \<noteq> (0 :: u32)"
  using nat_dvd_not_less [of k "2 ^ LENGTH(32)"] by (simp add: word_of_nat_eq_0_iff)

lemma block_from_next: "length rs < 2 ^ 32 \<Longrightarrow> k \<le> length rs \<Longrightarrow> successively view_next (block_from b rs k)"
proof (induction "length rs - k" arbitrary: k)
  case 0
  then show ?case by (simp add: block_from_Cons block_from_end)
next
  case (Suc n)
  then have k: "Suc k \<le> length rs" by simp
  have "successively view_next (block_from b rs (Suc k))" using Suc.hyps(1) [of "Suc k"] Suc.hyps(2) Suc.prems(1) k by simp
  then show ?case
    using count_nonzero [of "Suc k"] Suc.prems k
    by (simp add: block_from_Cons [of k] block_from_Cons [of "Suc k"] view_next_def add.commute)
qed

lemma chain_view_next: "chain_ok bs \<Longrightarrow> successively view_next (chain_view bs)"
proof (induction bs)
  case (Cons c cs)
  obtain b rs where c: "c = (b, rs)" by fastforce
  have ok: "chain_ok cs" using Cons.prems by (cases cs) (auto simp: chain_ok_def)
  have "successively view_next (block_view c)"
    using Cons.prems block_from_next [of rs 0 b] by (simp add: c block_view_from chain_ok_def)
  moreover have "view_next (last (block_view c)) (hd (chain_view cs))" if ne: "cs \<noteq> []"
  proof -
    obtain c' cs' where cs: "cs = c' # cs'" using ne by (cases cs) auto
    have "block_view c \<noteq> []" by (simp add: block_view_def)
    then have "fst (last (block_view c)) = b" using block_view_fst [OF last_in_set] c by simp
    moreover have "number_of c' = seal_Number b + 1" using Cons.prems by (simp add: c cs chain_ok_def chain_next_def)
    then have "seal_Number b \<noteq> number_of c'" by simp
    then have "fst c' \<noteq> b" by metis
    ultimately show ?thesis by (simp add: cs chain_view_Cons block_view_def view_next_def)
  qed
  ultimately show ?case using Cons.IH [OF ok] by (auto simp: chain_view_Cons successively_append_iff)
qed simp

text \<open>A place in the view of a chain.\<close>

lemma chain_view_split:
  assumes "chain_view bs = pre @ v # suf"
  shows "\<exists>bs1 b rs bs2 k. bs = bs1 @ (b, rs) # bs2 \<and> k \<le> length rs \<and> v # suf = block_from b rs k @ chain_view bs2"
  using assms
proof (induction bs arbitrary: pre)
  case Nil
  then show ?case by simp
next
  case (Cons c cs)
  obtain b rs where c: "c = (b, rs)" by fastforce
  let ?f = "\<lambda>j. (b, of_nat j, if j = 0 then (0, None) else rs ! (j - 1))"
  have eq: "block_from b rs 0 @ chain_view cs = pre @ v # suf"
    using Cons.prems by (simp add: c chain_view_Cons block_view_from)
  show ?case
  proof (cases "length pre \<le> length rs")
    case True
    let ?k = "length pre"
    have "v # suf = drop ?k (block_from b rs 0 @ chain_view cs)" by (simp add: eq)
    also have "\<dots> = block_from b rs ?k @ chain_view cs" using True by (simp add: block_from_def drop_map del: upt_Suc)
    finally have "c # cs = [] @ (b, rs) # cs \<and> ?k \<le> length rs \<and> v # suf = block_from b rs ?k @ chain_view cs" using c True by simp
    then show ?thesis by blast
  next
    case False
    then have len: "length (block_from b rs 0) \<le> length pre" by (simp add: block_from_def)
    then have "chain_view cs = drop (length (block_from b rs 0)) pre @ v # suf"
      using arg_cong [OF eq, of "drop (length (block_from b rs 0))"] by simp
    from Cons.IH [OF this] obtain bs1 b' rs' bs2 k where
      "cs = bs1 @ (b', rs') # bs2" "k \<le> length rs'" "v # suf = block_from b' rs' k @ chain_view bs2" by blast
    then have "c # cs = (c # bs1) @ (b', rs') # bs2 \<and> k \<le> length rs' \<and> v # suf = block_from b' rs' k @ chain_view bs2" by simp
    then show ?thesis by blast
  qed
qed

lemma sees_rest:
  assumes "refines db bs" and "sees db t vs"
  shows "\<exists>s. apply_entries (drop (lc_nextEntryIndex t) (db_store db)) t = Some (Inr s)"
    "aligned (drop (lc_nextEntryIndex t) (db_store db)) t" "steady (drop (lc_nextEntryIndex t) (db_store db)) t"
proof -
  show "\<exists>s. apply_entries (drop (lc_nextEntryIndex t) (db_store db)) t = Some (Inr s)" by (rule sees_apply [OF assms])
  have a: "apply_entries (take (lc_nextEntryIndex t) (db_store db)) zero_context = Some (Inr t)" using assms(2) by (simp add: sees_def)
  have "aligned (take (lc_nextEntryIndex t) (db_store db) @ drop (lc_nextEntryIndex t) (db_store db)) zero_context"
    "steady (take (lc_nextEntryIndex t) (db_store db) @ drop (lc_nextEntryIndex t) (db_store db)) zero_context"
    using assms(1) by (simp_all add: refines_def db_ok_def)
  then show "aligned (drop (lc_nextEntryIndex t) (db_store db)) t" "steady (drop (lc_nextEntryIndex t) (db_store db)) t"
    unfolding aligned_append [OF a] steady_append [OF a] by simp_all
qed

text \<open>The next log from a place in the chain, for an iterator that may not know the last log.\<close>

lemma NextInitMsg_sees:
  assumes "refines db bs" and "sees db t (v # vs)" and "successively view_next (v # vs)" and "ctx_sim t q"
  shows "case dropWhile (\<lambda>w. fst (snd w) = 0) vs of
     [] \<Rightarrow> \<exists>z. NextInitMsg (db_store db) q = Some (Some ErrFuture, z)
   | w # ws \<Rightarrow> \<exists>d. NextInitMsg (db_store db) q = Some (None, d) \<and> sees db d (w # ws) \<and> obs d = w"
proof -
  let ?st = "db_store db" and ?es = "drop (lc_nextEntryIndex t) (db_store db)"
  obtain s where r: "apply_entries ?es t = Some (Inr s)" "aligned ?es t" "steady ?es t" using sees_rest [OF assms(1,2)] by blast
  have t: "lc_need t = 0" "lc_nextEntryIndex t \<le> length ?st" "apply_entries (take (lc_nextEntryIndex t) ?st) zero_context = Some (Inr t)"
    "remdups_adj (map obs (t # stops ?es t)) = v # vs"
    using assms(2) by (simp_all add: sees_def)
  have v: "v = obs t" using arg_cong [OF t(4), of hd] by simp
  have L: "case dropWhile (\<lambda>w. fst (snd w) = 0) vs of [] \<Rightarrow> log_at ?es t = None
   | w # ws \<Rightarrow> \<exists>d ys. log_at ?es t = Some (d, ys) \<and> obs d = w \<and> remdups_adj (map obs (d # stops ys d)) = w # ws"
    using t(1,4) v by (intro log_at_obs [OF r _ _ assms(3)]) (simp_all add: since_def)
  have i: "lc_nextEntryIndex q = lc_nextEntryIndex t" "lc_need q = 0" using ctx_sim_fields(1,6) [OF assms(4)] t(1) by simp_all
  obtain s' where s': "apply_entries ?es q = Some (Inr s')" using apply_entries_sim [OF assms(4) r(1)] by blast
  have N: "NextInitMsg ?st q = (case log_at ?es t of None \<Rightarrow> Some (Some ErrFuture, s') | Some (d, _) \<Rightarrow> Some (None, d))"
    using next_init_log_at [of q ?st s' False] s' aligned_sim [OF assms(4) r(1,2)] log_at_sim [OF assms(4) _ r(1,2)] i t(1)
    by (simp add: NextInitMsg_def)
  show ?thesis
  proof (cases "dropWhile (\<lambda>w. fst (snd w) = 0) vs")
    case Nil
    then have "log_at ?es t = None" using L by (simp del: dropWhile_eq_Nil_conv)
    then have "\<exists>z. NextInitMsg ?st q = Some (Some ErrFuture, z)" using N by simp
    with Nil show ?thesis by (simp only: list.case)
  next
    case (Cons w ws)
    then obtain d ys where d: "log_at ?es t = Some (d, ys)" "obs d = w" "remdups_adj (map obs (d # stops ys d)) = w # ws"
      using L by (auto simp del: dropWhile_eq_Cons_conv)
    obtain xs where xs: "?es = xs @ ys" "apply_entries xs t = Some (Inr d)" "lc_need d = 0" using log_at_split [OF d(1)] by blast
    have "lc_nextEntryIndex d = lc_nextEntryIndex t + length xs" using apply_entries_index [OF xs(2)] .
    then have ys: "drop (lc_nextEntryIndex d) ?st = ys" using arg_cong [OF xs(1), of "drop (length xs)"] by (simp add: add.commute)
    have tk: "apply_entries (take (lc_nextEntryIndex d) ?st) zero_context = Some (Inr d)" "lc_nextEntryIndex d \<le> length ?st"
      using reach_sees [OF xs(2) _ t(3,2)] xs(1) ys by simp_all
    have "sees db d (w # ws)" using tk xs(3) d(3) ys by (simp add: sees_def)
    then have "\<exists>d. NextInitMsg ?st q = Some (None, d) \<and> sees db d (w # ws) \<and> obs d = w" using N d by auto
    with Cons show ?thesis by (simp only: list.case)
  qed
qed

section \<open>The iterator at a log\<close>

lemma stops_split:
  assumes "stops es c = q # B"
  shows "\<exists>xs ys. es = xs @ ys \<and> apply_entries xs c = Some (Inr q) \<and> B = stops ys q"
  using assms
proof (induction es arbitrary: c)
  case (Cons e es)
  then obtain d where d: "ApplyEntry e c = Some (Inr d)" by (auto split: option.splits sum.splits)
  show ?case
  proof (cases "lc_need d = 0")
    case True
    with Cons.prems d show ?thesis by - (rule exI [of _ "[e]"], rule exI [of _ es], auto)
  next
    case False
    then have "stops es d = q # B" using Cons.prems d by simp
    from Cons.IH [OF this] obtain xs ys where "es = xs @ ys" "apply_entries xs d = Some (Inr q)" "B = stops ys q" by blast
    with d show ?thesis by - (rule exI [of _ "e # xs"], rule exI [of _ ys], simp)
  qed
qed simp

lemma blocks_from_mid:
  assumes "chain_ok bs" and "bs = bs1 @ (b, rs) # bs2"
  shows "blocks_from (seal_Number b) bs = (b, rs) # bs2" "\<forall>c \<in> set bs2. seal_Number b < number_of c"
proof -
  have "sorted_wrt (\<lambda>a b. number_of a < number_of b) bs" by (rule chain_sorted [OF assms(1)])
  then have "\<forall>c \<in> set bs1. number_of c < seal_Number b" "\<forall>c \<in> set bs2. seal_Number b < number_of c"
    using assms(2) by (auto simp: sorted_wrt_append)
  then show "blocks_from (seal_Number b) bs = (b, rs) # bs2" "\<forall>c \<in> set bs2. seal_Number b < number_of c"
    using assms(2) by (simp_all add: dropWhile_append2)
qed

lemma remdups_adj_suffix: "\<exists>pre. remdups_adj (xs @ x # ys) = pre @ remdups_adj (x # ys)"
proof (cases "remdups_adj (xs @ [x])" rule: rev_cases)
  case Nil
  then show ?thesis by (metis append_is_Nil_conv list.distinct(1) remdups_adj_Nil_iff)
next
  case (snoc pre y)
  have "y = x" using arg_cong [OF snoc, of last] by (simp add: last_remdups_adj)
  with snoc remdups_adj_append [of xs x ys] show ?thesis by (intro exI [of _ pre]) (simp add: remdups_adj_Cons')
qed

lemma newIteratorAt_place:
  assumes "refines db bs" and "bs = bs1 @ (b, rs) # bs2"
  shows "\<exists>q t k. newIteratorAt db (seal_Number b) l = seek_log (db_store db) (seal_Number b) l q
     \<and> sees db t (block_from b rs k @ chain_view bs2) \<and> ctx_sim t q \<and> k \<le> length rs \<and> (k = 0 \<or> of_nat k < l)"
proof -
  let ?n = "seal_Number b" and ?st = "db_store db"
  have ok: "chain_ok bs" using assms(1) by (simp add: refines_def)
  note mid = blocks_from_mid [OF ok assms(2)]
  have ne: "bs \<noteq> []" using assms(2) by simp
  obtain p cp where p: "p mod 256 = 0" "p < length ?st" "readSearchCheckpoint db p = Inr cp" "p = 0 \<or> cp_before cp ?n l"
    "searchCheckpoint db ?n l = Some (if cp_blockNum cp > ?n \<or> (cp_blockNum cp = ?n \<and> cp_logsSince cp > l)
       then Inl ErrSkipped else Inr p)"
    using searchCheckpoint_spec [OF assms(1) ne] by blast
  show ?thesis
  proof (cases "p = 0 \<or> cp_blockNum cp < ?n")
    case True
    have "cp_blockNum cp \<le> ?n \<and> cp_logsSince cp = 0" if "p = 0"
    proof -
      obtain c cs where c: "bs = c # cs" using ne by (cases bs) auto
      have "number_of c \<le> ?n" using chain_sorted [OF ok] c assms(2) by (cases bs1) (auto intro: less_imp_le)
      with refines_first [of db c cs] assms(1) c p(3) that show ?thesis by auto
    qed
    with True p(5) have sc: "searchCheckpoint db ?n l = Some (Inr p)" by auto
    obtain q where q: "find_block ?st ?n (checkpoint_iterator p) = Some (Inr q)" "sees db q (chain_view ((b, rs) # bs2))"
      using find_block_sees [OF assms(1) p(1-3) True] mid(1) by (auto simp del: dropWhile_eq_Cons_conv)
    with sc show ?thesis
      by - (rule exI [of _ q], rule exI [of _ q], rule exI [of _ 0], simp add: newIteratorAt_def chain_view_Cons block_view_from)
  next
    case False
    then have cp: "p \<noteq> 0" "cp_blockNum cp = ?n" "cp_logsSince cp < l" using p(4) by (auto simp: cp_before_def)
    then have sc: "searchCheckpoint db ?n l = Some (Inr p)" using p(5) by auto
    obtain a a' b' s s' cp' q0 B where w: "apply_entries (take p ?st) zero_context = Some (Inr a)"
      "lc_need a = 0 \<or> lc_need a = 2" "ApplyEntry (?st ! p) a = Some (Inr a')"
      "apply_entries (drop p ?st) a = Some (Inr s)" "aligned (drop p ?st) a"
      "ApplyEntry (?st ! p) (checkpoint_iterator p) = Some (Inr b')" "ctx_sim a' b'"
      "apply_entries (drop p ?st) (checkpoint_iterator p) = Some (Inr s')"
      "aligned (drop p ?st) (checkpoint_iterator p)" "entry_Type (?st ! p) = TypeSearchCheckpoint"
      "readSearchCheckpoint db p = Inr cp'" "stops (drop p ?st) a = q0 # B" "lc_blockNum q0 = cp_blockNum cp'"
      "lc_logsSince q0 = cp_logsSince cp'"
      "list_all2 ctx_sim (q0 # B) (stops (drop p ?st) (checkpoint_iterator p))"
      using checkpoint_view [OF assms(1) p(1,2)] .
    note v = w(1,8-15)
    have q0: "lc_blockNum q0 = ?n" "lc_logsSince q0 < l" using v(5,7,8) p(3) cp by simp_all
    have dr: "drop p ?st = ?st ! p # drop (Suc p) ?st" using p(2) by (simp add: Cons_nth_drop_Suc)
    obtain q B' where q: "stops (drop p ?st) (checkpoint_iterator p) = q # B'" "ctx_sim q0 q"
      using v(9) by (auto simp: list_all2_Cons1)
    have "lc_blockNum q = ?n" using q0 ctx_sim_fields(3) [OF q(2)] by simp
    then have "find_block ?st ?n (checkpoint_iterator p) = Some (Inr q)"
      using find_block_stops [of "checkpoint_iterator p" ?st s' ?n] v(2-4) p(2) dr q(1) by (simp add: checkpoint_iterator_fields)
    then have nia: "newIteratorAt db ?n l = seek_log ?st ?n l q" using sc by (simp add: newIteratorAt_def)
    have ia: "lc_nextEntryIndex a = p" using apply_entries_index [OF v(1)] p(2) by (simp add: zero_context_def)
    obtain xs ys where xs: "drop p ?st = xs @ ys" "apply_entries xs a = Some (Inr q0)" "B = stops ys q0"
      using stops_split [OF v(6)] by blast
    have "lc_nextEntryIndex q0 = p + length xs" using apply_entries_index [OF xs(2)] ia by simp
    then have ys: "drop (lc_nextEntryIndex q0) ?st = ys" using arg_cong [OF xs(1), of "drop (length xs)"] by (simp add: add.commute)
    have tk: "apply_entries (take (lc_nextEntryIndex q0) ?st) zero_context = Some (Inr q0)" "lc_nextEntryIndex q0 \<le> length ?st"
      using reach_sees [OF xs(2), of ?st] xs(1) ys v(1) ia p(2) by simp_all
    have "stops ?st zero_context = stops (take p ?st) zero_context @ q0 # B"
      using stops_append [OF v(1), of "drop p ?st"] v(6) by simp
    then obtain pre where pre: "chain_view bs = pre @ remdups_adj (obs q0 # map obs B)"
      using assms(1) remdups_adj_suffix [of "map obs (stops (take p ?st) zero_context)" "obs q0" "map obs B"]
      by (auto simp: refines_def)
    then obtain bs1' b' rs' bs2' k where k: "bs = bs1' @ (b', rs') # bs2'" "k \<le> length rs'"
      "remdups_adj (obs q0 # map obs B) = block_from b' rs' k @ chain_view bs2'"
      using chain_view_split [of bs pre "obs q0"] unfolding remdups_adj_Cons' by blast
    have o: "obs q0 = (b', of_nat k, if k = 0 then (0, None) else rs' ! (k - 1))"
      using arg_cong [OF k(3), of hd] k(2) by (simp add: block_from_Cons)
    then have "seal_Number b' = ?n" using obs_number [of q0] q0 by (simp del: obs_number)
    with mid(1) blocks_from_mid(1) [OF ok k(1)] have same: "(b', rs') = (b, rs)" "bs2' = bs2"
      by (auto simp del: dropWhile_eq_Cons_conv)
    have "sees db q0 (block_from b rs k @ chain_view bs2)"
      using tk k(3) same xs(3) ys stops_need [of q0 "drop p ?st" a] v(6) by (simp add: sees_def)
    moreover have "of_nat k = lc_logsSince q0" using o obs_fst(2) [of q0] by (simp del: obs_fst)
    ultimately show ?thesis using nia q(2) k(2) same q0(2)
      by - (rule exI [of _ q], rule exI [of _ q0], rule exI [of _ k], simp)
  qed
qed

lemma unat_count: "k < 2 ^ 32 \<Longrightarrow> unat (of_nat k :: u32) = k"
  by (intro of_nat_inverse [OF refl]) simp

lemma later_block:
  assumes "w # ws = dropWhile (\<lambda>w. fst (snd w) = 0) (chain_view bs)" and "\<forall>c \<in> set bs. n < number_of c"
  shows "n < seal_Number (fst w)"
proof -
  have "w \<in> set (chain_view bs)" using assms(1) set_dropWhileD [of w] by (metis list.set_intros(1))
  with chain_view_fst [OF this] assms(2) show ?thesis by force
qed

text \<open>The states of the iterator at a log.\<close>

lemma sees_log:
  assumes "sees db d vs" and "obs d = (b, of_nat (Suc k), h, m)" and "Suc k < 2 ^ 32"
  shows "SealedBlock d = Some (seal_Hash b, seal_Number b)" "InitMessage d = Some (h, of_nat k)" "lc_logsSince d = of_nat (Suc k)"
proof -
  have "lc_need d = 0" using assms(1) by (simp add: sees_def)
  moreover have s: "seal_of d = b" and c: "lc_logsSince d = of_nat (Suc k)" using assms(2) obs_fst [of d] by (simp_all del: obs_fst)
  moreover have "lc_logsSince d \<noteq> 0" using c count_nonzero [OF _ assms(3)] by simp
  moreover from this have "lc_logHash d = h" using assms(2) by (simp add: obs_def)
  ultimately show "SealedBlock d = Some (seal_Hash b, seal_Number b)" "InitMessage d = Some (h, of_nat k)" "lc_logsSince d = of_nat (Suc k)"
    by (simp_all add: SealedBlock_def InitMessage_def hasReadableLog_def hasIncompleteLog_def hasCompleteBlock_def flag_ops
        s [symmetric] seal_of_def word_gt_0)
qed

text \<open>The next log in a block, or what comes after its last log.\<close>

lemma next_log:
  assumes "refines db bs" and "bs = bs1 @ (b, rs) # bs2" and "sees db t (block_from b rs k @ chain_view bs2)" and "ctx_sim t q"
    and "k \<le> length rs"
  shows "if k < length rs
     then \<exists>d. NextInitMsg (db_store db) q = Some (None, d) \<and> sees db d (block_from b rs (Suc k) @ chain_view bs2)
        \<and> obs d = (b, of_nat (Suc k), rs ! k)
     else (\<exists>z. NextInitMsg (db_store db) q = Some (Some ErrFuture, z))
        \<or> (\<exists>d h m. NextInitMsg (db_store db) q = Some (None, d) \<and> SealedBlock d = Some (h, m) \<and> m > seal_Number b)"
proof -
  have ok: "chain_ok bs" and len: "length rs < 2 ^ 32" using assms(1,2) by (auto simp: refines_def chain_ok_def)
  let ?v = "(b, of_nat k, if k = 0 then (0, None) else rs ! (k - 1))"
  let ?vs = "block_from b rs (Suc k) @ chain_view bs2"
  have split: "block_from b rs k @ chain_view bs2 = ?v # ?vs" using assms(5) by (simp add: block_from_Cons)
  have suf: "chain_view bs = (chain_view bs1 @ take k (block_from b rs 0)) @ (?v # ?vs)"
  proof -
    have "block_from b rs 0 = take k (block_from b rs 0) @ block_from b rs k"
      using assms(5) append_take_drop_id [of k "block_from b rs 0"] by (simp add: block_from_def drop_map del: upt_Suc)
    then show ?thesis
      unfolding split [symmetric] by (simp add: assms(2) chain_view_def block_view_from)
  qed
  have nx: "successively view_next (?v # ?vs)" using chain_view_next [OF ok] unfolding suf by (simp only: successively_append_iff)
  note N = NextInitMsg_sees [OF assms(1) _ nx assms(4)]
  show ?thesis
  proof (cases "k < length rs")
    case True
    have vs: "?vs = (b, of_nat (Suc k), rs ! k) # block_from b rs (Suc (Suc k)) @ chain_view bs2"
      using True by (simp add: block_from_Cons)
    moreover have "of_nat (Suc k) \<noteq> (0 :: u32)" using count_nonzero [of "Suc k"] True len by simp
    ultimately have "dropWhile (\<lambda>w. fst (snd w) = 0) ?vs = ?vs" by simp
    with N assms(3) split vs True show ?thesis by (simp del: of_nat_Suc)
  next
    case False
    then have vs: "?vs = chain_view bs2" using assms(5) by (simp add: block_from_end)
    show ?thesis
    proof (cases "dropWhile (\<lambda>w. fst (snd w) = 0) (chain_view bs2)")
      case Nil
      with N assms(3) split vs False show ?thesis by (simp del: dropWhile_eq_Nil_conv)
    next
      case (Cons w ws)
      then obtain d where d: "NextInitMsg (db_store db) q = Some (None, d)" "sees db d (w # ws)" "obs d = w"
        using N assms(3) split vs by (auto simp del: dropWhile_eq_Cons_conv)
      have "seal_Number b < seal_Number (fst w)"
        using later_block [OF Cons [symmetric]] blocks_from_mid(2) [OF ok assms(2)] by blast
      moreover have "SealedBlock d = Some (lc_blockHash d, lc_blockNum d)"
        using d(2) by (simp add: sees_def SealedBlock_def hasCompleteBlock_def flag_ops)
      ultimately show ?thesis using d(1,3) False obs_number [of d] by auto
    qed
  qed
qed

lemma seek_log_place:
  assumes "refines db bs" and "bs = bs1 @ (b, rs) # bs2" and "sees db t (block_from b rs k @ chain_view bs2)" and "ctx_sim t q"
    and "k \<le> length rs" and "k \<le> unat l"
  shows "if unat l \<le> length rs
     then \<exists>t' q'. seek_log (db_store db) (seal_Number b) l q = Some (Inr q') \<and> ctx_sim t' q'
        \<and> sees db t' (block_from b rs (unat l) @ chain_view bs2)
     else seek_log (db_store db) (seal_Number b) l q = Some (Inl ErrFuture)
        \<or> seek_log (db_store db) (seal_Number b) l q = Some (Inl ErrConflict)"
  using assms(3-6)
proof (induction "unat l - k" arbitrary: t q k rule: less_induct)
  case less
  have len: "length rs < 2 ^ 32" using assms(1,2) by (auto simp: refines_def chain_ok_def)
  have cnt: "lc_logsSince q = of_nat k"
    using less.prems(1-3) ctx_sim_fields(5) [OF less.prems(2)] obs_fst(2) [of t]
    by (auto simp: sees_def block_from_Cons simp del: obs_fst dest!: arg_cong [where f = hd])
  have k: "k < 2 ^ 32" using less.prems(3) len by simp
  show ?case
  proof (cases "k = unat l")
    case True
    then have "\<not> lc_logsSince q < l" using cnt unat_count [OF k] by (simp add: word_less_nat_alt)
    then have "seek_log (db_store db) (seal_Number b) l q = Some (Inr q)" by (simp add: seek_log.simps)
    with True less.prems show ?thesis by auto
  next
    case False
    then have lt: "lc_logsSince q < l" using cnt unat_count [OF k] less.prems(4) by (simp add: word_less_nat_alt)
    note N = next_log [OF assms(1,2) less.prems(1-3)]
    show ?thesis
    proof (cases "k < length rs")
      case True
      then obtain d where d: "NextInitMsg (db_store db) q = Some (None, d)" "sees db d (block_from b rs (Suc k) @ chain_view bs2)"
        "obs d = (b, of_nat (Suc k), rs ! k)" using N by auto
      obtain h m where r: "rs ! k = (h, m)" by fastforce
      have k': "Suc k < 2 ^ 32" using True len by simp
      note S = sees_log [OF d(2) d(3) [unfolded r] k']
      have w: "(of_nat k + 1 :: u32) = of_nat (Suc k)" by (simp add: add.commute)
      have eq: "seek_log (db_store db) (seal_Number b) l q
         = (if of_nat (Suc k) < l then seek_log (db_store db) (seal_Number b) l d
            else if of_nat (Suc k) = l then Some (Inr d) else Some (Inl (S_New ''unexpected log-skip'')))"
        using lt d(1) S(1,2) by (simp add: seek_log.simps [of _ _ _ q] w del: of_nat_Suc)
      have cmp: "of_nat (Suc k) < l \<longleftrightarrow> Suc k < unat l" "of_nat (Suc k) = l \<longleftrightarrow> Suc k = unat l"
        using unat_count [OF k'] by (auto simp: word_less_nat_alt word_unat_eq_iff simp del: of_nat_Suc)
      show ?thesis
      proof (cases "Suc k = unat l")
        case True
        then have "seek_log (db_store db) (seal_Number b) l q = Some (Inr d)" using eq cmp by simp
        moreover have "unat l \<le> length rs" using True \<open>k < length rs\<close> by simp
        ultimately show ?thesis using d(2) True by (auto intro!: exI [of _ d])
      next
        case f: False
        then have "Suc k < unat l" using False less.prems(4) by simp
        with eq cmp have "seek_log (db_store db) (seal_Number b) l q = seek_log (db_store db) (seal_Number b) l d" by simp
        with less.hyps [OF _ d(2) ctx_sim_refl] \<open>Suc k < unat l\<close> True show ?thesis by simp
      qed
    next
      case last: False
      then have gt: "\<not> unat l \<le> length rs" using less.prems(3,4) False by simp
      from N last consider z where "NextInitMsg (db_store db) q = Some (Some ErrFuture, z)"
        | d h m where "NextInitMsg (db_store db) q = Some (None, d)" "SealedBlock d = Some (h, m)" "m > seal_Number b" by auto
      then show ?thesis
      proof cases
        case 1
        with lt gt show ?thesis by (simp add: seek_log.simps [of _ _ _ q])
      next
        case 2
        with lt gt show ?thesis by (simp add: seek_log.simps [of _ _ _ q])
      qed
    qed
  qed
qed

section \<open>The inclusion check\<close>

lemma findLogInfo_place:
  assumes "refines db bs" and "bs = bs1 @ (b, rs) # bs2" and "n \<noteq> 0" and "n - 1 = seal_Number b"
  shows "if unat l < length rs
     then \<exists>d. findLogInfo db n l = Some (Inr (fst (rs ! unat l), d)) \<and> sees db d (block_from b rs (Suc (unat l)) @ chain_view bs2)
     else findLogInfo db n l = Some (Inl ErrFuture) \<or> findLogInfo db n l = Some (Inl ErrConflict)"
proof -
  have len: "length rs < 2 ^ 32" using assms(1,2) by (auto simp: refines_def chain_ok_def)
  obtain q t k where p: "newIteratorAt db (seal_Number b) l = seek_log (db_store db) (seal_Number b) l q"
    "sees db t (block_from b rs k @ chain_view bs2)" "ctx_sim t q" "k \<le> length rs" "k = 0 \<or> of_nat k < l"
    using newIteratorAt_place [OF assms(1,2)] by blast
  have "k \<le> unat l" using p(4,5) len unat_count [of k] by (auto simp: word_less_nat_alt)
  note K = seek_log_place [OF assms(1,2) p(2-4) this]
  show ?thesis
  proof (cases "unat l \<le> length rs")
    case False
    with K p(1) assms(3,4) show ?thesis by (auto simp: findLogInfo_def)
  next
    case True
    then obtain t' q' where s: "newIteratorAt db (seal_Number b) l = Some (Inr q')" "ctx_sim t' q'"
      "sees db t' (block_from b rs (unat l) @ chain_view bs2)" using K p(1) by auto
    note N = next_log [OF assms(1,2) s(3,2) True]
    show ?thesis
    proof (cases "unat l < length rs")
      case lt: True
      then obtain d where d: "NextInitMsg (db_store db) q' = Some (None, d)"
        "sees db d (block_from b rs (Suc (unat l)) @ chain_view bs2)" "obs d = (b, of_nat (Suc (unat l)), rs ! unat l)" using N by auto
      obtain h m where r: "rs ! unat l = (h, m)" by fastforce
      have "Suc (unat l) < 2 ^ 32" using lt len by simp
      note S = sees_log [OF d(2) d(3) [unfolded r] this]
      from S(1,2) d(1,2) s(1) assms(3,4) lt r show ?thesis by (simp add: findLogInfo_def)
    next
      case last: False
      from N last consider z where "NextInitMsg (db_store db) q' = Some (Some ErrFuture, z)"
        | d h m where "NextInitMsg (db_store db) q' = Some (None, d)" "SealedBlock d = Some (h, m)" "m > seal_Number b" by auto
      then show ?thesis
      proof cases
        case 1
        with s(1) assms(3,4) last show ?thesis by (simp add: findLogInfo_def)
      next
        case 2
        then have "\<not> m < seal_Number b" by simp
        with 2 s(1) assms(3,4) last show ?thesis by (simp add: findLogInfo_def)
      qed
    qed
  qed
qed

text \<open>The walk from a log to the seal of its block.\<close>

lemma contains_walk:
  assumes "refines db bs" and "sees db d (block_from b rs k @ chain_view ((b', rs') # cs))" and "seal_Number b < n"
    and "seal_Number b' = n" and "k \<le> length rs"
  shows "\<exists>d'. TraverseConditional (contains_visit n) (db_store db) d () = Some (ErrStop, d', ()) \<and> lc_need d' = 0 \<and> seal_of d' = b'"
proof -
  let ?qs = "stops (drop (lc_nextEntryIndex d) (db_store db)) d"
  obtain z where z: "apply_entries (drop (lc_nextEntryIndex d) (db_store db)) d = Some (Inr z)" using sees_apply [OF assms(1,2)] ..
  have v: "remdups_adj (map obs (d # ?qs)) = block_from b rs k @ chain_view ((b', rs') # cs)" and nd: "lc_need d = 0"
    using assms(2) by (simp_all add: sees_def)
  have fb: "\<forall>v \<in> set (block_from b rs k). seal_Number (fst v) < n" using assms(3) by (auto simp: block_from_def)
  have "obs d = (b, of_nat k, if k = 0 then (0, None) else rs ! (k - 1))"
    using arg_cong [OF v, of hd] assms(5) by (simp add: block_from_Cons)
  then have "seal_of d = b" using obs_fst(1) [of d] by (simp del: obs_fst)
  then have dn: "lc_blockNum d < n" using assms(3) seal_of_number [of d] by simp
  have "dropWhile (\<lambda>v. seal_Number (fst v) < n) (map obs (d # ?qs)) = map obs (dropWhile (\<lambda>q. lc_blockNum q < n) ?qs)"
    using dn by (simp add: dropWhile_map comp_def)
  moreover have "remdups_adj (dropWhile (\<lambda>v. seal_Number (fst v) < n) (map obs (d # ?qs))) = chain_view ((b', rs') # cs)"
    unfolding remdups_adj_dropWhile v using fb assms(4) by (simp add: dropWhile_append2 chain_view_Cons block_view_def)
  ultimately have w: "remdups_adj (map obs (dropWhile (\<lambda>q. lc_blockNum q < n) ?qs)) = chain_view ((b', rs') # cs)" by simp
  then obtain d' ds where e: "dropWhile (\<lambda>q. lc_blockNum q < n) ?qs = d' # ds"
    by (cases "dropWhile (\<lambda>q. lc_blockNum q < n) ?qs") (auto simp: chain_view_Cons block_view_def simp del: dropWhile_eq_Nil_conv)
  have o: "obs d' = (b', 0, 0, None)"
    using arg_cong [OF w, of hd] unfolding e by (simp add: chain_view_Cons block_view_def)
  then have s': "seal_of d' = b'" using obs_fst(1) [of d'] by (simp del: obs_fst)
  show ?thesis
  proof -
    have W: "walk (contains_visit n) qs () = (ErrStop, Some d', ())"
      if "dropWhile (\<lambda>q. lc_blockNum q < n) qs = d' # ds" "\<forall>q \<in> set qs. lc_need q = 0" for qs
      using that
    proof (induction qs)
      case (Cons q qs)
      have sb: "SealedBlock q = Some (lc_blockHash q, lc_blockNum q)"
        using Cons.prems(2) by (simp add: SealedBlock_def hasCompleteBlock_def flag_ops)
      show ?case
      proof (cases "lc_blockNum q < n")
        case True
        with Cons sb show ?thesis by (auto simp: contains_visit_def)
      next
        case False
        then have "q = d'" using Cons.prems(1) by simp
        moreover have "lc_blockNum d' = n" using s' seal_of_number [of d'] assms(4) by (simp del: seal_of_number)
        ultimately show ?thesis using sb by (simp add: contains_visit_def)
      qed
    qed simp
    have "walk (contains_visit n) ?qs () = (ErrStop, Some d', ())" using W [OF e] stops_need by blast
    with TraverseConditional_walk [OF z, of "contains_visit n" "()"]
    have "TraverseConditional (contains_visit n) (db_store db) d () = Some (ErrStop, d', ())" by auto
    moreover have "d' \<in> set ?qs" using e set_dropWhileD [of d'] by (metis list.set_intros(1))
    then have "lc_need d' = 0" by (rule stops_need)
    ultimately show ?thesis using s' by blast
  qed
qed

end
