(* ===== verification/Logs_Trim.thy ===== *)
theory Logs_Trim
  imports Logs_Contains
begin

text \<open>
  The order of the entries of a store, as the comment on \<open>logContext\<close> in \<open>state.go\<close> gives it, and the trim to the last
  sealed block with which a database is opened: the trimmed store stands for the same sealed blocks, and only logs that
  were added after the last seal may be gone.
\<close>

section \<open>What an entry asks for\<close>

definition has_link :: "log_entry \<Rightarrow> bool" where
  "has_link e \<longleftrightarrow> (case newInitiatingEventFromEntry e of Inr evt \<Rightarrow> ie_hasExecMsg evt | Inl _ \<Rightarrow> False)"

definition awaits :: "log_entry \<Rightarrow> u8" where
  "awaits e = (if entry_Type e = TypeSearchCheckpoint then 2
     else if entry_Type e = TypeInitiatingEvent \<and> has_link e then 24
     else if entry_Type e = TypeExecutingLink then 16 else 0)"

text \<open>One step of the reader over well-formed entries: what it needs next is what the entry asks for, and the seal
  changes only with checkpoints and hashes.\<close>

lemma aligned_step:
  assumes "aligned (e # es) l" and "ApplyEntry e l = Some (Inr l')"
  shows "aligned es l'" "lc_need l' = awaits e" "lc_out l' = []"
    "lc_need l = 0 \<Longrightarrow> entry_Type e \<in> {TypeSearchCheckpoint, TypeInitiatingEvent, TypePadding}"
    "entry_Type e \<noteq> TypeSearchCheckpoint \<Longrightarrow> entry_Type e \<noteq> TypeCanonicalHash \<Longrightarrow> seal_of l' = seal_of l"
proof -
  show "aligned es l'" using assms by simp
  have n: "lc_need l = 0 \<or> lc_need l = 2 \<or> lc_need l = 16 \<or> lc_need l = 24"
    and c: "entry_Type e = TypeSearchCheckpoint \<Longrightarrow> lc_need l = 0 \<or> lc_need l = 2"
    and c2: "lc_need l = 2 \<Longrightarrow> entry_Type e = TypeCanonicalHash \<or> entry_Type e = TypeSearchCheckpoint"
    and c3: "lc_need l = 24 \<Longrightarrow> entry_Type e = TypeExecutingLink" "lc_need l = 16 \<Longrightarrow> entry_Type e = TypeExecutingCheck"
    using assms(1) by auto
  have out: "lc_out l = []" using assms(2) by (auto simp: ApplyEntry_def processEntry_def split: if_splits)
  note defs = ApplyEntry_def processEntry_def need_add_def need_remove_def flag_ops flag_values awaits_def seal_of_def Let_def type_values
  have "lc_need l' = awaits e \<and> lc_out l' = []
     \<and> (lc_need l = 0 \<longrightarrow> entry_Type e \<in> {TypeSearchCheckpoint, TypeInitiatingEvent, TypePadding})
     \<and> (entry_Type e \<noteq> TypeSearchCheckpoint \<longrightarrow> entry_Type e \<noteq> TypeCanonicalHash \<longrightarrow> seal_of l' = seal_of l)"
  proof -
    consider "entry_Type e = TypeSearchCheckpoint" | "entry_Type e = TypeCanonicalHash" | "entry_Type e = TypeInitiatingEvent"
      | "entry_Type e = TypeExecutingLink" | "entry_Type e = TypeExecutingCheck" | "entry_Type e = TypePadding"
      using assms(2) out by (auto simp: ApplyEntry_def processEntry_def Let_def split: if_splits)
    then show ?thesis
    proof cases
      case 1
      with assms(2) out c show ?thesis
        by (auto simp: defs process_checkpoint_def split: sum.splits if_splits)
    next
      case 2
      with assms(2) out n c3 show ?thesis
        by (auto simp: defs process_canonical_def split: sum.splits if_splits)
    next
      case 3
      with assms(2) out n c2 c3 show ?thesis
        by (auto simp: defs process_event_def hasCompleteBlock_def hasIncompleteLog_def has_link_def split: sum.splits if_splits)
    next
      case 4
      with assms(2) out n c2 c3 show ?thesis
        by (auto simp: defs process_link_def split: sum.splits if_splits)
    next
      case 5
      with assms(2) out n c2 c3 show ?thesis
        by (auto simp: defs process_check_def split: sum.splits if_splits option.splits)
    next
      case 6
      with assms(2) out n c2 c3 show ?thesis
        by (auto simp: defs process_padding_def split: if_splits)
    qed
  qed
  then show "lc_need l' = awaits e" "lc_out l' = []"
    "lc_need l = 0 \<Longrightarrow> entry_Type e \<in> {TypeSearchCheckpoint, TypeInitiatingEvent, TypePadding}"
    "entry_Type e \<noteq> TypeSearchCheckpoint \<Longrightarrow> entry_Type e \<noteq> TypeCanonicalHash \<Longrightarrow> seal_of l' = seal_of l"
    by blast+
qed

lemma awaits_last:
  assumes "apply_entries es l = Some (Inr s)" and "aligned es l" and "es \<noteq> []"
  shows "lc_need s = awaits (last es)" "lc_out s = []"
proof -
  have "lc_need s = awaits (last es) \<and> lc_out s = []"
    using assms
  proof (induction es arbitrary: l)
    case (Cons e es)
    obtain l' where l': "ApplyEntry e l = Some (Inr l')" "apply_entries es l' = Some (Inr s)"
      using apply_entries_Cons [OF Cons.prems(1)] .
    note S = aligned_step [OF Cons.prems(2) l'(1)]
    from Cons.IH [OF l'(2) S(1)] l'(2) S(2,3) show ?case by (cases "es = []") auto
  qed simp
  then show "lc_need s = awaits (last es)" "lc_out s = []" by simp_all
qed

section \<open>The order of the entries\<close>

text \<open>The rules of the comment: an entry at a multiple of the search interval is a checkpoint, which never interrupts a
  log; otherwise a checkpoint is followed by the hash of its block, an event with an executing message by its link, a link
  by its check, and every other entry by an event, by padding or by a checkpoint. The last entry asks for nothing.\<close>

definition may_follow :: "log_entry \<Rightarrow> log_entry \<Rightarrow> bool" where
  "may_follow p e \<longleftrightarrow>
     (if awaits p = 2 then entry_Type e = TypeCanonicalHash
      else if awaits p = 24 then entry_Type e = TypeExecutingLink
      else if awaits p = 16 then entry_Type e = TypeExecutingCheck
      else entry_Type e \<in> {TypeSearchCheckpoint, TypeInitiatingEvent, TypePadding})"

definition laid_out :: "log_entry list \<Rightarrow> bool" where
  "laid_out es \<longleftrightarrow>
     (\<forall>i < length es. if i mod 256 = 0
        then entry_Type (es ! i) = TypeSearchCheckpoint \<and> (0 < i \<longrightarrow> awaits (es ! (i - 1)) \<in> {0, 2})
        else may_follow (es ! (i - 1)) (es ! i))
     \<and> (es \<noteq> [] \<longrightarrow> awaits (last es) = 0)"

lemma laid_out_ok:
  assumes "db_ok db"
  shows "laid_out (db_store db)"
proof -
  let ?es = "db_store db"
  obtain s where s: "apply_entries ?es zero_context = Some (Inr s)" "ctx_sim s (db_lastEntryContext db)" "quiet s"
    "lc_nextEntryIndex s = length ?es" using db_ok_replay [OF assms] .
  have al: "aligned ?es zero_context" using assms by (simp add: db_ok_def)
  have at: "if i mod 256 = 0 then entry_Type (?es ! i) = TypeSearchCheckpoint \<and> (0 < i \<longrightarrow> awaits (?es ! (i - 1)) \<in> {0, 2})
      else may_follow (?es ! (i - 1)) (?es ! i)" if i: "i < length ?es" for i
  proof -
    have es: "?es = take i ?es @ ?es ! i # drop (Suc i) ?es" using i by (simp add: id_take_nth_drop)
    then have "apply_entries (take i ?es @ ?es ! i # drop (Suc i) ?es) zero_context = Some (Inr s)" using s(1) by simp
    from apply_entries_prefix [OF this] obtain a where a: "apply_entries (take i ?es) zero_context = Some (Inr a)"
      "apply_entries (?es ! i # drop (Suc i) ?es) a = Some (Inr s)" by blast
    obtain b where b: "ApplyEntry (?es ! i) a = Some (Inr b)" using apply_entries_Cons [OF a(2)] .
    have A: "aligned (take i ?es) zero_context" "aligned (?es ! i # drop (Suc i) ?es) a"
      using al es aligned_append [OF a(1), of "?es ! i # drop (Suc i) ?es"] by simp_all
    have idx: "lc_nextEntryIndex a = i" using apply_entries_index [OF a(1)] i by (simp add: zero_context_def)
    have need: "lc_need a = awaits (?es ! (i - 1))" if "0 < i"
      using awaits_last(1) [OF a(1) A(1)] that i by (cases "?es = []") (auto simp: last_conv_nth)
    show ?thesis
    proof (cases "i mod 256 = 0")
      case True
      with A(2) idx need show ?thesis by auto
    next
      case False
      then have "0 < i" by (cases i) auto
      with False A(2) idx need [OF this] aligned_step(4) [OF A(2) b] show ?thesis by (auto simp: may_follow_def)
    qed
  qed
  have "awaits (last ?es) = 0" if "?es \<noteq> []" using awaits_last(1) [OF s(1) al that] s(3) by (simp add: quiet_def)
  with at show ?thesis unfolding laid_out_def by blast
qed

section \<open>The trim to the last seal\<close>

text \<open>The chain without the logs of the last block from number \<open>k\<close> on.\<close>

definition chain_trim :: "nat \<Rightarrow> chain_log \<Rightarrow> chain_log" where
  "chain_trim k bs = (if bs = [] then [] else butlast bs @ [(fst (last bs), take k (snd (last bs)))])"

lemma trim_loop_bounds: "trim_loop store n \<le> n"
  by (induction n) (auto simp: le_SucI)

lemma trim_loop_after: "trim_loop store n \<le> i \<Longrightarrow> i < n \<Longrightarrow> entry_Type (store ! i) \<noteq> TypeCanonicalHash"
  by (induction n) (auto simp: less_Suc_eq split: if_splits)

lemma trim_loop_last: "0 < trim_loop store n \<Longrightarrow> entry_Type (store ! (trim_loop store n - 1)) = TypeCanonicalHash"
  by (induction n) (auto split: if_splits)

text \<open>Without a block hash nothing completes a checkpoint, so complete entries have no checkpoint either and the seal
  stays.\<close>

lemma unsealed_pending:
  assumes "apply_entries es l = Some (Inr s)" and "aligned es l" and "lc_need l = 2"
    and "\<forall>e \<in> set es. entry_Type e \<noteq> TypeCanonicalHash"
  shows "lc_need s = 2"
  using assms
proof (induction es arbitrary: l)
  case (Cons e es)
  obtain l' where l': "ApplyEntry e l = Some (Inr l')" "apply_entries es l' = Some (Inr s)"
    using apply_entries_Cons [OF Cons.prems(1)] .
  note S = aligned_step [OF Cons.prems(2) l'(1)]
  have "entry_Type e = TypeSearchCheckpoint" using Cons.prems(2-4) by auto
  then show ?case using Cons.IH [OF l'(2) S(1)] Cons.prems(4) S(2) by (simp add: awaits_def)
qed simp

lemma unsealed_seal:
  assumes "apply_entries es l = Some (Inr s)" and "aligned es l" and "lc_need s = 0"
    and "\<forall>e \<in> set es. entry_Type e \<noteq> TypeCanonicalHash"
  shows "(\<forall>e \<in> set es. entry_Type e \<noteq> TypeSearchCheckpoint) \<and> (\<forall>z \<in> set (stops es l). seal_of z = seal_of l)"
  using assms
proof (induction es arbitrary: l)
  case (Cons e es)
  obtain l' where l': "ApplyEntry e l = Some (Inr l')" "apply_entries es l' = Some (Inr s)"
    using apply_entries_Cons [OF Cons.prems(1)] .
  note S = aligned_step [OF Cons.prems(2) l'(1)]
  have ty: "entry_Type e \<noteq> TypeSearchCheckpoint"
  proof
    assume "entry_Type e = TypeSearchCheckpoint"
    then have "lc_need l' = 2" using S(2) by (simp add: awaits_def)
    from unsealed_pending [OF l'(2) S(1) this] Cons.prems(3,4) show False by simp
  qed
  with S(5) Cons.prems(4) have "seal_of l' = seal_of l" by simp
  with ty Cons.IH [OF l'(2) S(1) Cons.prems(3)] Cons.prems(4) l'(1) show ?case by auto
qed simp

lemma remdups_adj_prefix:
  assumes "xs \<noteq> []"
  shows "\<exists>zs. remdups_adj (xs @ ys) = remdups_adj xs @ zs \<and> set zs \<subseteq> insert (last xs) (set ys)"
proof -
  obtain ws x where xs: "xs = ws @ [x]" using assms by (cases xs rule: rev_cases) auto
  have "set (tl ls) \<subseteq> set ls" for ls :: "'a list" by (cases ls) auto
  from this [of "remdups_adj (x # ys)"] have "set (tl (remdups_adj (x # ys))) \<subseteq> insert x (set ys)" by simp
  then show ?thesis using remdups_adj_append [of ws x ys] xs by auto
qed

lemma block_view_take: "take (Suc k) (block_view (b, rs)) = block_view (b, take k rs)"
  by (cases "k \<le> length rs") (auto simp: block_view_def take_map take_upt min_def)

text \<open>A prefix of the view that reaches the last block is the view of the trimmed chain.\<close>

lemma view_prefix:
  assumes "chain_ok bs" and "bs \<noteq> []" and "chain_view bs = V @ W" and "V \<noteq> []" and "\<forall>w \<in> set W. fst w = fst (last V)"
  shows "\<exists>k. V = chain_view (chain_trim k bs)"
proof -
  obtain bs0 b rs where bs: "bs = bs0 @ [(b, rs)]" using assms(2) by (cases bs rule: rev_cases) auto
  have v: "chain_view bs0 @ block_view (b, rs) = V @ W" using assms(3) by (simp add: bs chain_view_snoc)
  have "fst (last (V @ W)) = b" using chain_view_last [OF assms(2)] by (simp add: assms(3) [symmetric] bs)
  then have b: "fst (last V) = b" using assms(5) last_in_set [of W] by (cases "W = []") auto
  have far: "last V \<notin> set (chain_view bs0)"
  proof
    assume "last V \<in> set (chain_view bs0)"
    then obtain c where c: "c \<in> set bs0" "fst c = b" using chain_view_fst b by metis
    with chain_sorted [OF assms(1)] have "number_of c < seal_Number b" by (auto simp: bs sorted_wrt_append)
    with c(2) show False by simp
  qed
  from v consider us where "chain_view bs0 = V @ us" | us where "V = chain_view bs0 @ us" "block_view (b, rs) = us @ W"
    by (auto simp: append_eq_append_conv2)
  then show ?thesis
  proof cases
    case 1
    with far assms(4) show ?thesis by simp
  next
    case 2
    with far assms(4) have "us \<noteq> []" by (cases "us = []") auto
    then obtain k where "length us = Suc k" by (cases us) auto
    then have "us = block_view (b, take k rs)" using 2(2) block_view_take [of k b rs] by simp
    then have "V = chain_view (chain_trim k bs)" using 2(1) by (simp add: chain_trim_def bs chain_view_snoc)
    then show ?thesis by blast
  qed
qed

lemma chain_trim_ok: "chain_ok bs \<Longrightarrow> chain_ok (chain_trim k bs)"
  by (cases bs rule: rev_cases) (auto simp: chain_trim_def chain_ok_def successively_append_iff chain_next_def)

lemma trim_cut:
  assumes "refines db bs" and "bs \<noteq> []" and "n = trim_loop (db_store db) (length (db_store db))"
  obtains a where "apply_entries (take n (db_store db)) zero_context = Some (Inr a)" "aligned (take n (db_store db)) zero_context"
    "quiet a" "lc_nextEntryIndex a = n" "take n (db_store db) \<noteq> []" "n \<le> length (db_store db)"
    "\<forall>z \<in> set (stops (drop n (db_store db)) a). seal_of z = seal_of a"
proof -
  let ?es = "db_store db"
  let ?xs = "take n ?es" and ?ys = "drop n ?es"
  obtain s where s: "apply_entries ?es zero_context = Some (Inr s)" "ctx_sim s (db_lastEntryContext db)" "quiet s"
    "lc_nextEntryIndex s = length ?es" "bs = [] \<longleftrightarrow> ?es = []"
    "bs \<noteq> [] \<longrightarrow> obs s = last (chain_view bs)" "aligned ?es zero_context"
    using refines_replay [OF assms(1)] .
  have nle: "n \<le> length ?es" by (simp add: assms(3) trim_loop_bounds)
  obtain a where a: "apply_entries ?xs zero_context = Some (Inr a)" "apply_entries ?ys a = Some (Inr s)"
    using apply_entries_prefix [of ?xs ?ys] s(1) by auto
  have A: "aligned ?xs zero_context" "aligned ?ys a" using s(7) aligned_append [OF a(1), of ?ys] by simp_all
  have none: "\<forall>e \<in> set ?ys. entry_Type e \<noteq> TypeCanonicalHash"
    using trim_loop_after [of ?es "length ?es"] by (auto simp: in_set_conv_nth assms(3))
  have U: "\<forall>e \<in> set ?ys. entry_Type e \<noteq> TypeSearchCheckpoint" "\<forall>z \<in> set (stops ?ys a). seal_of z = seal_of a"
    using unsealed_seal [OF a(2) A(2) _ none] s(3) by (simp_all add: quiet_def)
  have idx: "lc_nextEntryIndex a = n" using apply_entries_index [OF a(1)] nle by (simp add: zero_context_def)
  have mod: "n mod 256 \<noteq> 0"
  proof (cases "n < length ?es")
    case True
    then have "?ys = ?es ! n # drop (Suc n) ?es" by (simp add: Cons_nth_drop_Suc)
    with A(2) U(1) idx show ?thesis by auto
  next
    case False
    with nle s(3-5) assms(2) show ?thesis by (simp add: quiet_def)
  qed
  then have n0: "0 < n" by (cases n) auto
  have xs: "?xs \<noteq> []" using n0 nle by auto
  then have "last ?xs = ?es ! (n - 1)" using last_conv_nth [OF xs] nle by (simp add: min_def)
  then have "lc_need a = 0" "lc_out a = []"
    using awaits_last [OF a(1) A(1) xs] trim_loop_last [of ?es "length ?es"] n0
    by (auto simp: awaits_def assms(3) type_values)
  then have "quiet a" using mod idx by (simp add: quiet_def)
  from that [OF a(1) A(1) this idx xs nle U(2)] show ?thesis .
qed

lemma trim_refines:
  assumes "refines db bs" and "bs \<noteq> []"
  shows "\<exists>s k. refines ((trimToLastSealed db)\<lparr>db_lastEntryContext := s\<rparr>) (chain_trim k bs)"
proof -
  let ?es = "db_store db"
  define n where "n = trim_loop ?es (length ?es)"
  let ?xs = "take n ?es" and ?ys = "drop n ?es"
  have ok: "chain_ok bs" "steady ?es zero_context" and view: "remdups_adj (map obs (stops ?es zero_context)) = chain_view bs"
    using assms(1) by (simp_all add: refines_def db_ok_def)
  obtain a where a: "apply_entries ?xs zero_context = Some (Inr a)" "aligned ?xs zero_context" "quiet a"
    "lc_nextEntryIndex a = n" "?xs \<noteq> []" "n \<le> length ?es" "\<forall>z \<in> set (stops ?ys a). seal_of z = seal_of a"
    using trim_cut [OF assms n_def] .
  note L = stops_last [OF a(1) _ a(5)]
  have a0: "lc_need a = 0" using a(3) by (simp add: quiet_def)
  have split: "map obs (stops ?es zero_context) = map obs (stops ?xs zero_context) @ map obs (stops ?ys a)"
    using stops_append [OF a(1), of ?ys] by simp
  obtain W where W: "chain_view bs = remdups_adj (map obs (stops ?xs zero_context)) @ W"
    "set W \<subseteq> insert (obs a) (set (map obs (stops ?ys a)))"
    using remdups_adj_prefix [of "map obs (stops ?xs zero_context)" "map obs (stops ?ys a)"] L [OF a0]
    by (auto simp: view [symmetric] split last_map)
  have "\<forall>w \<in> set W. fst w = fst (obs a)" using W(2) a(7) by (auto simp: obs_def)
  then obtain k where k: "remdups_adj (map obs (stops ?xs zero_context)) = chain_view (chain_trim k bs)"
    using view_prefix [OF ok(1) assms(2) W(1)] L [OF a0] by (auto simp: last_remdups_adj last_map)
  have "steady ?xs zero_context" using ok(2) steady_append [OF a(1), of ?ys] by simp
  with a(1-4,6) k chain_trim_ok [OF ok(1)]
  have "refines ((trimToLastSealed db)\<lparr>db_lastEntryContext := a\<rparr>) (chain_trim k bs)"
    by (simp add: refines_def db_ok_def trimToLastSealed_def n_def [symmetric])
  then show ?thesis by blast
qed

text \<open>Opening a database, with or without the trim.\<close>

lemma logs_kept:
  assumes "refines db (chain_trim k bs)" and "bs \<noteq> []"
  shows "chain_trim k bs = chain_trim (unat (lc_logsSince (db_lastEntryContext db))) bs"
proof -
  let ?cs = "chain_trim k bs" and ?rs = "snd (last bs)"
  have ne: "?cs \<noteq> []" using assms(2) by (simp add: chain_trim_def)
  obtain s where s: "apply_entries (db_store db) zero_context = Some (Inr s)" "ctx_sim s (db_lastEntryContext db)" "quiet s"
    "lc_nextEntryIndex s = length (db_store db)" "?cs = [] \<longleftrightarrow> db_store db = []"
    "?cs \<noteq> [] \<longrightarrow> obs s = last (chain_view ?cs)" "aligned (db_store db) zero_context"
    using refines_replay [OF assms(1)] .
  have "length (snd (last ?cs)) < 2 ^ 32" using assms(1) ne last_in_set [OF ne] by (auto simp: refines_def chain_ok_def)
  then have "unat (of_nat (length (snd (last ?cs))) :: u32) = length (snd (last ?cs))" by (intro unat_of_nat_small) simp
  then have "unat (lc_logsSince (db_lastEntryContext db)) = min (length ?rs) k"
    using obs_last(2) [OF mp [OF s(6) ne] ne] ctx_sim_fields(5) [OF s(2)] assms(2) by (simp add: chain_trim_def)
  then show ?thesis using assms(2) by (simp add: chain_trim_def min_def)
qed

lemma NewFromEntryStore_refines:
  assumes "refines db bs"
  shows "\<exists>db'. NewFromEntryStore (db_chainID db) (db_store db) trim = Some (Inr db') \<and> db_chainID db' = db_chainID db
     \<and> refines db' (chain_trim (unat (lc_logsSince (db_lastEntryContext db'))) bs)
     \<and> (\<not> trim \<longrightarrow> chain_trim (unat (lc_logsSince (db_lastEntryContext db'))) bs = bs)"
proof -
  let ?z = "\<lparr>db_store = db_store db, db_chainID = db_chainID db, db_lastEntryContext = zero_context\<rparr>"
  have open_store: "\<exists>c. NewFromEntryStore (db_chainID db) (db_store db) t = Some (Inr (db1\<lparr>db_lastEntryContext := c\<rparr>))
      \<and> refines (db1\<lparr>db_lastEntryContext := c\<rparr>) cs"
    if r: "refines db1 cs" and st: "db_store db1 = db_store (if t then trimToLastSealed db else db)" "db_chainID db1 = db_chainID db"
    for t db1 cs
  proof -
    obtain c where c: "db_init False db1 = Some (None, db1\<lparr>db_lastEntryContext := c\<rparr>)" "refines (db1\<lparr>db_lastEntryContext := c\<rparr>) cs"
      using restart_step [OF r] by blast
    have "db_init t ?z = Some (None, db1\<lparr>db_lastEntryContext := c\<rparr>)"
      using c(1) st by (cases db; cases db1) (auto simp: db_init_def trimToLastSealed_def Let_def split: if_splits option.splits prod.splits)
    with c(2) show ?thesis by (auto simp: NewFromEntryStore_def)
  qed
  have "\<exists>db1 k. refines db1 (chain_trim k bs) \<and> db_store db1 = db_store (if trim then trimToLastSealed db else db)
      \<and> db_chainID db1 = db_chainID db \<and> (\<not> trim \<longrightarrow> chain_trim k bs = bs)"
  proof (cases "trim \<and> bs \<noteq> []")
    case True
    then obtain s k where "refines ((trimToLastSealed db)\<lparr>db_lastEntryContext := s\<rparr>) (chain_trim k bs)"
      using trim_refines [OF assms] by blast
    with True show ?thesis by (intro exI [of _ "(trimToLastSealed db)\<lparr>db_lastEntryContext := s\<rparr>"] exI [of _ k]) (simp add: trimToLastSealed_def)
  next
    case False
    have same: "chain_trim (length (snd (last bs))) bs = bs" by (simp add: chain_trim_def)
    have "db_store db = []" if "bs = []" using refines_replay [OF assms] that by metis
    with False have "db_store (if trim then trimToLastSealed db else db) = db_store db" by (auto simp: trimToLastSealed_def)
    with same assms show ?thesis by (intro exI [of _ db] exI [of _ "length (snd (last bs))"]) simp
  qed
  then obtain db1 k where d: "refines db1 (chain_trim k bs)" "db_store db1 = db_store (if trim then trimToLastSealed db else db)"
    "db_chainID db1 = db_chainID db" "\<not> trim \<longrightarrow> chain_trim k bs = bs" by blast
  obtain c where c: "NewFromEntryStore (db_chainID db) (db_store db) trim = Some (Inr (db1\<lparr>db_lastEntryContext := c\<rparr>))"
    "refines (db1\<lparr>db_lastEntryContext := c\<rparr>) (chain_trim k bs)" using open_store [OF d(1-3)] by blast
  have "chain_trim k bs = chain_trim (unat (lc_logsSince c)) bs"
    using logs_kept [OF c(2)] by (cases "bs = []") (simp_all add: chain_trim_def)
  with c d(3,4) show ?thesis by auto
qed

end
