(* ===== verification/Logs_Run.thy ===== *)
theory Logs_Run
  imports Logs_Trim
begin

text \<open>The promises of the log database as a whole: what Contains answers in terms of the abstract chain of sealed blocks,
  and the runs of the database (an empty database, then any sequence of SealBlock, AddLog and restarts) with the
  refinement theorems that hold along every run.\<close>

section \<open>Contains against the chain\<close>

lemma newIteratorAt_early:
  assumes "refines db (c # cs)" and "n < number_of c"
  shows "newIteratorAt db n l = Some (Inl ErrSkipped)"
proof -
  let ?st = "db_store db"
  obtain p cp where p: "p mod 256 = 0" "p < length ?st" "readSearchCheckpoint db p = Inr cp" "p = 0 \<or> cp_before cp n l"
    "searchCheckpoint db n l = Some (if cp_blockNum cp > n \<or> (cp_blockNum cp = n \<and> cp_logsSince cp > l)
       then Inl ErrSkipped else Inr p)"
    using searchCheckpoint_spec [OF assms(1) list.distinct(2)] .
  obtain a a' b' s s' cp' q0 B where v: "apply_entries (take p ?st) zero_context = Some (Inr a)"
    "lc_need a = 0 \<or> lc_need a = 2" "ApplyEntry (?st ! p) a = Some (Inr a')"
    "apply_entries (drop p ?st) a = Some (Inr s)" "aligned (drop p ?st) a"
    "ApplyEntry (?st ! p) (checkpoint_iterator p) = Some (Inr b')" "ctx_sim a' b'"
    "apply_entries (drop p ?st) (checkpoint_iterator p) = Some (Inr s')"
    "aligned (drop p ?st) (checkpoint_iterator p)" "entry_Type (?st ! p) = TypeSearchCheckpoint"
    "readSearchCheckpoint db p = Inr cp'" "stops (drop p ?st) a = q0 # B" "lc_blockNum q0 = cp_blockNum cp'"
    "lc_logsSince q0 = cp_logsSince cp'" "list_all2 ctx_sim (q0 # B) (stops (drop p ?st) (checkpoint_iterator p))"
    using checkpoint_view [OF assms(1) p(1,2)] .
  have "stops ?st zero_context = stops (take p ?st) zero_context @ q0 # B"
    using stops_append [OF v(1), of "drop p ?st"] v(12) by simp
  then have "obs q0 \<in> set (remdups_adj (map obs (stops ?st zero_context)))" by simp
  then have "obs q0 \<in> set (chain_view (c # cs))" using assms(1) by (simp only: refines_def)
  then obtain b where b: "b \<in> set (c # cs)" "fst (obs q0) = fst b" using chain_view_fst by blast
  have "sorted_wrt (\<lambda>a b. number_of a < number_of b) (c # cs)" using assms(1) by (intro chain_sorted) (simp add: refines_def)
  then have "number_of c \<le> number_of b" using b(1) by (auto intro: less_imp_le)
  moreover have "number_of b = cp_blockNum cp" using b(2) seal_of_number [of q0] v(11,13) p(3) by (simp del: seal_of_number)
  ultimately have "n < cp_blockNum cp" using assms(2) by simp
  with p(5) show ?thesis by (simp add: newIteratorAt_def)
qed

text \<open>The log is in the chain: the block with the number of the query follows the state in which the log was added.\<close>

definition included :: "(bytes \<Rightarrow> hash) \<Rightarrow> hash \<Rightarrow> contains_query \<Rightarrow> block_seal \<Rightarrow> chain_log \<Rightarrow> bool" where
  "included keccak chainID q b' bs \<longleftrightarrow>
     (\<exists>bs1 b rs rs' bs2. bs = bs1 @ (b, rs) # (b', rs') # bs2 \<and> seal_Number b' = cq_BlockNum q
        \<and> seal_Timestamp b' = cq_Timestamp q \<and> unat (cq_LogIdx q) < length rs
        \<and> Checksum keccak \<lparr>ca_BlockNumber = seal_Number b', ca_LogIndex = cq_LogIdx q, ca_Timestamp = seal_Timestamp b',
             ca_ChainID = chainID, ca_LogHash = fst (rs ! unat (cq_LogIdx q))\<rparr> = cq_Checksum q)"

lemma included_place:
  assumes "chain_ok bs" and "bs = bs1 @ (b, rs) # bs2" and "cq_BlockNum q - 1 = seal_Number b"
    and "included keccak cid q b' bs"
  shows "\<exists>rs' cs. bs2 = (b', rs') # cs \<and> seal_Timestamp b' = cq_Timestamp q \<and> unat (cq_LogIdx q) < length rs
        \<and> Checksum keccak \<lparr>ca_BlockNumber = seal_Number b', ca_LogIndex = cq_LogIdx q, ca_Timestamp = seal_Timestamp b',
             ca_ChainID = cid, ca_LogHash = fst (rs ! unat (cq_LogIdx q))\<rparr> = cq_Checksum q"
proof -
  obtain as a ss ss' as2 where a: "bs = as @ (a, ss) # (b', ss') # as2" "seal_Number b' = cq_BlockNum q"
    "seal_Timestamp b' = cq_Timestamp q" "unat (cq_LogIdx q) < length ss"
    "Checksum keccak \<lparr>ca_BlockNumber = seal_Number b', ca_LogIndex = cq_LogIdx q, ca_Timestamp = seal_Timestamp b',
       ca_ChainID = cid, ca_LogHash = fst (ss ! unat (cq_LogIdx q))\<rparr> = cq_Checksum q"
    using assms(4) unfolding included_def by blast
  have "chain_next (a, ss) (b', ss')" using assms(1) a(1) by (simp add: chain_ok_def successively_append_iff)
  then have "seal_Number a = seal_Number b" using a(2) assms(3) by (simp add: chain_next_def algebra_simps)
  with blocks_from_mid(1) [OF assms(1,2)] blocks_from_mid(1) [OF assms(1) a(1)]
  have "(a, ss) # (b', ss') # as2 = (b, rs) # bs2" by simp
  with a show ?thesis by auto
qed

lemma Contains_chain:
  assumes "refines db bs"
  shows "\<exists>r. Contains keccak db q = Some r \<and> (\<forall>b'. r = Inr b' \<longleftrightarrow> included keccak (db_chainID db) q b' bs)"
proof -
  let ?n = "cq_BlockNum q" and ?l = "cq_LogIdx q" and ?ctx = "db_lastEntryContext db"
  have ok: "chain_ok bs" using assms by (simp add: refines_def)
  obtain s where s: "apply_entries (db_store db) zero_context = Some (Inr s)" "ctx_sim s ?ctx" "quiet s"
    "lc_nextEntryIndex s = length (db_store db)" "bs = [] \<longleftrightarrow> db_store db = []"
    "bs \<noteq> [] \<longrightarrow> obs s = last (chain_view bs)" "aligned (db_store db) zero_context"
    using refines_replay [OF assms] .
  have hc: "hasCompleteBlock ?ctx" using s(3) ctx_sim_fields(6) [OF s(2)] by (simp add: quiet_def hasCompleteBlock_def flag_ops)
  have num: "lc_blockNum ?ctx = (if bs = [] then 0 else number_of (last bs))"
  proof (cases "bs = []")
    case True
    then have "s = zero_context" using s(1,5) by simp
    with True ctx_sim_fields(3) [OF s(2)] show ?thesis by (simp add: zero_context_def)
  next
    case False
    from obs_last(1) [OF mp [OF s(6) False] False] seal_of_number [of s] ctx_sim_fields(3) [OF s(2)] False
    show ?thesis by (simp del: seal_of_number)
  qed
  have sorted: "sorted_wrt (\<lambda>a b. number_of a < number_of b) bs" by (rule chain_sorted [OF ok])
  have le: "?n \<le> lc_blockNum ?ctx \<and> ?n \<noteq> 0" if i: "included keccak (db_chainID db) q b' bs" for b'
  proof -
    obtain as a ss ss' as2 where a: "bs = as @ (a, ss) # (b', ss') # as2" "seal_Number b' = ?n"
      using i unfolding included_def by blast
    have "chain_next (a, ss) (b', ss')" using ok a(1) by (simp add: chain_ok_def successively_append_iff)
    moreover have "seal_Number b' \<le> number_of (last bs)"
      using sorted a(1) by (cases as2 rule: rev_cases) (auto simp: sorted_wrt_append intro: less_imp_le)
    ultimately show ?thesis using a num by (auto simp: chain_next_def)
  qed
  show ?thesis
  proof (cases "lc_blockNum ?ctx < ?n \<or> ?n = 0")
    case True
    then have "\<not> included keccak (db_chainID db) q b' bs" for b' using le by (meson leD)
    moreover have "\<exists>e. Contains keccak db q = Some (Inl e)" using True hc by (auto simp: Contains_def findLogInfo_def Let_def)
    ultimately show ?thesis by auto
  next
    case False
    then have n: "?n \<noteq> 0" "\<not> lc_blockNum ?ctx < ?n" by simp_all
    then have ne: "bs \<noteq> []" using num by (cases "bs = []") (simp_all add: word_gt_0)
    with n(2) num have last: "?n \<le> number_of (last bs)" by (simp add: not_less)
    have n1: "?n - 1 < ?n" using n(1) word_less_add_1 [of "?n - 1"] by simp
    have "blocks_from (?n - 1) bs \<noteq> []"
      using last_in_set [OF ne] less_le_trans [OF n1 last] by (auto simp: dropWhile_eq_Nil_conv not_less intro!: bexI less_imp_le)
    then obtain c cs where c: "blocks_from (?n - 1) bs = c # cs" by (cases "blocks_from (?n - 1) bs") auto
    show ?thesis
    proof (cases "number_of c = ?n - 1")
      case False
      then have b: "bs = c # cs" "?n - 1 < number_of c" using blocks_from_gap [OF ok c] by simp_all
      have "findLogInfo db ?n ?l = Some (Inl ErrSkipped)"
        using newIteratorAt_early [of db c cs "?n - 1" ?l] assms b n(1) by (simp add: findLogInfo_def)
      then have "Contains keccak db q = Some (Inl ErrSkipped)" using n hc by (simp add: Contains_def Let_def)
      moreover have "\<not> included keccak (db_chainID db) q b' bs" for b'
      proof
        assume "included keccak (db_chainID db) q b' bs"
        then obtain as a ss ss' as2 where a: "bs = as @ (a, ss) # (b', ss') # as2" "seal_Number b' = ?n"
          unfolding included_def by blast
        have "chain_next (a, ss) (b', ss')" using ok a(1) by (simp add: chain_ok_def successively_append_iff)
        then have "seal_Number a = ?n - 1" using a(2) by (simp add: chain_next_def algebra_simps)
        with blocks_from_mid(1) [OF ok a(1)] c False show False by auto
      qed
      ultimately show ?thesis by auto
    next
      case True
      obtain b rs where b: "c = (b, rs)" by fastforce
      define bs1 where "bs1 = takeWhile (\<lambda>b. number_of b < ?n - 1) bs"
      have bs: "bs = bs1 @ (b, rs) # cs" using c b takeWhile_dropWhile_id [of "\<lambda>b. number_of b < ?n - 1" bs] by (simp add: bs1_def)
      have nb: "?n - 1 = seal_Number b" using True b by simp
      obtain b' rs' cs' where cs: "cs = (b', rs') # cs'"
        using bs last nb n1 by (cases cs) auto
      have b': "seal_Number b' = ?n"
        using ok bs cs nb [symmetric] by (simp add: chain_ok_def successively_append_iff chain_next_def)
      note F = findLogInfo_place [OF assms bs n(1) nb, of ?l]
      show ?thesis
      proof (cases "unat ?l < length rs")
        case False
        then have "\<exists>e. Contains keccak db q = Some (Inl e)" using F n hc by (auto simp: Contains_def Let_def)
        moreover have "\<not> included keccak (db_chainID db) q x bs" for x
          using included_place [OF ok bs nb] False by blast
        ultimately show ?thesis by auto
      next
        case lt: True
        then obtain d where d: "findLogInfo db ?n ?l = Some (Inr (fst (rs ! unat ?l), d))"
          "sees db d (block_from b rs (Suc (unat ?l)) @ chain_view cs)" using F by auto
        obtain d' where d': "TraverseConditional (contains_visit ?n) (db_store db) d () = Some (ErrStop, d', ())" "lc_need d' = 0"
          "seal_of d' = b'" using contains_walk [OF assms d(2) [unfolded cs] _ b'] n1 nb lt by auto
        have sb: "SealedBlock d' = Some (seal_Hash b', seal_Number b')" "SealedTimestamp d' = Some (seal_Timestamp b')"
          using d'(2) by (simp_all add: SealedBlock_def SealedTimestamp_def hasCompleteBlock_def flag_ops d'(3) [symmetric] seal_of_def)
        let ?sum = "Checksum keccak \<lparr>ca_BlockNumber = seal_Number b', ca_LogIndex = ?l, ca_Timestamp = seal_Timestamp b',
             ca_ChainID = db_chainID db, ca_LogHash = fst (rs ! unat ?l)\<rparr>"
        have C: "Contains keccak db q = Some (if seal_Timestamp b' \<noteq> cq_Timestamp q then Inl ErrConflict
            else if ?sum \<noteq> cq_Checksum q then Inl ErrConflict else Inr b')"
          using d(1) d'(1) sb n hc by (simp add: Contains_def Let_def)
        have "included keccak (db_chainID db) q x bs \<longleftrightarrow> x = b' \<and> seal_Timestamp b' = cq_Timestamp q \<and> ?sum = cq_Checksum q" for x
        proof
          assume "included keccak (db_chainID db) q x bs"
          from included_place [OF ok bs nb this] cs show "x = b' \<and> seal_Timestamp b' = cq_Timestamp q \<and> ?sum = cq_Checksum q" by auto
        next
          assume "x = b' \<and> seal_Timestamp b' = cq_Timestamp q \<and> ?sum = cq_Checksum q"
          then show "included keccak (db_chainID db) q x bs" unfolding included_def using bs cs b' lt by blast
        qed
        with C show ?thesis by auto
      qed
    qed
  qed
qed

section \<open>Runs of the database\<close>

text \<open>A run starts from an empty store; every step is one call of the database, with the chain of what was accepted kept
  beside it. The premises of \<open>seal\<close> and \<open>add\<close> are what the caller (the log processor) provides: block hashes are not
  zero, block numbers do not wrap around, logs are added after the first sealed block, a block has fewer than $2^{32}$
  logs, and log indices fit into the three bytes of an executing link.\<close>

definition empty_db :: "hash \<Rightarrow> log_db" where
  "empty_db chainID = \<lparr>db_store = [], db_chainID = chainID, db_lastEntryContext = zero_context\<rparr>"

inductive log_run :: "log_db \<Rightarrow> chain_log \<Rightarrow> bool" where
  start: "log_run (empty_db chainID) []"
| seal: "log_run db bs \<Longrightarrow> bid_hash blk \<noteq> 0 \<Longrightarrow> bs = [] \<or> bid_number blk \<noteq> 0 \<Longrightarrow>
    db_SealBlock parent blk t db = Some (err, db') \<Longrightarrow> log_run db' (if err = None then chain_seal blk t bs else bs)"
| add: "log_run db bs \<Longrightarrow> bs \<noteq> [] \<Longrightarrow> length (snd (last bs)) + 1 < 2 ^ 32 \<Longrightarrow>
    (\<And>e. m = Some e \<Longrightarrow> em_LogIdx e < push_bit 24 1) \<Longrightarrow>
    AddLog h parent logIdx m db = Some (err, db') \<Longrightarrow> log_run db' (if err = None then chain_add (h, m) bs else bs)"
| restart: "log_run db bs \<Longrightarrow> NewFromEntryStore (db_chainID db) (db_store db) trim = Some (Inr db') \<Longrightarrow>
    log_run db' (chain_trim (unat (lc_logsSince (db_lastEntryContext db'))) bs)"

lemma empty_refines: "refines (empty_db c) []"
  by (simp add: refines_def empty_db_def db_ok_def quiet_def chain_ok_def chain_view_def zero_context_def ctx_sim_def)

lemma log_run_refines: "log_run db bs \<Longrightarrow> refines db bs"
proof (induction rule: log_run.induct)
  case (start chainID)
  show ?case by (rule empty_refines)
next
  case (seal db bs blk parent t err db')
  from seal_step [OF seal.IH seal.hyps(2,3), of parent t] seal.hyps(4)
  show ?case by (auto split: if_splits)
next
  case (add db bs m h parent logIdx err db')
  from log_step [OF add.IH add.hyps(2,3), of m h parent logIdx] add.hyps(4,5)
  show ?case by (auto split: if_splits)
next
  case (restart db bs trim db')
  from NewFromEntryStore_refines [OF restart.IH, of trim] restart.hyps(2) show ?case by auto
qed

text \<open>A concrete run: a block, two logs (the second an executing message), a second block, and a restart.\<close>

definition sample_message :: executing_message where
  "sample_message = \<lparr>em_Chain = 9, em_BlockNum = 3, em_LogIdx = 4, em_Timestamp = 50, em_Hash = 77\<rparr>"

definition sample_db1 :: log_db where
  "sample_db1 = snd (the (db_SealBlock 0 \<lparr>bid_hash = 11, bid_number = 7\<rparr> 100 (empty_db 1)))"

definition sample_db2 :: log_db where
  "sample_db2 = snd (the (AddLog 21 \<lparr>bid_hash = 11, bid_number = 7\<rparr> 0 None sample_db1))"

definition sample_db3 :: log_db where
  "sample_db3 = snd (the (AddLog 22 \<lparr>bid_hash = 11, bid_number = 7\<rparr> 1 (Some sample_message) sample_db2))"

definition sample_db4 :: log_db where
  "sample_db4 = snd (the (db_SealBlock 11 \<lparr>bid_hash = 12, bid_number = 8\<rparr> 102 sample_db3))"

definition sample_chain :: chain_log where
  "sample_chain = [(\<lparr>seal_Hash = 11, seal_Number = 7, seal_Timestamp = 100\<rparr>, [(21, None), (22, Some sample_message)]),
                   (\<lparr>seal_Hash = 12, seal_Number = 8, seal_Timestamp = 102\<rparr>, [])]"

lemma sample_steps:
  "db_SealBlock 0 \<lparr>bid_hash = 11, bid_number = 7\<rparr> 100 (empty_db 1) = Some (None, sample_db1)"
  "AddLog 21 \<lparr>bid_hash = 11, bid_number = 7\<rparr> 0 None sample_db1 = Some (None, sample_db2)"
  "AddLog 22 \<lparr>bid_hash = 11, bid_number = 7\<rparr> 1 (Some sample_message) sample_db2 = Some (None, sample_db3)"
  "db_SealBlock 11 \<lparr>bid_hash = 12, bid_number = 8\<rparr> 102 sample_db3 = Some (None, sample_db4)"
  by code_simp+

lemma sample_runs:
  "log_run sample_db1 [(\<lparr>seal_Hash = 11, seal_Number = 7, seal_Timestamp = 100\<rparr>, [])]"
  "log_run sample_db3 [(\<lparr>seal_Hash = 11, seal_Number = 7, seal_Timestamp = 100\<rparr>, [(21, None), (22, Some sample_message)])]"
  "log_run sample_db4 sample_chain"
proof -
  show 1: "log_run sample_db1 [(\<lparr>seal_Hash = 11, seal_Number = 7, seal_Timestamp = 100\<rparr>, [])]"
    using log_run.seal [OF log_run.start _ _ sample_steps(1)] by (simp add: chain_seal_def)
  have "log_run sample_db2 [(\<lparr>seal_Hash = 11, seal_Number = 7, seal_Timestamp = 100\<rparr>, [(21, None)])]"
    using log_run.add [OF 1 _ _ _ sample_steps(2)] by (simp add: chain_add_def)
  from log_run.add [OF this _ _ _ sample_steps(3)]
  show 3: "log_run sample_db3 [(\<lparr>seal_Hash = 11, seal_Number = 7, seal_Timestamp = 100\<rparr>, [(21, None), (22, Some sample_message)])]"
    by (simp add: chain_add_def sample_message_def)
  from log_run.seal [OF this _ _ sample_steps(4)]
  show "log_run sample_db4 sample_chain" by (simp add: chain_seal_def sample_chain_def)
qed

section \<open>What a trim leaves\<close>

lemma chain_trim_cases:
  obtains "bs = []" "chain_trim k bs = []"
  | cs b rs where "bs = cs @ [(b, rs)]" "chain_trim k bs = cs @ [(b, take k rs)]"
  by (cases bs rule: rev_cases) (auto simp: chain_trim_def)

lemma chain_trim_seals [simp]: "map fst (chain_trim k bs) = map fst bs"
  by (rule chain_trim_cases [of bs k]) auto

lemma seal_lookup:
  "(case blocks_from n bs of [] \<Rightarrow> x | b # _ \<Rightarrow> if number_of b = n then f (fst b) else y)
     = (case dropWhile (\<lambda>b. seal_Number b < n) (map fst bs) of [] \<Rightarrow> x | b # _ \<Rightarrow> if seal_Number b = n then f b else y)"
  by (induction bs) auto

lemma included_last:
  assumes "included keccak cid q b' (cs @ [(b, rs)])"
  shows "included keccak cid q b' (cs @ [(b, rs')])"
proof -
  obtain as a ss ss' as2 where a: "cs @ [(b, rs)] = as @ (a, ss) # (b', ss') # as2" "seal_Number b' = cq_BlockNum q"
    "seal_Timestamp b' = cq_Timestamp q" "unat (cq_LogIdx q) < length ss"
    "Checksum keccak \<lparr>ca_BlockNumber = seal_Number b', ca_LogIndex = cq_LogIdx q, ca_Timestamp = seal_Timestamp b',
       ca_ChainID = cid, ca_LogHash = fst (ss ! unat (cq_LogIdx q))\<rparr> = cq_Checksum q"
    using assms unfolding included_def by blast
  have "\<exists>tt as3. cs @ [(b, rs')] = as @ (a, ss) # (b', tt) # as3"
    using a(1) by (cases as2 rule: rev_cases) auto
  with a(2-5) show ?thesis unfolding included_def by blast
qed

lemma included_trim: "included keccak cid q b' (chain_trim k bs) \<longleftrightarrow> included keccak cid q b' bs"
  by (rule chain_trim_cases [of bs k]) (auto intro: included_last)

lemma Contains_confirms:
  assumes "refines db bs"
  shows "Contains keccak db q = Some (Inr b') \<longleftrightarrow> included keccak (db_chainID db) q b' bs"
  using Contains_chain [OF assms, of keccak q] by (elim exE conjE) simp

lemma LatestSealedBlock_chain:
  assumes "refines db bs"
  shows "LatestSealedBlock db = (if bs = [] then None 
     else Some \<lparr>bid_hash = seal_Hash (fst (last bs)), bid_number = seal_Number (fst (last bs))\<rparr>)"
proof -
  obtain s where s: "apply_entries (db_store db) zero_context = Some (Inr s)" "ctx_sim s (db_lastEntryContext db)" "quiet s"
    "lc_nextEntryIndex s = length (db_store db)" "bs = [] \<longleftrightarrow> db_store db = []"
    "bs \<noteq> [] \<longrightarrow> obs s = last (chain_view bs)" "aligned (db_store db) zero_context"
    using refines_replay [OF assms] .
  have "fst (last bs) = seal_of s" if "bs \<noteq> []" using obs_last(1) [OF mp [OF s(6) that] that] by simp
  with s(4,5) ctx_sim_fields [OF s(2)] show ?thesis by (auto simp: LatestSealedBlock_def seal_of_def)
qed

section \<open>The properties\<close>

text \<open>C3: in every run, SealBlock returns, accepts a block exactly when it extends the last sealed block (parent hash,
  next number, a timestamp that does not go back), appends it to the chain then, and otherwise answers ErrConflict and
  leaves the database as it was.\<close>

theorem SealBlock_run:
  assumes "log_run db bs" and "bid_hash blk \<noteq> 0" and "bs = [] \<or> bid_number blk \<noteq> 0"
  shows "\<exists>db'. db_SealBlock parent blk t db = Some (if seal_accepts parent blk t bs then None else Some ErrConflict, db')
     \<and> refines db' (if seal_accepts parent blk t bs then chain_seal blk t bs else bs)
     \<and> (\<not> seal_accepts parent blk t bs \<longrightarrow> db' = db)"
  using seal_step [OF log_run_refines [OF assms(1)] assms(2,3)] .

theorem SealBlock_run_witness:
  "\<exists>db'. db_SealBlock 11 \<lparr>bid_hash = 13, bid_number = 9\<rparr> 110 sample_db4 = Some (Some ErrConflict, db') \<and> db' = sample_db4"
  using SealBlock_run [OF sample_runs(3), of "\<lparr>bid_hash = 13, bid_number = 9\<rparr>" 11 110]
  by (auto simp: seal_accepts_def sample_chain_def)

text \<open>C8: in every run with a sealed block, for a block with fewer than $2^{32} - 1$ logs so far and a message (if any)
  whose log index is below $2^{24}$, AddLog returns, accepts a log exactly when it names the last sealed block as its parent and the
  number of logs after that block as its index, appends it there, and otherwise answers ErrOutOfOrder and leaves the
  database as it was.\<close>

theorem AddLog_run:
  assumes "log_run db bs" and "bs \<noteq> []" and "length (snd (last bs)) + 1 < 2 ^ 32"
    and "\<And>e. m = Some e \<Longrightarrow> em_LogIdx e < push_bit 24 1"
  shows "\<exists>db'. AddLog h parent logIdx m db = Some (if log_accepts parent logIdx bs then None else Some ErrOutOfOrder, db')
     \<and> refines db' (if log_accepts parent logIdx bs then chain_add (h, m) bs else bs)
     \<and> (\<not> log_accepts parent logIdx bs \<longrightarrow> db' = db)"
  using log_step [OF log_run_refines [OF assms(1)] assms(2-4)] .

theorem AddLog_run_witness:
  "\<exists>db'. AddLog 30 \<lparr>bid_hash = 11, bid_number = 7\<rparr> 5 None sample_db3 = Some (Some ErrOutOfOrder, db') \<and> db' = sample_db3"
  using AddLog_run [OF sample_runs(2), of None 30 "\<lparr>bid_hash = 11, bid_number = 7\<rparr>" 5]
  by (auto simp: log_accepts_def)

text \<open>C10: whatever was sealed and added, opening the database again on its own store succeeds, from the last
  checkpoint alone, both without the trim and with the trim to the last sealed block that \<open>db.OpenLogDB\<close> asks for. The
  database goes on as a run of a chain with the same sealed blocks: without the trim the chain is the same, with it only
  logs added after the last seal may be gone. The latest seal, every seal found by number and every confirmation of an
  initiating message by Contains are the same as before.\<close>

theorem restart_run:
  assumes "log_run db bs"
  shows "\<exists>db' k. NewFromEntryStore (db_chainID db) (db_store db) trim = Some (Inr db')
     \<and> log_run db' (chain_trim k bs) \<and> (\<not> trim \<longrightarrow> chain_trim k bs = bs)
     \<and> LatestSealedBlock db' = LatestSealedBlock db \<and> (\<forall>n. FindSealedBlock db' n = FindSealedBlock db n)
     \<and> (\<forall>keccak q b'. Contains keccak db' q = Some (Inr b') \<longleftrightarrow> Contains keccak db q = Some (Inr b'))"
proof -
  have r: "refines db bs" by (rule log_run_refines [OF assms])
  obtain db' where db': "NewFromEntryStore (db_chainID db) (db_store db) trim = Some (Inr db')" "db_chainID db' = db_chainID db"
    "refines db' (chain_trim (unat (lc_logsSince (db_lastEntryContext db'))) bs)"
    "\<not> trim \<longrightarrow> chain_trim (unat (lc_logsSince (db_lastEntryContext db'))) bs = bs"
    using NewFromEntryStore_refines [OF r, of trim] by blast
  define k where "k = unat (lc_logsSince (db_lastEntryContext db'))"
  have r': "refines db' (chain_trim k bs)" using db'(3) by (simp add: k_def)
  have "LatestSealedBlock db' = LatestSealedBlock db"
    unfolding LatestSealedBlock_chain [OF r] LatestSealedBlock_chain [OF r'] by (simp add: chain_trim_def)
  moreover have "FindSealedBlock db' n = FindSealedBlock db n" for n
    unfolding FindSealedBlock_chain [OF r] FindSealedBlock_chain [OF r'] seal_lookup by simp
  moreover have "Contains keccak db' q = Some (Inr b') \<longleftrightarrow> Contains keccak db q = Some (Inr b')" for keccak q b'
    by (simp add: Contains_confirms [OF r] Contains_confirms [OF r'] db'(2) included_trim)
  moreover have "log_run db' (chain_trim k bs)" using log_run.restart [OF assms db'(1)] by (simp add: k_def)
  ultimately show ?thesis using db'(1,4) unfolding k_def by blast
qed

theorem restart_run_witness:
  "\<exists>db' k. NewFromEntryStore (db_chainID sample_db3) (db_store sample_db3) True = Some (Inr db')
     \<and> log_run db' [(\<lparr>seal_Hash = 11, seal_Number = 7, seal_Timestamp = 100\<rparr>, take k [(21, None), (22, Some sample_message)])]
     \<and> FindSealedBlock db' 7 = FindSealedBlock sample_db3 7"
proof -
  let ?bs = "[(\<lparr>seal_Hash = 11, seal_Number = 7, seal_Timestamp = 100\<rparr>, [(21, None), (22, Some sample_message)])]"
  obtain db' k where "NewFromEntryStore (db_chainID sample_db3) (db_store sample_db3) True = Some (Inr db')"
    "log_run db' (chain_trim k ?bs)" "\<forall>n. FindSealedBlock db' n = FindSealedBlock sample_db3 n"
    using restart_run [OF sample_runs(2), of True] by (elim exE conjE)
  then show ?thesis by (intro exI [of _ db'] exI [of _ k]) (simp add: chain_trim_def)
qed

text \<open>C15: in every run, FindSealedBlock finds the seal of a block of the chain by its number, answers ErrFuture for a
  number above the last block and ErrSkipped for one below the first.\<close>

theorem FindSealedBlock_run:
  assumes "log_run db bs"
  shows "FindSealedBlock db n = Some (case blocks_from n bs of [] \<Rightarrow> Inl ErrFuture
     | b # _ \<Rightarrow> if number_of b = n then Inr (fst b) else Inl ErrSkipped)"
  by (rule FindSealedBlock_chain [OF log_run_refines [OF assms]])

theorem FindSealedBlock_run_witness:
  "FindSealedBlock sample_db4 8 = Some (Inr \<lparr>seal_Hash = 12, seal_Number = 8, seal_Timestamp = 102\<rparr>)
     \<and> FindSealedBlock sample_db4 9 = Some (Inl ErrFuture) \<and> FindSealedBlock sample_db4 6 = Some (Inl ErrSkipped)"
  using FindSealedBlock_run [OF sample_runs(3), of 8] FindSealedBlock_run [OF sample_runs(3), of 9]
    FindSealedBlock_run [OF sample_runs(3), of 6] by (simp add: sample_chain_def)

text \<open>C13: in every run, OpenBlock of a sealed block with a sealed parent returns the block with its parent, the number of
  its logs, and exactly its executing messages under the indices of their logs.\<close>

theorem OpenBlock_run:
  assumes "log_run db bs" and "bs = bs1 @ (b, rs) # (b', rs') # bs2"
  shows "\<exists>ms. OpenBlock db (seal_Number b') = Some (None, \<lparr>l1_hash = seal_Hash b', l1_number = seal_Number b',
         l1_parent = seal_Hash b, l1_time = seal_Timestamp b'\<rparr>, of_nat (length rs), ms)
     \<and> (\<forall>i. gm_get ms i = (if unat i < length rs then snd (rs ! unat i) else None))"
proof -
  have r: "refines db bs" by (rule log_run_refines [OF assms(1)])
  then have ok: "chain_ok bs" by (simp add: refines_def)
  then have n: "chain_next (b, rs) (b', rs')" and len: "length rs < 2 ^ 32"
    using assms(2) by (simp_all add: chain_ok_def successively_append_iff)
  then have "seal_Number b' - 1 = seal_Number b" "seal_Number b' \<noteq> 0" by (auto simp: chain_next_def)
  moreover have "blocks_from (seal_Number b) bs = (b, rs) # (b', rs') # bs2" by (rule blocks_from_mid(1) [OF ok assms(2)])
  moreover have "gm_get (exec_map rs 0 []) i = (if unat i < length rs then snd (rs ! unat i) else None)" for i
    using exec_map_get [of 0 rs "[]" i] len by (auto simp: gomap_simps split: option.splits)
  ultimately show ?thesis using OpenBlock_chain [OF r] by (simp add: open_chain_def)
qed

theorem OpenBlock_run_witness:
  "\<exists>ms. OpenBlock sample_db4 8 = Some (None, \<lparr>l1_hash = 12, l1_number = 8, l1_parent = 11, l1_time = 102\<rparr>, 2, ms)
     \<and> gm_get ms 1 = Some sample_message"
  using OpenBlock_run [OF sample_runs(3), of "[]" "\<lparr>seal_Hash = 11, seal_Number = 7, seal_Timestamp = 100\<rparr>"
    "[(21, None), (22, Some sample_message)]" "\<lparr>seal_Hash = 12, seal_Number = 8, seal_Timestamp = 102\<rparr>" "[]" "[]"]
  by (force simp: sample_chain_def)

text \<open>C4: in every run, Contains returns, and it confirms an initiating message with a block seal exactly when that block is in the
  chain directly after the state in which the log was added, with the block number, the timestamp and the checksum of
  the query; every other query is refused with an error.\<close>

theorem Contains_run:
  assumes "log_run db bs"
  shows "\<exists>r. Contains keccak db q = Some r \<and> (\<forall>b'. r = Inr b' \<longleftrightarrow> included keccak (db_chainID db) q b' bs)"
  by (rule Contains_chain [OF log_run_refines [OF assms]])

theorem Contains_run_witness:
  "Contains (\<lambda>_. 0) sample_db4 (checksum_Query (\<lambda>_. 0) \<lparr>ca_BlockNumber = 8, ca_LogIndex = 1, ca_Timestamp = 102,
       ca_ChainID = db_chainID sample_db4, ca_LogHash = 22\<rparr>)
     = Some (Inr \<lparr>seal_Hash = 12, seal_Number = 8, seal_Timestamp = 102\<rparr>)" (is "Contains ?k _ ?q = Some (Inr ?b)")
proof -
  have "included ?k (db_chainID sample_db4) ?q ?b sample_chain"
    unfolding included_def sample_chain_def by (rule exI [of _ "[]"]) (simp add: checksum_Query_def)
  moreover obtain r where "Contains ?k sample_db4 ?q = Some r"
    "\<forall>b'. r = Inr b' \<longleftrightarrow> included ?k (db_chainID sample_db4) ?q b' sample_chain"
    using Contains_run [OF sample_runs(3), of ?k ?q] by (elim exE conjE)
  ultimately show ?thesis by simp
qed



end
