(* ===== verification/Dep_Set.thy ===== *)
theory Dep_Set
  imports Super_Types
begin

text \<open>
  The static dependency set (\<^verbatim>\<open>rhs-supervisor/supervisor/backend/depset/static.go\<close>): which chains may execute
  and initiate messages, and the translation between chain identifiers and chain indices. A chain identifier, a
  256-bit integer, has the type of a hash.
\<close>

record static_dependency =
  sd_ChainIndex :: u32
  sd_ActivationTime :: u64
  sd_HistoryMinTime :: u64

record dependency_set =
  ds_dependencies :: "(hash, static_dependency) gomap"
  ds_indexToID :: "(u32, hash) gomap"
  ds_chainIDs :: "hash list"
  ds_overrideMessageExpiryWindow :: u64

text \<open>The loop of \<open>hydrate\<close> over the dependencies.\<close>

fun hydrate_loop ::
  "(hash \<times> static_dependency) list \<Rightarrow> (u32, hash) gomap \<Rightarrow> hash list \<Rightarrow> super_error + (u32, hash) gomap \<times> hash list" where
  "hydrate_loop [] indexToID chainIDs = Inr (indexToID, chainIDs)"
| "hydrate_loop ((chain, dep) # deps) indexToID chainIDs =
     (if gm_get indexToID (sd_ChainIndex dep) \<noteq> None then Inl (S_New ''cannot have the same index'')
      else hydrate_loop deps (gm_put (sd_ChainIndex dep) chain indexToID) (chainIDs @ [chain]))"

definition hydrate :: "dependency_set \<Rightarrow> super_error + dependency_set" where
  "hydrate ds =
     (case hydrate_loop (ds_dependencies ds) [] [] of
        Inl err \<Rightarrow> Inl err
      | Inr (indexToID, chainIDs) \<Rightarrow> Inr (ds\<lparr>ds_indexToID := indexToID, ds_chainIDs := sort chainIDs\<rparr>))"

definition NewStaticConfigDependencySet :: "(hash, static_dependency) gomap \<Rightarrow> super_error + dependency_set" where
  "NewStaticConfigDependencySet dependencies =
     hydrate \<lparr>ds_dependencies = dependencies, ds_indexToID = [], ds_chainIDs = [], ds_overrideMessageExpiryWindow = 0\<rparr>"

definition NewStaticConfigDependencySetWithMessageExpiryOverride ::
  "(hash, static_dependency) gomap \<Rightarrow> u64 \<Rightarrow> super_error + dependency_set" where
  "NewStaticConfigDependencySetWithMessageExpiryOverride dependencies window =
     hydrate \<lparr>ds_dependencies = dependencies, ds_indexToID = [], ds_chainIDs = [], ds_overrideMessageExpiryWindow = window\<rparr>"

definition CanExecuteAt :: "dependency_set \<Rightarrow> hash \<Rightarrow> u64 \<Rightarrow> super_error + bool" where
  "CanExecuteAt ds chainID execTimestamp =
     (case gm_get (ds_dependencies ds) chainID of
        None \<Rightarrow> Inr False
      | Some dep \<Rightarrow> Inr (execTimestamp \<ge> sd_ActivationTime dep))"

definition CanInitiateAt :: "dependency_set \<Rightarrow> hash \<Rightarrow> u64 \<Rightarrow> super_error + bool" where
  "CanInitiateAt ds chainID initTimestamp =
     (case gm_get (ds_dependencies ds) chainID of
        None \<Rightarrow> Inr False
      | Some dep \<Rightarrow> Inr (initTimestamp \<ge> sd_HistoryMinTime dep))"

definition Chains :: "dependency_set \<Rightarrow> hash list" where
  "Chains ds = ds_chainIDs ds"

definition HasChain :: "dependency_set \<Rightarrow> hash \<Rightarrow> bool" where
  "HasChain ds chainID = (gm_get (ds_dependencies ds) chainID \<noteq> None)"

definition ChainIndexFromID :: "dependency_set \<Rightarrow> hash \<Rightarrow> super_error + u32" where
  "ChainIndexFromID ds chain =
     (case gm_get (ds_dependencies ds) chain of
        None \<Rightarrow> Inl ErrUnknownChain
      | Some dep \<Rightarrow> Inr (sd_ChainIndex dep))"

definition ChainIDFromIndex :: "dependency_set \<Rightarrow> u32 \<Rightarrow> super_error + hash" where
  "ChainIDFromIndex ds index =
     (case gm_get (ds_indexToID ds) index of
        None \<Rightarrow> Inl ErrUnknownChain
      | Some chain \<Rightarrow> Inr chain)"

definition MessageExpiryTimeSecondsInterop :: u64 where
  "MessageExpiryTimeSecondsInterop = 15552000"

definition MessageExpiryWindow :: "dependency_set \<Rightarrow> u64" where
  "MessageExpiryWindow ds =
     (if ds_overrideMessageExpiryWindow ds = 0 then MessageExpiryTimeSecondsInterop else ds_overrideMessageExpiryWindow ds)"

section \<open>Indices and identifiers\<close>

lemma hydrate_loop_index:
  assumes "hydrate_loop deps m cs = Inr (m', cs')" and "distinct (map fst deps)"
  shows "gm_get m' i = Some c \<longleftrightarrow> gm_get m i = Some c \<or> (\<exists>d. (c, d) \<in> set deps \<and> sd_ChainIndex d = i)"
  using assms
proof (induction deps m cs rule: hydrate_loop.induct)
  case (2 chain dep deps m cs)
  from "2.prems"(1) have none: "gm_get m (sd_ChainIndex dep) = None"
    and step: "hydrate_loop deps (gm_put (sd_ChainIndex dep) chain m) (cs @ [chain]) = Inr (m', cs')"
    by (auto split: if_splits)
  have "gm_get m' i = Some c \<longleftrightarrow> gm_get (gm_put (sd_ChainIndex dep) chain m) i = Some c \<or> (\<exists>d. (c, d) \<in> set deps \<and> sd_ChainIndex d = i)"
    using "2.IH" none step "2.prems"(2) by simp
  with none show ?case by (auto simp: gomap_simps split: if_splits)
qed auto

lemma hydrate_loop_chains: "hydrate_loop deps m cs = Inr (m', cs') \<Longrightarrow> cs' = cs @ map fst deps"
  by (induction deps m cs rule: hydrate_loop.induct) (auto split: if_splits)

lemma hydrate_loop_clash:
  "x \<in> set deps \<Longrightarrow> gm_get m (sd_ChainIndex (snd x)) \<noteq> None \<Longrightarrow> hydrate_loop deps m cs \<noteq> Inr r"
proof (induction deps m cs rule: hydrate_loop.induct)
  case (2 chain dep deps m cs)
  show ?case
  proof (cases "gm_get m (sd_ChainIndex dep) = None")
    case True
    with "2.prems" have "x \<in> set deps" "gm_get (gm_put (sd_ChainIndex dep) chain m) (sd_ChainIndex (snd x)) \<noteq> None"
      by (auto simp: gomap_simps)
    with "2.IH" True show ?thesis by simp
  qed simp
qed simp

lemma hydrate_loop_ok:
  assumes "\<forall>(c, d) \<in> set deps. gm_get m (sd_ChainIndex d) = None"
  shows "(\<exists>r. hydrate_loop deps m cs = Inr r) \<longleftrightarrow> distinct (map (sd_ChainIndex \<circ> snd) deps)"
  using assms
proof (induction deps m cs rule: hydrate_loop.induct)
  case (2 chain dep deps m cs)
  let ?m = "gm_put (sd_ChainIndex dep) chain m"
  have step: "hydrate_loop ((chain, dep) # deps) m cs = hydrate_loop deps ?m (cs @ [chain])" using "2.prems" by simp
  show ?case
  proof (cases "sd_ChainIndex dep \<in> (sd_ChainIndex \<circ> snd) ` set deps")
    case False
    then have "\<forall>(c, d) \<in> set deps. gm_get ?m (sd_ChainIndex d) = None" using "2.prems" by (force simp: gomap_simps)
    with "2.IH" "2.prems" False step show ?thesis by simp
  next
    case True
    then obtain x where "x \<in> set deps" "gm_get ?m (sd_ChainIndex (snd x)) \<noteq> None" by (auto simp: gomap_simps)
    from hydrate_loop_clash [OF this] True step show ?thesis by auto
  qed
qed simp

definition distinct_indices :: "(hash, static_dependency) gomap \<Rightarrow> bool" where
  "distinct_indices deps = distinct (map (sd_ChainIndex \<circ> snd) deps)"

text \<open>C28: a dependency set is accepted exactly when no two chains share an index; then indices and identifiers of its
  chains translate into each other without loss, and the list of its chains is sorted and complete.\<close>

theorem NewStaticConfigDependencySet_indices:
  assumes "gm_inv deps"
  shows "((\<exists>ds. NewStaticConfigDependencySet deps = Inr ds) \<longleftrightarrow> distinct_indices deps)
    \<and> (\<forall>ds. NewStaticConfigDependencySet deps = Inr ds \<longrightarrow>
         (\<forall>i c. ChainIDFromIndex ds i = Inr c \<longleftrightarrow> ChainIndexFromID ds c = Inr i)
         \<and> sorted (Chains ds) \<and> distinct (Chains ds) \<and> (\<forall>c. c \<in> set (Chains ds) \<longleftrightarrow> HasChain ds c))"
proof -
  have d: "distinct (map fst deps)" using assms by (simp add: gm_inv_def)
  have "(\<exists>ds. NewStaticConfigDependencySet deps = Inr ds) \<longleftrightarrow> (\<exists>r. hydrate_loop deps [] [] = Inr r)"
    by (auto simp: NewStaticConfigDependencySet_def hydrate_def split: sum.splits)
  then have 1: "(\<exists>ds. NewStaticConfigDependencySet deps = Inr ds) \<longleftrightarrow> distinct_indices deps"
    using hydrate_loop_ok [of deps "[]" "[]"] by (simp add: gomap_simps distinct_indices_def)
  have 2: "(\<forall>i c. ChainIDFromIndex ds i = Inr c \<longleftrightarrow> ChainIndexFromID ds c = Inr i)
      \<and> sorted (Chains ds) \<and> distinct (Chains ds) \<and> (\<forall>c. c \<in> set (Chains ds) \<longleftrightarrow> HasChain ds c)"
    if ds: "NewStaticConfigDependencySet deps = Inr ds" for ds
  proof -
    obtain m cs where h: "hydrate_loop deps [] [] = Inr (m, cs)"
      and e: "ds = \<lparr>ds_dependencies = deps, ds_indexToID = m, ds_chainIDs = sort cs, ds_overrideMessageExpiryWindow = 0\<rparr>"
      using ds by (auto simp: NewStaticConfigDependencySet_def hydrate_def split: sum.splits)
    have "ChainIDFromIndex ds i = Inr c \<longleftrightarrow> ChainIndexFromID ds c = Inr i" for i c
      using hydrate_loop_index [OF h d, of i c] unfolding gm_get_eq_mem [OF assms, symmetric]
      by (auto simp: e ChainIDFromIndex_def ChainIndexFromID_def gomap_simps split: option.splits)
    moreover have "cs = map fst deps" using hydrate_loop_chains [OF h] by simp
    moreover have "c \<in> fst ` set deps \<longleftrightarrow> gm_get deps c \<noteq> None" for c
      by (simp add: gm_get_def map_of_eq_None_iff)
    ultimately show ?thesis using d by (simp add: e Chains_def HasChain_def)
  qed
  from 1 2 show ?thesis by blast
qed

theorem NewStaticConfigDependencySet_indices_witness:
  "\<exists>ds. NewStaticConfigDependencySet
      [(901, \<lparr>sd_ChainIndex = 2, sd_ActivationTime = 10, sd_HistoryMinTime = 0\<rparr>),
       (900, \<lparr>sd_ChainIndex = 1, sd_ActivationTime = 20, sd_HistoryMinTime = 5\<rparr>)] = Inr ds
     \<and> (ChainIDFromIndex ds 2 = Inr 901 \<longleftrightarrow> ChainIndexFromID ds 901 = Inr 2)"
proof -
  let ?deps = "[(901, \<lparr>sd_ChainIndex = 2, sd_ActivationTime = 10, sd_HistoryMinTime = 0\<rparr>),
       (900, \<lparr>sd_ChainIndex = 1, sd_ActivationTime = 20, sd_HistoryMinTime = 5\<rparr>)] :: (hash, static_dependency) gomap"
  have "gm_inv ?deps" "distinct_indices ?deps" by (simp_all add: gm_inv_def distinct_indices_def)
  with NewStaticConfigDependencySet_indices [of ?deps] show ?thesis by blast
qed

end
