(* ===== verification/Hazard_Set.thy ===== *)
theory Hazard_Set
  imports Dep_Set
begin

text \<open>
  The hazard set of a candidate block (\<^verbatim>\<open>rhs-supervisor/supervisor/backend/cross/hazard_set.go\<close>): the blocks of
  other chains with the same timestamp that the candidate depends on through executing messages, directly or not, and
  the checks of every message on the way. The databases behind the interface \<open>HazardDeps\<close> are a record of functions.
\<close>

type_synonym opened = "block_ref \<times> u32 \<times> (u32, executing_message) gomap"
type_synonym hazard_entries = "(u32, block_seal) gomap"

record hazard_deps =
  hd_Contains :: "hash \<Rightarrow> contains_query \<Rightarrow> super_error + block_seal"
  hd_DependencySet :: dependency_set
  hd_IsCrossValidBlock :: "hash \<Rightarrow> block_id \<Rightarrow> super_error option"
  hd_OpenBlock :: "hash \<Rightarrow> u64 \<Rightarrow> super_error + opened"

record potential_hazard =
  ph_chainID :: hash
  ph_block :: block_seal

definition checkChainCanExecute ::
  "dependency_set \<Rightarrow> hash \<Rightarrow> block_seal \<Rightarrow> (u32, executing_message) gomap \<Rightarrow> super_error option" where
  "checkChainCanExecute depSet chainID block execMsgs =
     (if gm_len execMsgs > 0
      then case CanExecuteAt depSet chainID (seal_Timestamp block) of
             Inl err \<Rightarrow> Some err
           | Inr ok \<Rightarrow> if ok then None else Some ErrConflict
      else None)"

definition checkChainCanInitiate :: "dependency_set \<Rightarrow> hash \<Rightarrow> executing_message \<Rightarrow> super_error option" where
  "checkChainCanInitiate depSet initChainID msg =
     (case CanInitiateAt depSet initChainID (em_Timestamp msg) of
        Inl err \<Rightarrow> Some err
      | Inr ok \<Rightarrow> if ok then None else Some ErrConflict)"

definition checkMessageWithOlderTimestamp ::
  "hazard_deps \<Rightarrow> executing_message \<Rightarrow> hash \<Rightarrow> block_seal \<Rightarrow> u64 \<Rightarrow> super_error option" where
  "checkMessageWithOlderTimestamp deps msg initChainID includedIn candidateTimestamp =
     (case hd_IsCrossValidBlock deps initChainID (Seal_ID includedIn) of
        Some err \<Rightarrow> Some err
      | None \<Rightarrow>
          let expiresAt = em_Timestamp msg + MessageExpiryWindow (hd_DependencySet deps)
          in if expiresAt < candidateTimestamp then Some ErrConflict else None)"

definition checkMessageWithCurrentTimestamp ::
  "hazard_entries \<Rightarrow> executing_message \<Rightarrow> block_seal \<Rightarrow> super_error + bool" where
  "checkMessageWithCurrentTimestamp entries msg includedIn =
     (case gm_get entries (em_Chain msg) of
        Some existing \<Rightarrow>
          if Seal_ID existing \<noteq> Seal_ID includedIn then Inl (S_New ''found dependency, but already depend on'') else Inr True
      | None \<Rightarrow> Inr False)"

text \<open>The query for the initiating message.\<close>

definition message_query :: "(bytes \<Rightarrow> hash) \<Rightarrow> hash \<Rightarrow> executing_message \<Rightarrow> contains_query" where
  "message_query keccak srcChainID msg =
     checksum_Query keccak \<lparr>ca_BlockNumber = em_BlockNum msg, ca_LogIndex = em_LogIdx msg, ca_Timestamp = em_Timestamp msg,
       ca_ChainID = srcChainID, ca_LogHash = em_Hash msg\<rparr>"

text \<open>The body of the loop over the messages of a block. The top of the stack is the head of the list.\<close>

definition check_message ::
  "(bytes \<Rightarrow> hash) \<Rightarrow> hazard_deps \<Rightarrow> block_seal \<Rightarrow> executing_message \<Rightarrow> hazard_entries \<times> potential_hazard list
     \<Rightarrow> super_error + hazard_entries \<times> potential_hazard list" where
  "check_message keccak deps candidate msg s =
     (case s of (entries, stack) \<Rightarrow>
        case ChainIDFromIndex (hd_DependencySet deps) (em_Chain msg) of
          Inl err \<Rightarrow> Inl (if err = ErrUnknownChain then ErrConflict else err)
        | Inr srcChainID \<Rightarrow>
            (case checkChainCanInitiate (hd_DependencySet deps) srcChainID msg of
               Some err \<Rightarrow> Inl err
             | None \<Rightarrow>
                 (case hd_Contains deps srcChainID (message_query keccak srcChainID msg) of
                    Inl err \<Rightarrow> Inl err
                  | Inr includedIn \<Rightarrow>
                      if em_Timestamp msg < seal_Timestamp candidate
                      then case checkMessageWithOlderTimestamp deps msg srcChainID includedIn (seal_Timestamp candidate) of
                             Some err \<Rightarrow> Inl err
                           | None \<Rightarrow> Inr (entries, stack)
                      else if em_Timestamp msg = seal_Timestamp candidate
                      then case checkMessageWithCurrentTimestamp entries msg includedIn of
                             Inl err \<Rightarrow> Inl err
                           | Inr exists \<Rightarrow>
                               if exists then Inr (entries, stack)
                               else Inr (gm_put (em_Chain msg) includedIn entries,
                                         \<lparr>ph_chainID = srcChainID, ph_block = includedIn\<rparr> # stack)
                      else Inl ErrConflict)))"

fun check_messages ::
  "(bytes \<Rightarrow> hash) \<Rightarrow> hazard_deps \<Rightarrow> block_seal \<Rightarrow> executing_message list \<Rightarrow> hazard_entries \<times> potential_hazard list
     \<Rightarrow> super_error + hazard_entries \<times> potential_hazard list" where
  "check_messages keccak deps candidate [] s = Inr s"
| "check_messages keccak deps candidate (msg # msgs) s =
     (case check_message keccak deps candidate msg s of
        Inl err \<Rightarrow> Inl err
      | Inr s \<Rightarrow> check_messages keccak deps candidate msgs s)"

text \<open>How much there is left to do: blocks on the stack, and chains that have no entry yet.\<close>

definition hazard_work :: "hazard_entries \<times> potential_hazard list \<Rightarrow> nat" where
  "hazard_work s = card (UNIV - dom (gm_get (fst s))) + length (snd s)"

lemma put_work:
  fixes k :: u32
  assumes "gm_get m k = None"
  shows "Suc (card (UNIV - dom (gm_get (gm_put k v m)))) = card (UNIV - dom (gm_get m))"
proof -
  have "UNIV - dom (gm_get m) = insert k (UNIV - dom (gm_get (gm_put k v m)))"
    using assms by (auto simp: gm.dom_put)
  moreover have "k \<notin> UNIV - dom (gm_get (gm_put k v m))" by (simp add: gm.dom_put)
  ultimately show ?thesis by simp
qed

lemma check_message_work: "check_message keccak deps c msg s = Inr s' \<Longrightarrow> hazard_work s' = hazard_work s"
  by (auto simp: check_message_def checkMessageWithCurrentTimestamp_def hazard_work_def put_work
      split: prod.splits sum.splits option.splits if_splits)

lemma check_messages_work: "check_messages keccak deps c msgs s = Inr s' \<Longrightarrow> hazard_work s' = hazard_work s"
  by (induction keccak deps c msgs s rule: check_messages.induct) (auto split: sum.splits dest: check_message_work)

function build_loop ::
  "(bytes \<Rightarrow> hash) \<Rightarrow> hazard_deps \<Rightarrow> hazard_entries \<times> potential_hazard list \<Rightarrow> super_error + hazard_entries" where
  "build_loop keccak deps (entries, []) = Inr entries"
| "build_loop keccak deps (entries, nxt # stack) =
     (case hd_OpenBlock deps (ph_chainID nxt) (seal_Number (ph_block nxt)) of
        Inl err \<Rightarrow> Inl err
      | Inr (opened, _, execMsgs) \<Rightarrow>
          if L1_ID opened \<noteq> Seal_ID (ph_block nxt) then Inl ErrConflict
          else case checkChainCanExecute (hd_DependencySet deps) (ph_chainID nxt) (ph_block nxt) execMsgs of
                 Some err \<Rightarrow> Inl err
               | None \<Rightarrow>
                   (case check_messages keccak deps (ph_block nxt) (map snd execMsgs) (entries, stack) of
                      Inl err \<Rightarrow> Inl err
                    | Inr s \<Rightarrow> build_loop keccak deps s))"
  by pat_completeness auto
termination
  by (relation "measure (\<lambda>(_, _, s). hazard_work s)") (auto dest!: check_messages_work simp: hazard_work_def)

definition build :: "(bytes \<Rightarrow> hash) \<Rightarrow> hazard_deps \<Rightarrow> hash \<Rightarrow> block_seal \<Rightarrow> hazard_entries \<Rightarrow> super_error + hazard_entries" where
  "build keccak deps chainID block entries =
     build_loop keccak deps (entries, [\<lparr>ph_chainID = chainID, ph_block = block\<rparr>])"

definition NewHazardSet :: "(bytes \<Rightarrow> hash) \<Rightarrow> hazard_deps \<Rightarrow> hash \<Rightarrow> block_seal \<Rightarrow> super_error + hazard_entries" where
  "NewHazardSet keccak deps chainID block = build keccak deps chainID block []"

section \<open>What a hazard set promises\<close>

text \<open>A message of a block is checked: its initiating message exists, and it is in a block that is valid already and has
  not expired, or in the hazard block of its chain.\<close>

definition message_checked :: "(bytes \<Rightarrow> hash) \<Rightarrow> hazard_deps \<Rightarrow> hazard_entries \<Rightarrow> block_seal \<Rightarrow> executing_message \<Rightarrow> bool" where
  "message_checked keccak deps entries b msg \<longleftrightarrow>
     (\<exists>src inc. ChainIDFromIndex (hd_DependencySet deps) (em_Chain msg) = Inr src
        \<and> CanInitiateAt (hd_DependencySet deps) src (em_Timestamp msg) = Inr True
        \<and> hd_Contains deps src (message_query keccak src msg) = Inr inc
        \<and> (em_Timestamp msg < seal_Timestamp b \<and> hd_IsCrossValidBlock deps src (Seal_ID inc) = None
             \<and> seal_Timestamp b \<le> em_Timestamp msg + MessageExpiryWindow (hd_DependencySet deps)
           \<or> em_Timestamp msg = seal_Timestamp b
             \<and> (\<exists>e. gm_get entries (em_Chain msg) = Some e \<and> Seal_ID e = Seal_ID inc)))"

definition block_checked :: "(bytes \<Rightarrow> hash) \<Rightarrow> hazard_deps \<Rightarrow> hazard_entries \<Rightarrow> hash \<Rightarrow> block_seal \<Rightarrow> bool" where
  "block_checked keccak deps entries chainID b \<longleftrightarrow>
     (\<exists>ref n msgs. hd_OpenBlock deps chainID (seal_Number b) = Inr (ref, n, msgs) \<and> L1_ID ref = Seal_ID b
        \<and> (msgs \<noteq> [] \<longrightarrow> CanExecuteAt (hd_DependencySet deps) chainID (seal_Timestamp b) = Inr True)
        \<and> (\<forall>(i, msg) \<in> set msgs. message_checked keccak deps entries b msg))"

text \<open>Entries only grow.\<close>

definition entries_grow :: "hazard_entries \<Rightarrow> hazard_entries \<Rightarrow> bool" where
  "entries_grow m m' \<longleftrightarrow> (\<forall>k v. gm_get m k = Some v \<longrightarrow> gm_get m' k = Some v)"

lemma grow_trans: "entries_grow a b \<Longrightarrow> entries_grow b c \<Longrightarrow> entries_grow a c"
  by (simp add: entries_grow_def)

lemma message_checked_grow: "message_checked k d m b msg \<Longrightarrow> entries_grow m m' \<Longrightarrow> message_checked k d m' b msg"
  unfolding message_checked_def entries_grow_def by blast

lemma block_checked_grow: "block_checked k d m c b \<Longrightarrow> entries_grow m m' \<Longrightarrow> block_checked k d m' c b"
  unfolding block_checked_def using message_checked_grow by blast

text \<open>Every entry is checked, or it is on the stack or one of the blocks \<open>X\<close> that are being checked.\<close>

definition entries_covered :: "(bytes \<Rightarrow> hash) \<Rightarrow> hazard_deps \<Rightarrow> potential_hazard set \<Rightarrow> hazard_entries \<times> potential_hazard list \<Rightarrow> bool" where
  "entries_covered keccak deps X s \<longleftrightarrow>
     (\<forall>i b. gm_get (fst s) i = Some b \<longrightarrow>
        (\<exists>c. ChainIDFromIndex (hd_DependencySet deps) i = Inr c
           \<and> (\<lparr>ph_chainID = c, ph_block = b\<rparr> \<in> X \<union> set (snd s) \<or> block_checked keccak deps (fst s) c b)))"

lemma check_message_ok:
  assumes "check_message keccak deps b msg s = Inr s'"
  shows "message_checked keccak deps (fst s') b msg \<and> entries_grow (fst s) (fst s') \<and> set (snd s) \<subseteq> set (snd s')
     \<and> (entries_covered keccak deps X s \<longrightarrow> entries_covered keccak deps X s')"
proof -
  obtain m st where s: "s = (m, st)" by fastforce
  obtain src inc where m: "ChainIDFromIndex (hd_DependencySet deps) (em_Chain msg) = Inr src"
    "CanInitiateAt (hd_DependencySet deps) src (em_Timestamp msg) = Inr True"
    "hd_Contains deps src (message_query keccak src msg) = Inr inc"
    using assms by (auto simp: s check_message_def checkChainCanInitiate_def split: sum.splits option.splits if_splits)
  note simps = s check_message_def checkChainCanInitiate_def checkMessageWithOlderTimestamp_def checkMessageWithCurrentTimestamp_def
  consider (old) "s' = s" "em_Timestamp msg < seal_Timestamp b" "hd_IsCrossValidBlock deps src (Seal_ID inc) = None"
      "seal_Timestamp b \<le> em_Timestamp msg + MessageExpiryWindow (hd_DependencySet deps)"
    | (known) e where "s' = s" "em_Timestamp msg = seal_Timestamp b" "gm_get m (em_Chain msg) = Some e" "Seal_ID e = Seal_ID inc"
    | (new) "s' = (gm_put (em_Chain msg) inc m, \<lparr>ph_chainID = src, ph_block = inc\<rparr> # st)" "em_Timestamp msg = seal_Timestamp b"
      "gm_get m (em_Chain msg) = None"
    using assms m by (auto simp: simps Let_def not_less split: option.splits if_splits)
  then show ?thesis
  proof cases
    case new
    then have g: "entries_grow (fst s) (fst s')" by (auto simp: s entries_grow_def gomap_simps)
    have "entries_covered keccak deps X s'" if "entries_covered keccak deps X s"
      unfolding entries_covered_def
    proof (intro allI impI)
      fix i e
      assume i: "gm_get (fst s') i = Some e"
      show "\<exists>c. ChainIDFromIndex (hd_DependencySet deps) i = Inr c \<and>
         (\<lparr>ph_chainID = c, ph_block = e\<rparr> \<in> X \<union> set (snd s') \<or> block_checked keccak deps (fst s') c e)"
      proof (cases "i = em_Chain msg")
        case True
        with new i m show ?thesis by (simp add: gomap_simps)
      next
        case False
        with new i have "gm_get (fst s) i = Some e" by (simp add: s gomap_simps)
        with that obtain c where "ChainIDFromIndex (hd_DependencySet deps) i = Inr c"
          "\<lparr>ph_chainID = c, ph_block = e\<rparr> \<in> X \<union> set (snd s) \<or> block_checked keccak deps (fst s) c e"
          unfolding entries_covered_def by blast
        with new block_checked_grow [OF _ g] show ?thesis by (auto simp: s)
      qed
    qed
    with new m g show ?thesis by (auto simp: message_checked_def s gomap_simps)
  qed (use m in \<open>auto simp: message_checked_def entries_grow_def s\<close>)
qed

lemma check_messages_ok:
  assumes "check_messages keccak deps b msgs s = Inr s'"
  shows "(\<forall>msg \<in> set msgs. message_checked keccak deps (fst s') b msg) \<and> entries_grow (fst s) (fst s') \<and> set (snd s) \<subseteq> set (snd s')
     \<and> (entries_covered keccak deps X s \<longrightarrow> entries_covered keccak deps X s')"
  using assms
proof (induction keccak deps b msgs s rule: check_messages.induct)
  case (2 keccak deps b msg msgs s)
  then obtain s1 where s1: "check_message keccak deps b msg s = Inr s1" "check_messages keccak deps b msgs s1 = Inr s'"
    by (auto split: sum.splits)
  from "2.IH" s1 check_message_ok [OF s1(1)] show ?case
    by (auto intro: message_checked_grow grow_trans)
qed (simp add: entries_grow_def)

lemma build_loop_ok:
  assumes "build_loop keccak deps s = Inr entries" and "entries_covered keccak deps {} s"
  shows "(\<forall>h \<in> set (snd s). block_checked keccak deps entries (ph_chainID h) (ph_block h)) \<and> entries_grow (fst s) entries
     \<and> entries_covered keccak deps {} (entries, [])"
  using assms
proof (induction keccak deps s rule: build_loop.induct)
  case (1 keccak deps m)
  then show ?case by (simp add: entries_grow_def)
next
  case (2 keccak deps m nxt stack)
  obtain ref n msgs s1 where o: "hd_OpenBlock deps (ph_chainID nxt) (seal_Number (ph_block nxt)) = Inr (ref, n, msgs)"
    "L1_ID ref = Seal_ID (ph_block nxt)"
    "checkChainCanExecute (hd_DependencySet deps) (ph_chainID nxt) (ph_block nxt) msgs = None"
    "check_messages keccak deps (ph_block nxt) (map snd msgs) (m, stack) = Inr s1" "build_loop keccak deps s1 = Inr entries"
    using "2.prems"(1) by (auto split: sum.splits if_splits option.splits)
  note C = check_messages_ok [OF o(4)]
  have "entries_covered keccak deps {nxt} (m, stack)" using "2.prems"(2) by (fastforce simp: entries_covered_def)
  with C have cov: "entries_covered keccak deps {nxt} s1" by blast
  have nxt: "block_checked keccak deps (fst s1) (ph_chainID nxt) (ph_block nxt)"
    using o(1-3) conjunct1 [OF C]
    by (fastforce simp: block_checked_def checkChainCanExecute_def gm_len_def split: sum.splits if_splits)
  have "entries_covered keccak deps {} s1"
    unfolding entries_covered_def
  proof (intro allI impI)
    fix i b
    assume "gm_get (fst s1) i = Some b"
    with cov obtain c where c: "ChainIDFromIndex (hd_DependencySet deps) i = Inr c"
      "\<lparr>ph_chainID = c, ph_block = b\<rparr> \<in> {nxt} \<union> set (snd s1) \<or> block_checked keccak deps (fst s1) c b"
      unfolding entries_covered_def by blast
    from c(2) nxt have "\<lparr>ph_chainID = c, ph_block = b\<rparr> \<in> set (snd s1) \<or> block_checked keccak deps (fst s1) c b" by auto
    with c(1) show "\<exists>c. ChainIDFromIndex (hd_DependencySet deps) i = Inr c \<and>
        (\<lparr>ph_chainID = c, ph_block = b\<rparr> \<in> {} \<union> set (snd s1) \<or> block_checked keccak deps (fst s1) c b)" by auto
  qed
  with "2.IH" [OF o(1) refl refl] o(2,3,4,5)
  have I: "(\<forall>h \<in> set (snd s1). block_checked keccak deps entries (ph_chainID h) (ph_block h))"
    "entries_grow (fst s1) entries" "entries_covered keccak deps {} (entries, [])" by auto
  from I nxt C show ?case by (auto intro: block_checked_grow grow_trans)
qed

text \<open>C12: when the hazard set of a candidate is built, it is closed under the dependencies of its blocks: the candidate and
  every block of the set were opened under their own identity, may execute messages, and each of their messages has
  an initiating message in a block that is cross-valid and not expired, or in the block the set holds for its chain.
  Building ends for every dependency graph.\<close>

theorem NewHazardSet_closed:
  assumes "NewHazardSet keccak deps chainID block = Inr entries"
  shows "block_checked keccak deps entries chainID block
    \<and> (\<forall>i b. gm_get entries i = Some b \<longrightarrow>
         (\<exists>c. ChainIDFromIndex (hd_DependencySet deps) i = Inr c \<and> block_checked keccak deps entries c b))"
proof -
  have "build_loop keccak deps ([], [\<lparr>ph_chainID = chainID, ph_block = block\<rparr>]) = Inr entries"
    using assms by (simp add: NewHazardSet_def build_def)
  from build_loop_ok [OF this] show ?thesis by (simp add: entries_covered_def gomap_simps)
qed

definition sample_depset :: dependency_set where
  "sample_depset = \<lparr>ds_dependencies = [(900, \<lparr>sd_ChainIndex = 1, sd_ActivationTime = 0, sd_HistoryMinTime = 0\<rparr>),
       (901, \<lparr>sd_ChainIndex = 2, sd_ActivationTime = 0, sd_HistoryMinTime = 0\<rparr>)],
     ds_indexToID = [(1, 900), (2, 901)], ds_chainIDs = [900, 901], ds_overrideMessageExpiryWindow = 0\<rparr>"

text \<open>Two chains with one block each; the log 0 of the first executes the log 1 of the second.\<close>

definition sample_deps :: hazard_deps where
  "sample_deps =
     \<lparr>hd_Contains = (\<lambda>c q. Inr \<lparr>seal_Hash = 5, seal_Number = 7, seal_Timestamp = 100\<rparr>), hd_DependencySet = sample_depset,
      hd_IsCrossValidBlock = (\<lambda>c b. None),
      hd_OpenBlock = (\<lambda>c n. Inr (if c = 900
        then (\<lparr>l1_hash = 4, l1_number = n, l1_parent = 1, l1_time = 100\<rparr>, 1,
              [(0, \<lparr>em_Chain = 2, em_BlockNum = 7, em_LogIdx = 1, em_Timestamp = 100, em_Hash = 3\<rparr>)])
        else (\<lparr>l1_hash = 5, l1_number = n, l1_parent = 1, l1_time = 100\<rparr>, 2, [])))\<rparr>"

lemma sample_hazards:
  "NewHazardSet (\<lambda>_. 0) sample_deps 900 \<lparr>seal_Hash = 4, seal_Number = 7, seal_Timestamp = 100\<rparr>
      = Inr [(2, \<lparr>seal_Hash = 5, seal_Number = 7, seal_Timestamp = 100\<rparr>)]"
  by (simp add: NewHazardSet_def build_def sample_deps_def sample_depset_def ChainIDFromIndex_def CanExecuteAt_def CanInitiateAt_def
      checkChainCanExecute_def checkChainCanInitiate_def check_message_def checkMessageWithCurrentTimestamp_def
      gm_get_def gm_put_def gm_len_def L1_ID_def Seal_ID_def)

theorem NewHazardSet_closed_witness:
  "block_checked (\<lambda>_. 0) sample_deps [(2, \<lparr>seal_Hash = 5, seal_Number = 7, seal_Timestamp = 100\<rparr>)] 900
       \<lparr>seal_Hash = 4, seal_Number = 7, seal_Timestamp = 100\<rparr>"
  using NewHazardSet_closed [OF sample_hazards] by blast

end
