(* ===== verification/Cycle_Check.thy ===== *)
theory Cycle_Check
  imports Hazard_Set
begin

text \<open>
  The check for cyclic dependencies between the logs of the hazard blocks
  (\<^verbatim>\<open>rhs-supervisor/supervisor/backend/cross/cycle.go\<close>): the graph of the logs, and Kahn's topological sort on it.
\<close>

datatype cycle_error = ErrCycle | ErrExecMsgHasInvalidIndex | ErrExecMsgUnknownChain | CycleOther super_error

datatype node = Node (chainIndex: u32) (logIndex: u32)

instance node :: finite
proof
  have "n \<in> range (\<lambda>(c, i). Node c i)" for n :: node by (cases n) (auto simp: image_iff)
  then show "finite (UNIV :: node set)"
    by (intro finite_surj [of "UNIV :: (u32 \<times> u32) set" _ "\<lambda>(c, i). Node c i"]) (auto intro: finite)
qed

record log_graph =
  g_inDegree0 :: "(node, unit) gomap"
  g_inDegreeNon0 :: "(node, u32) gomap"
  g_outgoingEdges :: "(node, node list) gomap"

text \<open>Reading a missing key of a Go map gives the zero value.\<close>

definition in_degree :: "log_graph \<Rightarrow> node \<Rightarrow> u32" where
  "in_degree g n = (case gm_get (g_inDegreeNon0 g) n of Some d \<Rightarrow> d | None \<Rightarrow> 0)"

definition outgoing :: "log_graph \<Rightarrow> node \<Rightarrow> node list" where
  "outgoing g n = (case gm_get (g_outgoingEdges g) n of Some ns \<Rightarrow> ns | None \<Rightarrow> [])"

definition addEdge :: "node \<Rightarrow> node \<Rightarrow> log_graph \<Rightarrow> log_graph" where
  "addEdge src to g =
     g\<lparr>g_inDegree0 := gm_del to (g_inDegree0 g),
       g_inDegreeNon0 := gm_put to (in_degree g to + 1) (g_inDegreeNon0 g),
       g_outgoingEdges := gm_put src (outgoing g src @ [to]) (g_outgoingEdges g)\<rparr>"

definition blockSealMatchesRef :: "block_seal \<Rightarrow> block_ref \<Rightarrow> bool" where
  "blockSealMatchesRef s r \<longleftrightarrow> seal_Number s = l1_number r \<and> seal_Hash s = l1_hash r"

type_synonym log_counts = "(u32, u32) gomap"
type_synonym exec_msgs = "(u32, (u32, executing_message) gomap) gomap"

text \<open>The loop of \<open>gatherLogs\<close> over the hazard blocks.\<close>

fun gather_loop ::
  "dependency_set \<Rightarrow> (hash \<Rightarrow> u64 \<Rightarrow> super_error + opened) \<Rightarrow> u64 \<Rightarrow> (u32 \<times> block_seal) list \<Rightarrow> log_counts \<times> exec_msgs
     \<Rightarrow> cycle_error + log_counts \<times> exec_msgs" where
  "gather_loop depSet OpenBlock inTimestamp [] s = Inr s"
| "gather_loop depSet OpenBlock inTimestamp ((hazardChainIndex, hazardBlock) # hazards) (logCounts, execMsgs) =
     (case ChainIDFromIndex depSet hazardChainIndex of
        Inl err \<Rightarrow> Inl (CycleOther err)
      | Inr hazardChainID \<Rightarrow>
          (case OpenBlock hazardChainID (seal_Number hazardBlock) of
             Inl err \<Rightarrow> Inl (CycleOther err)
           | Inr (bl, logCount, msgs) \<Rightarrow>
               if \<not> blockSealMatchesRef hazardBlock bl then Inl (CycleOther (S_New ''got different block than expected''))
               else if \<exists>(logIdx, _) \<in> set msgs. logIdx \<ge> logCount then Inl ErrExecMsgHasInvalidIndex
               else gather_loop depSet OpenBlock inTimestamp hazards
                      (gm_put hazardChainIndex logCount logCounts,
                       if gm_len msgs > 0
                       then gm_put hazardChainIndex (filter (\<lambda>(_, msg). em_Timestamp msg = inTimestamp) msgs) execMsgs
                       else execMsgs)))"

definition gatherLogs ::
  "dependency_set \<Rightarrow> (hash \<Rightarrow> u64 \<Rightarrow> super_error + opened) \<Rightarrow> u64 \<Rightarrow> hazard_entries \<Rightarrow> cycle_error + log_counts \<times> exec_msgs" where
  "gatherLogs depSet OpenBlock inTimestamp hazards = gather_loop depSet OpenBlock inTimestamp hazards ([], [])"

text \<open>The nodes of the logs of one chain, with the edges between consecutive logs.\<close>

definition add_log :: "u32 \<Rightarrow> nat \<Rightarrow> log_graph \<Rightarrow> log_graph" where
  "add_log chain i g =
     (if i = 0 then g\<lparr>g_inDegree0 := gm_put (Node chain 0) () (g_inDegree0 g)\<rparr>
      else addEdge (Node chain (of_nat i - 1)) (Node chain (of_nat i)) g)"

definition add_logs :: "u32 \<times> u32 \<Rightarrow> log_graph \<Rightarrow> log_graph" where
  "add_logs c g = fold (add_log (fst c)) [0..<unat (snd c)] g"

text \<open>The edge of one executing message.\<close>

definition add_message ::
  "hazard_entries \<Rightarrow> log_counts \<Rightarrow> exec_msgs \<Rightarrow> u32 \<Rightarrow> u32 \<times> executing_message \<Rightarrow> log_graph \<Rightarrow> cycle_error + log_graph" where
  "add_message hazardEntries logCounts execMsgs hazardChainIndex x g =
     (case x of (execLogIdx, m) \<Rightarrow>
        if gm_get hazardEntries (em_Chain m) = None then Inl ErrExecMsgUnknownChain
        else case gm_get execMsgs (em_Chain m) of
               None \<Rightarrow> Inr g
             | Some initChainMsgs \<Rightarrow>
                 if gm_get initChainMsgs (em_LogIdx m) = None then Inr g
                 else if (case gm_get logCounts (em_Chain m) of None \<Rightarrow> True | Some logCount \<Rightarrow> em_LogIdx m \<ge> logCount)
                 then Inl (CycleOther ErrConflict)
                 else let initKey = Node (em_Chain m) (em_LogIdx m); execKey = Node hazardChainIndex execLogIdx
                      in if initKey = execKey then Inl (CycleOther ErrConflict)
                         else Inr (addEdge initKey execKey g))"

fun add_messages ::
  "hazard_entries \<Rightarrow> log_counts \<Rightarrow> exec_msgs \<Rightarrow> (u32 \<times> u32 \<times> executing_message) list \<Rightarrow> log_graph \<Rightarrow> cycle_error + log_graph" where
  "add_messages hazardEntries logCounts execMsgs [] g = Inr g"
| "add_messages hazardEntries logCounts execMsgs ((c, x) # xs) g =
     (case add_message hazardEntries logCounts execMsgs c x g of
        Inl err \<Rightarrow> Inl err
      | Inr g \<Rightarrow> add_messages hazardEntries logCounts execMsgs xs g)"

text \<open>The two nested loops over the executing messages as one.\<close>

definition message_list :: "exec_msgs \<Rightarrow> (u32 \<times> u32 \<times> executing_message) list" where
  "message_list execMsgs = concat (map (\<lambda>(c, msgs). map (Pair c) msgs) execMsgs)"

definition empty_graph :: log_graph where
  "empty_graph = \<lparr>g_inDegree0 = [], g_inDegreeNon0 = [], g_outgoingEdges = []\<rparr>"

definition buildGraph ::
  "dependency_set \<Rightarrow> (hash \<Rightarrow> u64 \<Rightarrow> super_error + opened) \<Rightarrow> u64 \<Rightarrow> hazard_entries \<Rightarrow> cycle_error + log_graph" where
  "buildGraph depSet OpenBlock inTimestamp hazards =
     (case gatherLogs depSet OpenBlock inTimestamp hazards of
        Inl err \<Rightarrow> Inl err
      | Inr (logCounts, execMsgs) \<Rightarrow>
          add_messages hazards logCounts execMsgs (message_list execMsgs) (fold add_logs logCounts empty_graph))"

text \<open>One outgoing edge of a node without dependencies is removed.\<close>

definition remove_edge :: "node \<Rightarrow> log_graph \<Rightarrow> log_graph" where
  "remove_edge out g =
     (let g = g\<lparr>g_inDegreeNon0 := gm_put out (in_degree g out - 1) (g_inDegreeNon0 g)\<rparr>
      in if in_degree g out = 0
         then g\<lparr>g_inDegreeNon0 := gm_del out (g_inDegreeNon0 g), g_inDegree0 := gm_put out () (g_inDegree0 g)\<rparr>
         else g)"

definition process_node :: "node \<Rightarrow> log_graph \<Rightarrow> log_graph" where
  "process_node k g =
     (let g = fold remove_edge (outgoing g k) g
      in g\<lparr>g_outgoingEdges := gm_del k (g_outgoingEdges g), g_inDegree0 := gm_del k (g_inDegree0 g)\<rparr>)"

text \<open>The loops of \<open>checkGraph\<close> process one node of \<open>inDegree0\<close> after the other until there is none. Go visits the keys of
  a map, and those inserted on the way, in any order: \<open>kahn\<close> holds of a graph and every result the source may
  give. The function takes the first key of the list.\<close>

inductive kahn :: "log_graph \<Rightarrow> cycle_error option \<Rightarrow> bool" where
  finished: "g_inDegree0 g = [] \<Longrightarrow> kahn g (if gm_len (g_inDegreeNon0 g) = 0 then None else Some ErrCycle)"
| pick: "gm_get (g_inDegree0 g) k \<noteq> None \<Longrightarrow> kahn (process_node k g) r \<Longrightarrow> kahn g r"

definition edge_count :: "log_graph \<Rightarrow> nat" where
  "edge_count g = (\<Sum>k\<in>UNIV. length (outgoing g k))"

lemma remove_edge_out [simp]: "g_outgoingEdges (remove_edge n g) = g_outgoingEdges g"
  by (simp add: remove_edge_def Let_def)

lemma remove_edges_out [simp]: "g_outgoingEdges (fold remove_edge ns g) = g_outgoingEdges g"
  by (induction ns arbitrary: g) simp_all

lemma outgoing_cong: "g_outgoingEdges g = g_outgoingEdges g' \<Longrightarrow> outgoing g = outgoing g'"
  by (simp add: outgoing_def fun_eq_iff)

lemma outgoing_process: "outgoing (process_node k g) = (outgoing g)(k := [])"
  by (auto simp: process_node_def Let_def outgoing_def fun_eq_iff gomap_simps)

lemma edge_count_process: "edge_count (process_node k g) + length (outgoing g k) = edge_count g"
proof -
  have "edge_count g = length (outgoing g k) + (\<Sum>j\<in>UNIV - {k}. length (outgoing g j))"
    unfolding edge_count_def by (simp add: sum.remove)
  moreover have "edge_count (process_node k g) = (\<Sum>j\<in>UNIV - {k}. length (outgoing g j))"
    unfolding edge_count_def outgoing_process by (simp add: sum.remove [of UNIV k])
  ultimately show ?thesis by simp
qed

function checkGraph :: "log_graph \<Rightarrow> cycle_error option" where
  "checkGraph g =
     (case g_inDegree0 g of
        [] \<Rightarrow> if gm_len (g_inDegreeNon0 g) = 0 then None else Some ErrCycle
      | (k, _) # _ \<Rightarrow> checkGraph (process_node k g))"
  by pat_completeness auto
termination
proof (relation "measures [edge_count, \<lambda>g. length (g_inDegree0 g)]", goal_cases)
  case (2 g p ps k u)
  then have d: "g_inDegree0 g = (k, u) # ps" by simp
  show ?case
  proof (cases "outgoing g k")
    case Nil
    have "length (gm_del k ((k, u) # ps)) < length ((k, u) # ps)"
      by (simp add: gm_del_def AList.delete_eq le_imp_less_Suc)
    with Nil d edge_count_process [of k g] show ?thesis by (simp add: process_node_def)
  next
    case Cons
    with edge_count_process [of k g] show ?thesis by simp
  qed
qed simp

declare checkGraph.simps [simp del]

definition HazardCycleChecks ::
  "dependency_set \<Rightarrow> (hash \<Rightarrow> u64 \<Rightarrow> super_error + opened) \<Rightarrow> u64 \<Rightarrow> hazard_entries \<Rightarrow> cycle_error option" where
  "HazardCycleChecks depSet OpenBlock inTimestamp hazards =
     (case buildGraph depSet OpenBlock inTimestamp hazards of
        Inl err \<Rightarrow> Some err
      | Inr g \<Rightarrow> checkGraph g)"

section \<open>The sort finds exactly the cycles\<close>

definition edge_rel :: "log_graph \<Rightarrow> (node \<times> node) set" where
  "edge_rel g = {(k, n). n \<in> set (outgoing g k)}"

text \<open>The number of edges into a node.\<close>

definition indeg :: "log_graph \<Rightarrow> node \<Rightarrow> nat" where
  "indeg g n = (\<Sum>k\<in>UNIV. count_list (outgoing g k) n)"

text \<open>The two maps split the nodes \<open>N\<close> by the degree \<open>D\<close>.\<close>

definition degrees :: "log_graph \<Rightarrow> node set \<Rightarrow> (node \<Rightarrow> nat) \<Rightarrow> bool" where
  "degrees g N D \<longleftrightarrow>
     (\<forall>n. gm_get (g_inDegreeNon0 g) n = (if n \<in> N \<and> D n > 0 then Some (of_nat (D n)) else None))
     \<and> (\<forall>n. gm_get (g_inDegree0 g) n = (if n \<in> N \<and> D n = 0 then Some () else None))
     \<and> (\<forall>n. D n < 2 ^ 32)"

definition graph_ok :: "node set \<Rightarrow> log_graph \<Rightarrow> bool" where
  "graph_ok N g \<longleftrightarrow> degrees g N (indeg g) \<and> (\<forall>k. outgoing g k \<noteq> [] \<longrightarrow> k \<in> N) \<and> (\<forall>k. set (outgoing g k) \<subseteq> N)"

lemma remove_edge_degrees:
  assumes "degrees g N D" and "n \<in> N" and "D n > 0"
  shows "degrees (remove_edge n g) N (D(n := D n - 1))"
proof -
  have d: "in_degree g n = of_nat (D n)" using assms by (simp add: degrees_def in_degree_def)
  have lt: "D n < 2 ^ LENGTH(32)" using assms(1) by (simp add: degrees_def)
  have c: "of_nat (D n) - 1 = (of_nat (D n - 1) :: u32)" using assms(3) by (simp add: of_nat_diff)
  have "unat (of_nat (D n - 1) :: u32) = D n - 1" using lt by (intro unat_of_nat_small) linarith
  then have f: "(of_nat (D n - 1) :: u32) = 0 \<longleftrightarrow> D n - 1 = 0" unfolding word_unat_eq_iff by simp
  let ?put = "gm_put n (of_nat (D n - 1)) (g_inDegreeNon0 g)"
  have "remove_edge n g =
     (if D n - 1 = 0 then g\<lparr>g_inDegreeNon0 := gm_del n ?put, g_inDegree0 := gm_put n () (g_inDegree0 g)\<rparr>
      else g\<lparr>g_inDegreeNon0 := ?put\<rparr>)"
    unfolding remove_edge_def Let_def d c f [symmetric] by (simp add: in_degree_def gomap_simps)
  with assms show ?thesis unfolding degrees_def by (auto simp: gomap_simps intro: less_imp_diff_less)
qed

lemma remove_edges_degrees:
  assumes "degrees g N D" and "set ns \<subseteq> N" and "\<forall>n. count_list ns n \<le> D n"
  shows "degrees (fold remove_edge ns g) N (\<lambda>n. D n - count_list ns n)"
  using assms
proof (induction ns arbitrary: g D)
  case (Cons a ns)
  have "0 < D a" using Cons.prems(3) [rule_format, of a] by simp
  then have 1: "degrees (remove_edge a g) N (D(a := D a - 1))" using Cons.prems by (intro remove_edge_degrees) auto
  have 2: "\<forall>n. count_list ns n \<le> (D(a := D a - 1)) n"
  proof
    fix n
    show "count_list ns n \<le> (D(a := D a - 1)) n" using Cons.prems(3) [rule_format, of n] by (auto split: if_splits)
  qed
  have "degrees (fold remove_edge ns (remove_edge a g)) N (\<lambda>n. (D(a := D a - 1)) n - count_list ns n)"
    by (rule Cons.IH [OF 1 _ 2]) (use Cons.prems(2) in simp)
  moreover have "(\<lambda>n. (D(a := D a - 1)) n - count_list ns n) = (\<lambda>n. D n - count_list (a # ns) n)" by auto
  ultimately show ?case by simp
qed simp

lemma indeg_process: "indeg (process_node k g) n = indeg g n - count_list (outgoing g k) n"
proof -
  have "indeg g n = count_list (outgoing g k) n + (\<Sum>j\<in>UNIV - {k}. count_list (outgoing g j) n)"
    unfolding indeg_def by (simp add: sum.remove)
  moreover have "indeg (process_node k g) n = (\<Sum>j\<in>UNIV - {k}. count_list (outgoing g j) n)"
    unfolding indeg_def outgoing_process by (simp add: sum.remove [of UNIV k])
  ultimately show ?thesis by simp
qed

lemma count_le_indeg: "count_list (outgoing g k) n \<le> indeg g n"
  unfolding indeg_def by (rule member_le_sum) simp_all

lemma indeg_0: "indeg g n = 0 \<longleftrightarrow> (\<forall>k. (k, n) \<notin> edge_rel g)"
  by (auto simp: indeg_def edge_rel_def count_list_0_iff)

lemma process_ok:
  assumes "graph_ok N g" and "gm_get (g_inDegree0 g) k \<noteq> None"
  shows "graph_ok (N - {k}) (process_node k g)" and "acyclic (edge_rel (process_node k g)) \<longleftrightarrow> acyclic (edge_rel g)" and "k \<in> N"
proof -
  have k: "k \<in> N" "indeg g k = 0" using assms by (auto simp: graph_ok_def degrees_def split: if_splits)
  have d: "degrees (fold remove_edge (outgoing g k) g) N (\<lambda>n. indeg g n - count_list (outgoing g k) n)"
    using assms(1) count_le_indeg by (intro remove_edges_degrees) (auto simp: graph_ok_def)
  have no_in: "(j, k) \<notin> edge_rel g" for j using k(2) indeg_0 by blast
  have "degrees (process_node k g) (N - {k}) (indeg (process_node k g))"
    using d k(2) unfolding indeg_process by (auto simp: degrees_def process_node_def Let_def gomap_simps)
  moreover have "n \<noteq> k" if "n \<in> set (outgoing g j)" for n j using no_in [of j] that by (auto simp: edge_rel_def)
  ultimately show "graph_ok (N - {k}) (process_node k g)"
    using assms(1) unfolding graph_ok_def outgoing_process by auto
  have e: "edge_rel (process_node k g) = edge_rel g - {k} \<times> UNIV" by (auto simp: edge_rel_def outgoing_process split: if_splits)
  have "acyclic (edge_rel g)" if a: "acyclic (edge_rel g - {k} \<times> UNIV)"
  proof (rule acyclicI, intro allI notI)
    fix x
    assume x: "(x, x) \<in> (edge_rel g)\<^sup>+"
    have "x \<noteq> k" using x no_in by (metis tranclE)
    have "(a, b) \<in> (edge_rel g - {k} \<times> UNIV)\<^sup>+" if "(a, b) \<in> (edge_rel g)\<^sup>+" "a \<noteq> k" for a b
      using that
    proof (induction rule: trancl_induct)
      case (step y z)
      then have "y \<noteq> k" using no_in by (metis tranclE)
      with step show ?case by (meson DiffI SigmaE2 singletonD trancl.trancl_into_trancl)
    qed auto
    with x \<open>x \<noteq> k\<close> a show False by (auto simp: acyclic_def)
  qed
  with e show "acyclic (edge_rel (process_node k g)) \<longleftrightarrow> acyclic (edge_rel g)"
    by (auto intro: acyclic_subset)
  show "k \<in> N" by (rule k(1))
qed

lemma finished_ok:
  assumes "graph_ok N g" and "g_inDegree0 g = []"
  shows "gm_len (g_inDegreeNon0 g) = 0 \<longleftrightarrow> acyclic (edge_rel g)"
proof (cases "N = {}")
  case True
  then have "gm_get (g_inDegreeNon0 g) n = None" for n using assms(1) by (simp add: graph_ok_def degrees_def)
  then have "dom (gm_get (g_inDegreeNon0 g)) = {}" by auto
  then have "g_inDegreeNon0 g = []" by (simp add: gm_get_def [abs_def] dom_map_of_conv_image_fst)
  moreover have "edge_rel g = {}" using True assms(1) by (auto simp: edge_rel_def graph_ok_def)
  ultimately show ?thesis by (simp add: gm_len_def acyclic_def)
next
  case False
  have pos: "indeg g n > 0" if "n \<in> N" for n
  proof (rule ccontr)
    assume "\<not> 0 < indeg g n"
    then have "gm_get (g_inDegree0 g) n = Some ()" using that assms(1) by (simp add: graph_ok_def degrees_def)
    then show False using assms(2) by (simp add: gm_get_def)
  qed
  have pred: "\<exists>k \<in> N. (k, n) \<in> edge_rel g" if n: "n \<in> N" for n
  proof -
    obtain k where k: "(k, n) \<in> edge_rel g" using pos [OF n] indeg_0 [of g n] by auto
    then have "outgoing g k \<noteq> []" by (auto simp: edge_rel_def)
    with assms(1) k show ?thesis by (auto simp: graph_ok_def)
  qed
  have "\<not> acyclic (edge_rel g)"
  proof
    assume "acyclic (edge_rel g)"
    then have "wf (edge_rel g)" by (intro finite_acyclic_wf finite)
    with False obtain z where "z \<in> N" "\<forall>y. (y, z) \<in> edge_rel g \<longrightarrow> y \<notin> N" by (meson wf_eq_minimal ex_in_conv)
    with pred show False by blast
  qed
  moreover obtain n where "n \<in> N" using False by blast
  then have "gm_get (g_inDegreeNon0 g) n \<noteq> None" using assms(1) pos by (simp add: graph_ok_def degrees_def)
  then have "g_inDegreeNon0 g \<noteq> []" by (auto simp: gm_get_def)
  ultimately show ?thesis by (simp add: gm_len_def)
qed

lemma kahn_ok:
  "kahn g r \<Longrightarrow> graph_ok N g \<Longrightarrow> r = (if acyclic (edge_rel g) then None else Some ErrCycle)"
proof (induction arbitrary: N rule: kahn.induct)
  case (finished g)
  then show ?case using finished_ok by simp
next
  case (pick g k r)
  from pick.IH [OF process_ok(1) [OF pick.prems pick.hyps(1)]] process_ok(2) [OF pick.prems pick.hyps(1)]
  show ?case by simp
qed

lemma checkGraph_kahn: "kahn g (checkGraph g)"
proof (induction g rule: checkGraph.induct)
  case (1 g)
  show ?case
  proof (cases "g_inDegree0 g")
    case Nil
    then show ?thesis using kahn.finished [of g] by (simp add: checkGraph.simps [of g])
  next
    case (Cons p ps)
    obtain k u where p: "p = (k, u)" by (cases p)
    have "kahn (process_node k g) (checkGraph (process_node k g))" using 1 Cons p by blast
    then show ?thesis using kahn.pick [of g k] Cons p by (simp add: checkGraph.simps [of g] gm_get_def)
  qed
qed

section \<open>The graph of the logs\<close>

lemma indeg_outside: "graph_ok N g \<Longrightarrow> n \<notin> N \<Longrightarrow> indeg g n = 0"
  unfolding indeg_0 by (auto simp: graph_ok_def edge_rel_def)

lemma outgoing_addEdge: "outgoing (addEdge src to g) = (outgoing g)(src := outgoing g src @ [to])"
  by (auto simp: addEdge_def outgoing_def fun_eq_iff gomap_simps)

lemma edge_rel_addEdge: "edge_rel (addEdge src to g) = insert (src, to) (edge_rel g)"
  by (auto simp: edge_rel_def outgoing_addEdge split: if_splits)

lemma indeg_addEdge: "indeg (addEdge src to g) n = indeg g n + (if n = to then 1 else 0)"
proof -
  have "indeg (addEdge src to g) n = count_list (outgoing g src @ [to]) n + (\<Sum>j\<in>UNIV - {src}. count_list (outgoing g j) n)"
    unfolding indeg_def outgoing_addEdge by (simp add: sum.remove [of UNIV src])
  moreover have "indeg g n = count_list (outgoing g src) n + (\<Sum>j\<in>UNIV - {src}. count_list (outgoing g j) n)"
    unfolding indeg_def by (simp add: sum.remove)
  ultimately show ?thesis by simp
qed

lemma addEdge_ok:
  assumes "graph_ok N g" and "src \<in> N" and "indeg g to + 1 < 2 ^ 32"
  shows "graph_ok (insert to N) (addEdge src to g)"
proof -
  have "in_degree g to = of_nat (indeg g to)"
    using assms(1) indeg_outside [OF assms(1), of to] by (auto simp: graph_ok_def degrees_def in_degree_def)
  then have "degrees (addEdge src to g) (insert to N) (indeg (addEdge src to g))"
    using assms indeg_outside [OF assms(1)] unfolding indeg_addEdge
    by (auto simp: degrees_def graph_ok_def addEdge_def gomap_simps add.commute)
  then show ?thesis
    using assms(1,2) unfolding graph_ok_def outgoing_addEdge by auto
qed

lemma add_first_ok:
  assumes "graph_ok N g" and "n \<notin> N"
  shows "graph_ok (insert n N) (g\<lparr>g_inDegree0 := gm_put n () (g_inDegree0 g)\<rparr>)"
    and "indeg (g\<lparr>g_inDegree0 := m\<rparr>) = indeg g" and "edge_rel (g\<lparr>g_inDegree0 := m\<rparr>) = edge_rel g"
proof -
  have o: "outgoing (g\<lparr>g_inDegree0 := m\<rparr>) = outgoing g" for m by (rule outgoing_cong) simp
  then show i: "indeg (g\<lparr>g_inDegree0 := m\<rparr>) = indeg g" "edge_rel (g\<lparr>g_inDegree0 := m\<rparr>) = edge_rel g" for m
    by (simp_all add: indeg_def [abs_def] edge_rel_def)
  show "graph_ok (insert n N) (g\<lparr>g_inDegree0 := gm_put n () (g_inDegree0 g)\<rparr>)"
    using assms(1) indeg_outside [OF assms] assms(2) unfolding graph_ok_def o i
    by (auto simp: degrees_def gomap_simps)
qed

definition chain_nodes :: "u32 \<Rightarrow> nat \<Rightarrow> node set" where
  "chain_nodes c k = (\<lambda>i. Node c (of_nat i)) ` {..<k}"

definition chain_edges :: "u32 \<Rightarrow> nat \<Rightarrow> (node \<times> node) set" where
  "chain_edges c k = (\<lambda>i. (Node c (of_nat i), Node c (of_nat (Suc i)))) ` {i. Suc i < k}"

lemma of_nat_u32_inj:
  assumes "i < 2 ^ 32" and "j < 2 ^ 32" and "(of_nat i :: u32) = of_nat j"
  shows "i = j"
proof -
  have "unat (of_nat i :: u32) = i" "unat (of_nat j :: u32) = j"
    by (rule unat_of_nat_small, use assms(1,2) in simp)+
  with assms(3) show ?thesis by metis
qed

lemma chain_nodes_Suc: "chain_nodes c (Suc k) = insert (Node c (of_nat k)) (chain_nodes c k)"
  by (simp add: chain_nodes_def lessThan_Suc)

lemma chain_edges_Suc:
  "chain_edges c (Suc k) = (if k = 0 then {} else insert (Node c (of_nat (k - 1)), Node c (of_nat k)) (chain_edges c k))"
proof (cases k)
  case (Suc j)
  then have "{i. Suc i < Suc k} = insert j {i. Suc i < k}" by auto
  with Suc show ?thesis by (simp add: chain_edges_def)
qed (simp add: chain_edges_def)

lemma add_logs_fold:
  assumes "graph_ok N g" and "\<forall>i. Node c i \<notin> N" and "\<forall>n. indeg g n \<le> 1" and "k \<le> 2 ^ 32"
  shows "graph_ok (N \<union> chain_nodes c k) (fold (add_log c) [0..<k] g)
     \<and> edge_rel (fold (add_log c) [0..<k] g) = edge_rel g \<union> chain_edges c k
     \<and> (\<forall>n. indeg (fold (add_log c) [0..<k] g) n \<le> 1)"
  using assms(4)
proof (induction k)
  case 0
  then show ?case using assms by (simp add: chain_nodes_def chain_edges_def)
next
  case (Suc k)
  define G where "G = fold (add_log c) [0..<k] g"
  let ?N = "N \<union> chain_nodes c k"
  have IH: "graph_ok ?N G" "edge_rel G = edge_rel g \<union> chain_edges c k" "\<forall>n. indeg G n \<le> 1" using Suc by (auto simp: G_def)
  have new: "Node c (of_nat k) \<notin> ?N"
  proof
    assume "Node c (of_nat k) \<in> ?N"
    then obtain i where "i < k" "(of_nat k :: u32) = of_nat i" using assms(2) by (auto simp: chain_nodes_def)
    with of_nat_u32_inj [of k i] Suc.prems show False by simp
  qed
  have f: "fold (add_log c) [0..<Suc k] g = add_log c k G" by (simp add: G_def)
  show ?case
  proof (cases "k = 0")
    case True
    then show ?thesis using add_first_ok [OF IH(1) new] IH unfolding f
      by (simp add: add_log_def chain_nodes_def chain_edges_def lessThan_Suc)
  next
    case False
    then obtain j where j: "k = Suc j" by (cases k) auto
    then have a: "add_log c k G = addEdge (Node c (of_nat j)) (Node c (of_nat k)) G" by (simp add: add_log_def)
    have "Node c (of_nat j) \<in> ?N" using j by (simp add: chain_nodes_def)
    then have "graph_ok (insert (Node c (of_nat k)) ?N) (add_log c k G)"
      unfolding a by (rule addEdge_ok [OF IH(1)]) (simp add: indeg_outside [OF IH(1) new])
    moreover have "\<forall>n. indeg (add_log c k G) n \<le> 1"
      unfolding a indeg_addEdge using IH(3) indeg_outside [OF IH(1) new] by simp
    moreover have "edge_rel (add_log c k G) = edge_rel g \<union> chain_edges c (Suc k)"
      unfolding a edge_rel_addEdge chain_edges_Suc IH(2) using j by simp
    ultimately show ?thesis unfolding f chain_nodes_Suc by simp
  qed
qed

definition log_nodes :: "log_counts \<Rightarrow> node set" where
  "log_nodes lc = (\<Union>(c, k) \<in> set lc. chain_nodes c (unat k))"

definition log_edges :: "log_counts \<Rightarrow> (node \<times> node) set" where
  "log_edges lc = (\<Union>(c, k) \<in> set lc. chain_edges c (unat k))"

lemma add_all_logs:
  assumes "graph_ok N g" and "\<forall>(c, k) \<in> set lc. \<forall>i. Node c i \<notin> N" and "distinct (map fst lc)" and "\<forall>n. indeg g n \<le> 1"
  shows "graph_ok (N \<union> log_nodes lc) (fold add_logs lc g) \<and> edge_rel (fold add_logs lc g) = edge_rel g \<union> log_edges lc
     \<and> (\<forall>n. indeg (fold add_logs lc g) n \<le> 1)"
  using assms
proof (induction lc arbitrary: g N)
  case (Cons x lc)
  obtain c k where x: "x = (c, k)" by (cases x)
  have "unat k < 2 ^ LENGTH(32)" by (rule unsigned_less)
  then have "unat k \<le> 2 ^ 32" by simp
  with add_logs_fold [of N g c "unat k"] Cons.prems have 1: "graph_ok (N \<union> chain_nodes c (unat k)) (add_logs x g)"
    "edge_rel (add_logs x g) = edge_rel g \<union> chain_edges c (unat k)" "\<forall>n. indeg (add_logs x g) n \<le> 1"
    by (auto simp: add_logs_def x)
  have "\<forall>(d, j) \<in> set lc. \<forall>i. Node d i \<notin> N \<union> chain_nodes c (unat k)"
    using Cons.prems(2,3) by (force simp: x chain_nodes_def)
  from Cons.IH [OF 1(1) this _ 1(3)] Cons.prems(3) 1(2) show ?case
    by (simp add: x log_nodes_def log_edges_def Un_assoc)
qed (simp add: log_nodes_def log_edges_def)

lemma empty_graph_ok: "graph_ok {} empty_graph" "edge_rel empty_graph = {}" "indeg empty_graph n = 0"
  by (simp_all add: empty_graph_def graph_ok_def degrees_def indeg_def outgoing_def edge_rel_def gomap_simps)

section \<open>The executing messages\<close>

text \<open>The messages that were gathered, by chain and log index.\<close>

definition has_message :: "exec_msgs \<Rightarrow> u32 \<Rightarrow> u32 \<Rightarrow> executing_message \<Rightarrow> bool" where
  "has_message em c i m \<longleftrightarrow> (\<exists>ms. gm_get em c = Some ms \<and> gm_get ms i = Some m)"

definition exec_inv :: "exec_msgs \<Rightarrow> bool" where
  "exec_inv em \<longleftrightarrow> gm_inv em \<and> (\<forall>c ms. gm_get em c = Some ms \<longrightarrow> gm_inv ms)"

text \<open>The code adds an edge only from an initiating message that executes a message of the same timestamp itself.\<close>

definition relevant :: "exec_msgs \<Rightarrow> executing_message \<Rightarrow> bool" where
  "relevant em m \<longleftrightarrow> (\<exists>m'. has_message em (em_Chain m) (em_LogIdx m) m')"

definition message_fine :: "hazard_entries \<Rightarrow> exec_msgs \<Rightarrow> u32 \<times> u32 \<times> executing_message \<Rightarrow> bool" where
  "message_fine hz em x = (case x of (c, i, m) \<Rightarrow>
     gm_get hz (em_Chain m) \<noteq> None \<and> \<not> (relevant em m \<and> Node (em_Chain m) (em_LogIdx m) = Node c i))"

definition message_edge :: "u32 \<times> u32 \<times> executing_message \<Rightarrow> node \<times> node" where
  "message_edge x = (case x of (c, i, m) \<Rightarrow> (Node (em_Chain m) (em_LogIdx m), Node c i))"

definition message_edges :: "exec_msgs \<Rightarrow> (u32 \<times> u32 \<times> executing_message) list \<Rightarrow> (node \<times> node) set" where
  "message_edges em xs = message_edge ` {x \<in> set xs. relevant em (snd (snd x))}"

lemma message_edges_Cons:
  "message_edges em (x # xs) = (if relevant em (snd (snd x)) then insert (message_edge x) (message_edges em xs) else message_edges em xs)"
  by (auto simp: message_edges_def)

lemma add_message_cases:
  assumes "relevant em m \<longrightarrow> (\<exists>k. gm_get lc (em_Chain m) = Some k \<and> em_LogIdx m < k)"
  shows "if message_fine hz em (c, i, m)
     then add_message hz lc em c (i, m) g = Inr (if relevant em m then addEdge (Node (em_Chain m) (em_LogIdx m)) (Node c i) g else g)
     else add_message hz lc em c (i, m) g = Inl ErrExecMsgUnknownChain \<or> add_message hz lc em c (i, m) g = Inl (CycleOther ErrConflict)"
  using assms by (auto simp: message_fine_def relevant_def has_message_def add_message_def not_le split: option.splits)

lemma add_messages_ok:
  assumes "graph_ok N g" and "\<forall>x \<in> set xs. snd (message_edge x) \<in> N"
    and "\<forall>x \<in> set xs. relevant em (snd (snd x)) \<longrightarrow> fst (message_edge x) \<in> N
           \<and> (\<exists>k. gm_get lc (em_Chain (snd (snd x))) = Some k \<and> em_LogIdx (snd (snd x)) < k)"
    and "\<forall>n. indeg g n + count_list (map (snd \<circ> message_edge) xs) n \<le> 2"
  shows "if \<forall>x \<in> set xs. message_fine hz em x
     then \<exists>g'. add_messages hz lc em xs g = Inr g' \<and> graph_ok N g' \<and> edge_rel g' = edge_rel g \<union> message_edges em xs
     else add_messages hz lc em xs g = Inl ErrExecMsgUnknownChain \<or> add_messages hz lc em xs g = Inl (CycleOther ErrConflict)"
  using assms
proof (induction hz lc em xs g rule: add_messages.induct)
  case (1 hz lc em g)
  then show ?case by (simp add: message_edges_def)
next
  case (2 hz lc em c x xs g)
  obtain i m where x: "x = (i, m)" by (cases x)
  let ?g = "if relevant em m then addEdge (Node (em_Chain m) (em_LogIdx m)) (Node c i) g else g"
  have C: "if message_fine hz em (c, x) then add_message hz lc em c x g = Inr ?g
     else add_message hz lc em c x g = Inl ErrExecMsgUnknownChain \<or> add_message hz lc em c x g = Inl (CycleOther ErrConflict)"
    unfolding x by (rule add_message_cases) (use "2.prems"(3) x in simp)
  show ?case
  proof (cases "message_fine hz em (c, x)")
    case False
    with C show ?thesis by auto
  next
    case True
    with C have eq: "add_message hz lc em c x g = Inr ?g" by simp
    have N: "Node c i \<in> N" using "2.prems"(2) x by (simp add: message_edge_def)
    have ok: "graph_ok N ?g"
    proof (cases "relevant em m")
      case True
      then have "Node (em_Chain m) (em_LogIdx m) \<in> N" using "2.prems"(3) x by (simp add: message_edge_def)
      moreover have "indeg g (Node c i) + 1 < 2 ^ 32"
        using "2.prems"(4) [rule_format, of "Node c i"] x by (simp add: message_edge_def)
      ultimately show ?thesis using addEdge_ok [OF "2.prems"(1), of _ "Node c i"] N True by (simp add: insert_absorb)
    qed (use "2.prems"(1) in simp)
    have "\<forall>n. indeg ?g n + count_list (map (snd \<circ> message_edge) xs) n \<le> 2"
    proof
      fix n
      show "indeg ?g n + count_list (map (snd \<circ> message_edge) xs) n \<le> 2"
        using "2.prems"(4) [rule_format, of n] x by (auto simp: indeg_addEdge message_edge_def split: if_splits)
    qed
    note IH = "2.IH" [OF eq ok _ _ this]
    have "edge_rel ?g \<union> message_edges em xs = edge_rel g \<union> message_edges em ((c, x) # xs)"
      by (simp add: edge_rel_addEdge message_edges_Cons x) (simp add: message_edge_def)
    with IH True eq "2.prems"(2,3) show ?thesis by (auto simp del: Un_iff)
  qed
qed

lemma message_list_has: "exec_inv em \<Longrightarrow> (c, i, m) \<in> set (message_list em) \<longleftrightarrow> has_message em c i m"
proof -
  assume inv: "exec_inv em"
  then have "gm_inv em" by (simp add: exec_inv_def)
  have "(c, i, m) \<in> set (message_list em) \<longleftrightarrow> (\<exists>ms. (c, ms) \<in> set em \<and> (i, m) \<in> set ms)"
    by (force simp: message_list_def)
  also have "\<dots> \<longleftrightarrow> has_message em c i m"
    using inv gm_get_eq_mem [OF \<open>gm_inv em\<close>] gm_get_eq_mem unfolding has_message_def exec_inv_def by fastforce
  finally show ?thesis .
qed

lemma distinct_keys: "distinct (map fst em) \<Longrightarrow> \<forall>(c, ms) \<in> set em. distinct (map fst ms) \<Longrightarrow>
  distinct (map (snd \<circ> message_edge) (concat (map (\<lambda>(c, ms). map (Pair c) ms) em)))"
proof (induction em)
  case (Cons x em)
  obtain c ms where x: "x = (c, ms)" by (cases x)
  have "map (snd \<circ> message_edge \<circ> Pair c) ms = map (Node c) (map fst ms)" by (auto simp: message_edge_def)
  moreover have "distinct (map (Node c) (map fst ms))"
    unfolding distinct_map [of "Node c"] using Cons.prems(2) x by (auto simp: inj_on_def)
  ultimately have d: "distinct (map (snd \<circ> message_edge \<circ> Pair c) ms)" by (simp only:)
  let ?rest = "map (snd \<circ> message_edge) (concat (map (\<lambda>(c, ms). map (Pair c) ms) em))"
  have "chainIndex n = c" if "n \<in> set (map (snd \<circ> message_edge \<circ> Pair c) ms)" for n
    using that by (auto simp: message_edge_def)
  moreover have "chainIndex n \<in> fst ` set em" if "n \<in> set ?rest" for n
    using that by (force simp: message_edge_def)
  moreover have "c \<notin> fst ` set em" using Cons.prems(1) x by simp
  ultimately have "set (map (snd \<circ> message_edge \<circ> Pair c) ms) \<inter> set ?rest = {}" by blast
  moreover have "distinct ?rest" by (rule Cons.IH) (use Cons.prems in simp_all)
  moreover have "map (snd \<circ> message_edge) (concat (map (\<lambda>(c, ms). map (Pair c) ms) (x # em)))
      = map (snd \<circ> message_edge \<circ> Pair c) ms @ ?rest" by (simp add: x)
  ultimately show ?case using d by (simp only: distinct_append simp_thms)
qed simp

lemma count_distinct: "distinct xs \<Longrightarrow> count_list xs n \<le> 1"
  by (induction xs) (auto simp: count_list_0_iff)

section \<open>Gathering the logs\<close>

text \<open>\<open>OpenBlock\<close> returns a map.\<close>

definition opens_maps :: "(hash \<Rightarrow> u64 \<Rightarrow> super_error + opened) \<Rightarrow> bool" where
  "opens_maps OpenBlock \<longleftrightarrow> (\<forall>c n r k msgs. OpenBlock c n = Inr (r, k, msgs) \<longrightarrow> gm_inv msgs)"

definition hazard_block ::
  "dependency_set \<Rightarrow> (hash \<Rightarrow> u64 \<Rightarrow> super_error + opened) \<Rightarrow> hazard_entries \<Rightarrow> u32 \<Rightarrow> block_seal \<Rightarrow> block_ref \<Rightarrow> u32
     \<Rightarrow> (u32, executing_message) gomap \<Rightarrow> bool" where
  "hazard_block ds OpenBlock hz c b ref k msgs \<longleftrightarrow>
     (\<exists>chain. gm_get hz c = Some b \<and> ChainIDFromIndex ds c = Inr chain \<and> OpenBlock chain (seal_Number b) = Inr (ref, k, msgs))"

definition hazard_message ::
  "dependency_set \<Rightarrow> (hash \<Rightarrow> u64 \<Rightarrow> super_error + opened) \<Rightarrow> u64 \<Rightarrow> hazard_entries \<Rightarrow> u32 \<Rightarrow> u32 \<Rightarrow> executing_message \<Rightarrow> bool" where
  "hazard_message ds OpenBlock ts hz c i m \<longleftrightarrow>
     (\<exists>b ref k msgs. hazard_block ds OpenBlock hz c b ref k msgs \<and> gm_get msgs i = Some m \<and> em_Timestamp m = ts)"

text \<open>Every hazard block can be opened, is the block that was meant, and has its messages at its logs.\<close>

definition hazards_open :: "dependency_set \<Rightarrow> (hash \<Rightarrow> u64 \<Rightarrow> super_error + opened) \<Rightarrow> hazard_entries \<Rightarrow> bool" where
  "hazards_open ds OpenBlock hz \<longleftrightarrow>
     (\<forall>c b. gm_get hz c = Some b \<longrightarrow> (\<exists>ref k msgs. hazard_block ds OpenBlock hz c b ref k msgs
        \<and> blockSealMatchesRef b ref \<and> (\<forall>i m. gm_get msgs i = Some m \<longrightarrow> i < k)))"

lemma gm_filter:
  assumes "gm_inv ms"
  shows "gm_inv (filter P ms)" and "gm_get (filter (\<lambda>(_, m). Q m) ms) i = Some m \<longleftrightarrow> gm_get ms i = Some m \<and> Q m"
proof -
  show inv: "gm_inv (filter P ms)" for P using assms by (simp add: gm_inv_def distinct_map_filter)
  show "gm_get (filter (\<lambda>(_, m). Q m) ms) i = Some m \<longleftrightarrow> gm_get ms i = Some m \<and> Q m"
    unfolding gm_get_eq_mem [OF inv] gm_get_eq_mem [OF assms] by auto
qed

lemma hazard_block_Cons:
  "hazard_block ds OpenBlock ((c', b') # hz) c b ref k msgs \<longleftrightarrow>
     (if c = c' then b = b' \<and> (\<exists>chain. ChainIDFromIndex ds c = Inr chain \<and> OpenBlock chain (seal_Number b) = Inr (ref, k, msgs))
      else hazard_block ds OpenBlock hz c b ref k msgs)"
  by (auto simp: hazard_block_def gm_get_def)

lemma hazard_block_key: "hazard_block ds OpenBlock hz c b ref k msgs \<Longrightarrow> c \<in> fst ` set hz"
  by (force simp: hazard_block_def dest: gm_get_mem)

lemma gather_step:
  assumes "gather_loop ds OpenBlock ts ((c, b) # hz) (lc, em) = Inr r"
  obtains chain ref k msgs where "ChainIDFromIndex ds c = Inr chain" "OpenBlock chain (seal_Number b) = Inr (ref, k, msgs)"
    "blockSealMatchesRef b ref" "\<forall>(i, m) \<in> set msgs. i < k"
    "gather_loop ds OpenBlock ts hz (gm_put c k lc,
       if gm_len msgs > 0 then gm_put c (filter (\<lambda>(_, msg). em_Timestamp msg = ts) msgs) em else em) = Inr r"
proof -
  from assms obtain chain where 1: "ChainIDFromIndex ds c = Inr chain" by (cases "ChainIDFromIndex ds c") auto
  from assms 1 obtain t where "OpenBlock chain (seal_Number b) = Inr t" by (cases "OpenBlock chain (seal_Number b)") auto
  then obtain ref k msgs where 2: "OpenBlock chain (seal_Number b) = Inr (ref, k, msgs)" by (cases t) auto
  from assms 1 2 have 3: "blockSealMatchesRef b ref" by (simp split: if_splits)
  from assms 1 2 have 4: "\<not> (\<exists>(i, _) \<in> set msgs. i \<ge> k)" by (simp split: if_splits)
  from assms 1 2 3 4 have "gather_loop ds OpenBlock ts hz (gm_put c k lc,
       if gm_len msgs > 0 then gm_put c (filter (\<lambda>(_, msg). em_Timestamp msg = ts) msgs) em else em) = Inr r"
    by (simp only: gather_loop.simps sum.case prod.case simp_thms if_False if_True)
  with 1 2 3 4 show thesis by (intro that) (auto simp: not_le)
qed

lemma gather_spec:
  assumes "gather_loop ds OpenBlock ts hz (lc, em) = Inr (lc', em')" and "distinct (map fst hz)" and "opens_maps OpenBlock"
    and "\<forall>c \<in> fst ` set hz. gm_get lc c = None \<and> gm_get em c = None" and "gm_inv lc" and "exec_inv em"
  shows "gm_inv lc' \<and> exec_inv em'
    \<and> (\<forall>c k. gm_get lc' c = Some k \<longleftrightarrow> gm_get lc c = Some k \<or> (\<exists>b ref msgs. hazard_block ds OpenBlock hz c b ref k msgs))
    \<and> (\<forall>c i m. has_message em' c i m \<longleftrightarrow> has_message em c i m \<or> hazard_message ds OpenBlock ts hz c i m)"
  using assms
proof (induction hz arbitrary: lc em)
  case Nil
  then show ?case by (simp add: hazard_message_def hazard_block_def gm_get_def)
next
  case (Cons x hz)
  obtain c b where x: "x = (c, b)" by (cases x)
  obtain chain ref k msgs where g: "ChainIDFromIndex ds c = Inr chain" "OpenBlock chain (seal_Number b) = Inr (ref, k, msgs)"
    "blockSealMatchesRef b ref" "\<forall>(i, m) \<in> set msgs. i < k"
    "gather_loop ds OpenBlock ts hz (gm_put c k lc,
       if gm_len msgs > 0 then gm_put c (filter (\<lambda>(_, msg). em_Timestamp msg = ts) msgs) em else em) = Inr (lc', em')"
    using gather_step [OF Cons.prems(1) [unfolded x]] .
  let ?em = "if gm_len msgs > 0 then gm_put c (filter (\<lambda>(_, msg). em_Timestamp msg = ts) msgs) em else em"
  have inv: "gm_inv msgs" using Cons.prems(3) g(2) by (auto simp: opens_maps_def)
  have none: "gm_get lc c = None" "gm_get em c = None" using Cons.prems(4) x by auto
  have c: "c \<notin> fst ` set hz" using Cons.prems(2) x by simp
  have "exec_inv ?em" using Cons.prems(6) gm_filter(1) [OF inv] by (auto simp: exec_inv_def gomap_simps split: if_splits)
  moreover have "\<forall>d \<in> fst ` set hz. gm_get (gm_put c k lc) d = None \<and> gm_get ?em d = None"
    using Cons.prems(4) c x by (auto simp: gomap_simps)
  ultimately have IH: "gm_inv lc'" "exec_inv em'"
    "\<forall>d j. gm_get lc' d = Some j \<longleftrightarrow> gm_get (gm_put c k lc) d = Some j \<or> (\<exists>b ref msgs. hazard_block ds OpenBlock hz d b ref j msgs)"
    "\<forall>d i m. has_message em' d i m \<longleftrightarrow> has_message ?em d i m \<or> hazard_message ds OpenBlock ts hz d i m"
    using Cons.IH [OF g(5)] Cons.prems(2,3,5) by (auto simp: gm.inv_put)
  have not: "\<not> hazard_block ds OpenBlock hz c b' r j ms" for b' r j ms using hazard_block_key c by blast
  have here: "hazard_block ds OpenBlock (x # hz) c b' r j ms \<longleftrightarrow> b' = b \<and> r = ref \<and> j = k \<and> ms = msgs" for b' r j ms
    using g(1,2) by (auto simp: x hazard_block_Cons)
  have there: "d \<noteq> c \<Longrightarrow> hazard_block ds OpenBlock (x # hz) d = hazard_block ds OpenBlock hz d" for d
    by (simp add: x hazard_block_Cons fun_eq_iff)
  have 1: "gm_get lc' d = Some j \<longleftrightarrow> gm_get lc d = Some j \<or> (\<exists>b ref msgs. hazard_block ds OpenBlock (x # hz) d b ref j msgs)" for d j
    unfolding IH(3) [rule_format] using none not here there by (cases "d = c") (auto simp: gomap_simps)
  have em: "has_message ?em d i m \<longleftrightarrow> (if d = c then gm_get msgs i = Some m \<and> em_Timestamp m = ts else has_message em d i m)" for d i m
    using none gm_filter(2) [OF inv, of "\<lambda>m. em_Timestamp m = ts"]
    by (auto simp: has_message_def gomap_simps gm_len_def split: if_splits)
  have 2: "has_message em' d i m \<longleftrightarrow> has_message em d i m \<or> hazard_message ds OpenBlock ts (x # hz) d i m" for d i m
  proof (cases "d = c")
    case True
    have "\<not> has_message em c i m" using none by (simp add: has_message_def)
    with True show ?thesis unfolding IH(4) [rule_format] em by (auto simp: hazard_message_def here not)
  next
    case False
    then show ?thesis unfolding IH(4) [rule_format] em by (simp add: hazard_message_def there)
  qed
  from IH(1,2) 1 2 show ?case by blast
qed

lemma gather_ok:
  assumes "distinct (map fst hz)" and "opens_maps OpenBlock"
  shows "(\<exists>r. gather_loop ds OpenBlock ts hz (lc, em) = Inr r) \<longleftrightarrow> hazards_open ds OpenBlock hz"
  using assms
proof (induction hz arbitrary: lc em)
  case Nil
  then show ?case by (simp add: hazards_open_def gm_get_def)
next
  case (Cons x hz)
  obtain c b where x: "x = (c, b)" by (cases x)
  have c: "gm_get hz c = None" using Cons.prems(1) x by (simp add: gm_get_def map_of_eq_None_iff)
  have H: "hazards_open ds OpenBlock (x # hz) \<longleftrightarrow> (\<exists>ref k msgs chain. ChainIDFromIndex ds c = Inr chain
      \<and> OpenBlock chain (seal_Number b) = Inr (ref, k, msgs) \<and> blockSealMatchesRef b ref \<and> (\<forall>i m. gm_get msgs i = Some m \<longrightarrow> i < k))
    \<and> hazards_open ds OpenBlock hz"
    (is "_ \<longleftrightarrow> ?A \<and> _")
  proof -
    define Q where "Q h d b' \<longleftrightarrow> (\<exists>ref k msgs. hazard_block ds OpenBlock h d b' ref k msgs \<and> blockSealMatchesRef b' ref
        \<and> (\<forall>i m. gm_get msgs i = Some m \<longrightarrow> i < k))" for h d b'
    have "hazards_open ds OpenBlock (x # hz) \<longleftrightarrow> (\<forall>d b'. gm_get (x # hz) d = Some b' \<longrightarrow> Q (x # hz) d b')"
      by (simp add: hazards_open_def Q_def)
    also have "\<dots> \<longleftrightarrow> Q (x # hz) c b \<and> (\<forall>d b'. gm_get hz d = Some b' \<longrightarrow> Q (x # hz) d b')"
      using c by (auto simp: x gm_get_def split: if_splits)
    also have "Q (x # hz) c b \<longleftrightarrow> ?A" by (auto simp: Q_def x hazard_block_Cons)
    also have "(\<forall>d b'. gm_get hz d = Some b' \<longrightarrow> Q (x # hz) d b') \<longleftrightarrow> (\<forall>d b'. gm_get hz d = Some b' \<longrightarrow> Q hz d b')"
    proof -
      have "Q (x # hz) d b' = Q hz d b'" if "gm_get hz d = Some b'" for d b'
        using that c unfolding Q_def x by (cases "d = c") (simp_all add: hazard_block_Cons)
      then show ?thesis by simp
    qed
    finally show ?thesis by (simp add: hazards_open_def Q_def)
  qed
  show ?case
  proof
    assume "\<exists>r. gather_loop ds OpenBlock ts (x # hz) (lc, em) = Inr r"
    then obtain r where "gather_loop ds OpenBlock ts ((c, b) # hz) (lc, em) = Inr r" using x by blast
    then obtain chain ref k msgs where g: "ChainIDFromIndex ds c = Inr chain" "OpenBlock chain (seal_Number b) = Inr (ref, k, msgs)"
      "blockSealMatchesRef b ref" "\<forall>(i, m) \<in> set msgs. i < k"
      "gather_loop ds OpenBlock ts hz (gm_put c k lc,
         if gm_len msgs > 0 then gm_put c (filter (\<lambda>(_, msg). em_Timestamp msg = ts) msgs) em else em) = Inr r"
      by (rule gather_step)
    from g(1-4) have ?A by (fastforce dest: gm_get_mem)
    moreover have "hazards_open ds OpenBlock hz"
      by (rule iffD1 [OF Cons.IH exI, OF _ _ g(5)]) (use Cons.prems in simp_all)
    ultimately show "hazards_open ds OpenBlock (x # hz)" unfolding H ..
  next
    assume "hazards_open ds OpenBlock (x # hz)"
    then obtain ref k msgs chain where g: "ChainIDFromIndex ds c = Inr chain"
      "OpenBlock chain (seal_Number b) = Inr (ref, k, msgs)" "blockSealMatchesRef b ref" "\<forall>i m. gm_get msgs i = Some m \<longrightarrow> i < k"
      "hazards_open ds OpenBlock hz" unfolding H by blast
    have "gm_inv msgs" using Cons.prems(2) g(2) by (auto simp: opens_maps_def)
    with g(4) have "\<not> (\<exists>(i, _) \<in> set msgs. i \<ge> k)" by (fastforce simp: gm_get_eq_mem)
    then have e: "gather_loop ds OpenBlock ts (x # hz) (lc, em) = gather_loop ds OpenBlock ts hz (gm_put c k lc,
         if gm_len msgs > 0 then gm_put c (filter (\<lambda>(_, msg). em_Timestamp msg = ts) msgs) em else em)"
      using g(1-3) by (simp only: x gather_loop.simps sum.case prod.case simp_thms if_False)
    show "\<exists>r. gather_loop ds OpenBlock ts (x # hz) (lc, em) = Inr r"
      unfolding e by (rule iffD2 [OF Cons.IH g(5)]) (use Cons.prems in simp_all)
  qed
qed

section \<open>What the check decides\<close>

text \<open>The dependencies between the logs of the hazard blocks that the comment on \<open>HazardCycleChecks\<close> names: every log
  depends on the log before it, and an executing message on its initiating message.\<close>

definition documented_deps ::
  "dependency_set \<Rightarrow> (hash \<Rightarrow> u64 \<Rightarrow> super_error + opened) \<Rightarrow> u64 \<Rightarrow> hazard_entries \<Rightarrow> (node \<times> node) set" where
  "documented_deps ds OpenBlock ts hz =
     {(Node c (i - 1), Node c i) | c i b ref k msgs. hazard_block ds OpenBlock hz c b ref k msgs \<and> 0 < i \<and> i < k}
     \<union> {(Node (em_Chain m) (em_LogIdx m), Node c i) | c i m. hazard_message ds OpenBlock ts hz c i m}"

text \<open>The dependencies the code has edges for. \<open>buildGraph\<close> skips a message whose initiating log executes no message of the
  timestamp itself, so this relation can be smaller than the documented one.\<close>

definition executing_deps ::
  "dependency_set \<Rightarrow> (hash \<Rightarrow> u64 \<Rightarrow> super_error + opened) \<Rightarrow> u64 \<Rightarrow> hazard_entries \<Rightarrow> (node \<times> node) set" where
  "executing_deps ds OpenBlock ts hz =
     {(Node c (i - 1), Node c i) | c i b ref k msgs. hazard_block ds OpenBlock hz c b ref k msgs \<and> 0 < i \<and> i < k}
     \<union> {(Node (em_Chain m) (em_LogIdx m), Node c i) | c i m m'. hazard_message ds OpenBlock ts hz c i m
          \<and> hazard_message ds OpenBlock ts hz (em_Chain m) (em_LogIdx m) m'}"

text \<open>Every message refers to a chain of the hazard set, and not to itself.\<close>

definition messages_fine ::
  "dependency_set \<Rightarrow> (hash \<Rightarrow> u64 \<Rightarrow> super_error + opened) \<Rightarrow> u64 \<Rightarrow> hazard_entries \<Rightarrow> bool" where
  "messages_fine ds OpenBlock ts hz \<longleftrightarrow>
     (\<forall>c i m. hazard_message ds OpenBlock ts hz c i m \<longrightarrow>
        gm_get hz (em_Chain m) \<noteq> None \<and> (em_Chain m, em_LogIdx m) \<noteq> (c, i))"

lemma chain_edges_word: "chain_edges c (unat k) = {(Node c (i - 1), Node c i) | i. 0 < i \<and> i < k}"
proof (intro set_eqI iffI)
  fix e
  assume "e \<in> chain_edges c (unat k)"
  then obtain j where j: "e = (Node c (of_nat j), Node c (of_nat (Suc j)))" "Suc j < unat k" by (auto simp: chain_edges_def)
  have "unat k < 2 ^ LENGTH(32)" by (rule unsigned_less)
  then have u: "unat (of_nat (Suc j) :: u32) = Suc j" using j(2) by (intro unat_of_nat_small) linarith
  have "(of_nat (Suc j) :: u32) - 1 = of_nat j" by simp
  moreover have "(0 :: u32) < of_nat (Suc j)" "of_nat (Suc j) < k" using u j(2) by (simp_all only: word_less_nat_alt unat_0)
  ultimately show "e \<in> {(Node c (i - 1), Node c i) | i. 0 < i \<and> i < k}" using j(1) by (metis (mono_tags, lifting) mem_Collect_eq)
next
  fix e
  assume "e \<in> {(Node c (i - 1), Node c i) | i. 0 < i \<and> i < k}"
  then obtain i where i: "e = (Node c (i - 1), Node c i)" "0 < i" "i < k" by blast
  have "0 < unat i" "unat i < unat k" using i(2,3) by (simp_all add: word_less_nat_alt)
  then obtain j where j: "unat i = Suc j" by (cases "unat i") auto
  have "i = of_nat (unat i)" by simp
  then have "i = of_nat (Suc j)" unfolding j .
  moreover from this have "i - 1 = of_nat j" by simp
  ultimately have "e = (Node c (of_nat j), Node c (of_nat (Suc j)))" using i(1) by simp
  then show "e \<in> chain_edges c (unat k)" using j \<open>unat i < unat k\<close> by (auto simp: chain_edges_def)
qed

lemma chain_node_word: "i < k \<Longrightarrow> Node c i \<in> chain_nodes c (unat k)"
  unfolding chain_nodes_def by (rule image_eqI [of _ _ "unat i"]) (simp_all add: word_less_nat_alt)

lemma buildGraph_cases:
  assumes "gm_inv hz" and "opens_maps OpenBlock" and "hazards_open ds OpenBlock hz"
  shows "if messages_fine ds OpenBlock ts hz
     then \<exists>g N. buildGraph ds OpenBlock ts hz = Inr g \<and> graph_ok N g \<and> edge_rel g = executing_deps ds OpenBlock ts hz
     else buildGraph ds OpenBlock ts hz = Inl ErrExecMsgUnknownChain \<or> buildGraph ds OpenBlock ts hz = Inl (CycleOther ErrConflict)"
proof -
  have d: "distinct (map fst hz)" using assms(1) by (simp add: gm_inv_def)
  obtain lc em where g: "gatherLogs ds OpenBlock ts hz = Inr (lc, em)"
    using gather_ok [OF d assms(2), of ds ts "[]" "[]"] assms(3) by (auto simp: gatherLogs_def)
  have inv0: "exec_inv []" by (simp add: exec_inv_def gomap_simps)
  have G: "gm_inv lc" "exec_inv em" "\<And>c k. gm_get lc c = Some k \<longleftrightarrow> (\<exists>b ref msgs. hazard_block ds OpenBlock hz c b ref k msgs)"
    "\<And>c i m. has_message em c i m \<longleftrightarrow> hazard_message ds OpenBlock ts hz c i m"
    using gather_spec [OF g [unfolded gatherLogs_def] d assms(2) _ gm.inv_empty inv0] by (auto simp: gomap_simps has_message_def)
  have idx: "\<exists>k. gm_get lc c = Some k \<and> i < k" if msg: "has_message em c i m" for c i m
  proof -
    obtain b ref k msgs where h: "hazard_block ds OpenBlock hz c b ref k msgs" "gm_get msgs i = Some m"
      using msg G(4) by (auto simp: hazard_message_def)
    then have "gm_get hz c = Some b" by (auto simp: hazard_block_def)
    with assms(3) obtain ref' k' msgs' where h': "hazard_block ds OpenBlock hz c b ref' k' msgs'"
      "\<forall>i m. gm_get msgs' i = Some m \<longrightarrow> i < k'" unfolding hazards_open_def by blast
    from h(1) h'(1) have "k' = k" "msgs' = msgs" by (auto simp: hazard_block_def)
    with h(2) h'(2) have "i < k" by blast
    with h(1) G(3) show ?thesis by blast
  qed
  let ?g = "fold add_logs lc empty_graph" and ?N = "log_nodes lc" and ?xs = "message_list em"
  have L: "graph_ok ?N ?g" "edge_rel ?g = log_edges lc" "\<forall>n. indeg ?g n \<le> 1"
    using add_all_logs [OF empty_graph_ok(1), of lc] G(1) empty_graph_ok by (auto simp: gm_inv_def)
  have node: "Node c i \<in> ?N" if "has_message em c i m" for c i m
    using idx [OF that] chain_node_word by (fastforce simp: log_nodes_def dest: gm_get_mem)
  have "distinct (map (snd \<circ> message_edge) ?xs)"
    unfolding message_list_def using G(2) gm_get_eq_mem [of em] by (intro distinct_keys) (auto simp: exec_inv_def gm_inv_def)
  then have cnt: "\<forall>n. indeg ?g n + count_list (map (snd \<circ> message_edge) ?xs) n \<le> 2"
    using L(3) count_distinct by (metis add_mono one_add_one)
  have mem: "x \<in> set ?xs \<longleftrightarrow> has_message em (fst x) (fst (snd x)) (snd (snd x))" for x
    using message_list_has [OF G(2)] by (cases x) auto
  have A: "if \<forall>x \<in> set ?xs. message_fine hz em x
     then \<exists>g'. add_messages hz lc em ?xs ?g = Inr g' \<and> graph_ok ?N g' \<and> edge_rel g' = edge_rel ?g \<union> message_edges em ?xs
     else add_messages hz lc em ?xs ?g = Inl ErrExecMsgUnknownChain \<or> add_messages hz lc em ?xs ?g = Inl (CycleOther ErrConflict)"
  proof (rule add_messages_ok [OF L(1) _ _ cnt])
    show "\<forall>x \<in> set ?xs. snd (message_edge x) \<in> ?N" using mem node by (auto simp: message_edge_def)
    show "\<forall>x \<in> set ?xs. relevant em (snd (snd x)) \<longrightarrow> fst (message_edge x) \<in> ?N
           \<and> (\<exists>k. gm_get lc (em_Chain (snd (snd x))) = Some k \<and> em_LogIdx (snd (snd x)) < k)"
      using node idx by (auto simp: message_edge_def relevant_def)
  qed
  have mf: "has_message em c i m \<Longrightarrow> message_fine hz em (c, i, m) \<longleftrightarrow> gm_get hz (em_Chain m) \<noteq> None \<and> (em_Chain m, em_LogIdx m) \<noteq> (c, i)"
    for c i m by (auto simp: message_fine_def relevant_def)
  have "(\<forall>x \<in> set ?xs. message_fine hz em x) \<longleftrightarrow> (\<forall>c i m. has_message em c i m \<longrightarrow> message_fine hz em (c, i, m))"
    unfolding Ball_def mem by simp
  then have fine: "(\<forall>x \<in> set ?xs. message_fine hz em x) \<longleftrightarrow> messages_fine ds OpenBlock ts hz"
    unfolding messages_fine_def G(4) [symmetric] using mf by simp
  have "log_edges lc = {e. \<exists>c k. (c, k) \<in> set lc \<and> e \<in> chain_edges c (unat k)}" by (auto simp: log_edges_def)
  then have "log_edges lc = {(Node c (i - 1), Node c i) | c i b ref k msgs. hazard_block ds OpenBlock hz c b ref k msgs \<and> 0 < i \<and> i < k}"
    unfolding gm_get_eq_mem [OF G(1), symmetric] G(3) chain_edges_word by blast
  moreover have "message_edges em ?xs = {e. \<exists>c i m. (c, i, m) \<in> set ?xs \<and> relevant em m \<and> e = message_edge (c, i, m)}"
    unfolding message_edges_def by force
  then have "message_edges em ?xs = {(Node (em_Chain m) (em_LogIdx m), Node c i) | c i m m'. hazard_message ds OpenBlock ts hz c i m
          \<and> hazard_message ds OpenBlock ts hz (em_Chain m) (em_LogIdx m) m'}"
    unfolding message_list_has [OF G(2)] relevant_def G(4) message_edge_def prod.case by blast
  ultimately have E: "edge_rel ?g \<union> message_edges em ?xs = executing_deps ds OpenBlock ts hz" unfolding L(2) executing_deps_def by simp
  have B: "buildGraph ds OpenBlock ts hz = add_messages hz lc em ?xs ?g" by (simp add: buildGraph_def g)
  show ?thesis
  proof (cases "messages_fine ds OpenBlock ts hz")
    case True
    with A show ?thesis unfolding fine B E by (simp only: if_True) blast
  next
    case False
    with A show ?thesis unfolding fine B E by (simp only: if_False)
  qed
qed

lemma HazardCycleChecks_None:
  assumes "gm_inv hz" and "opens_maps OpenBlock" and "HazardCycleChecks ds OpenBlock ts hz = None"
  shows "hazards_open ds OpenBlock hz \<and> messages_fine ds OpenBlock ts hz \<and> acyclic (executing_deps ds OpenBlock ts hz)"
proof -
  obtain g where g: "buildGraph ds OpenBlock ts hz = Inr g" "checkGraph g = None"
    using assms(3) by (auto simp: HazardCycleChecks_def split: sum.splits)
  then obtain r where "gather_loop ds OpenBlock ts hz ([], []) = Inr r"
    by (cases "gather_loop ds OpenBlock ts hz ([], [])") (auto simp: buildGraph_def gatherLogs_def)
  moreover have "distinct (map fst hz)" using assms(1) by (simp add: gm_inv_def)
  ultimately have opn: "hazards_open ds OpenBlock hz" using gather_ok [OF _ assms(2)] by blast
  note B = buildGraph_cases [OF assms(1,2) opn, of ts]
  then have fine: "messages_fine ds OpenBlock ts hz" using g(1) by (auto split: if_splits)
  then obtain N where "graph_ok N g" "edge_rel g = executing_deps ds OpenBlock ts hz" using B g(1) by auto
  with kahn_ok [OF checkGraph_kahn] g(2) have "acyclic (executing_deps ds OpenBlock ts hz)" by (metis option.distinct(1))
  with opn fine show ?thesis by blast
qed

lemma executing_documented: "executing_deps ds OpenBlock ts hz \<subseteq> documented_deps ds OpenBlock ts hz"
  unfolding executing_deps_def documented_deps_def by blast

lemma gather_error: "gather_loop ds OpenBlock ts hz acc \<noteq> Inl ErrCycle"
proof (induction hz arbitrary: acc)
  case (Cons x hz)
  show ?case by (cases x; cases acc) (auto simp: Cons.IH split: sum.splits)
qed simp

text \<open>C2: for the graph the code builds, the cycle check is Kahn's sort done right. The graph is built exactly when
  every hazard block opens as itself and every message refers to a chain of the hazard set and not to itself. Its edges are
  the documented dependencies except those on an initiating log that executes no message of the timestamp itself. The
  check passes exactly when these edges are acyclic and answers ErrCycle otherwise, whatever order Go visits the nodes
  without dependencies in. So ErrCycle is no false alarm: the documented dependencies then have a cycle. The converse does
  not hold, as the lemma on the missed cycle below shows.\<close>

theorem HazardCycleChecks_iff:
  assumes "gm_inv hz" and "opens_maps OpenBlock"
  shows "(HazardCycleChecks ds OpenBlock ts hz = None \<longleftrightarrow>
       hazards_open ds OpenBlock hz \<and> messages_fine ds OpenBlock ts hz \<and> acyclic (executing_deps ds OpenBlock ts hz))
     \<and> (hazards_open ds OpenBlock hz \<and> messages_fine ds OpenBlock ts hz \<longrightarrow>
       (\<exists>g. buildGraph ds OpenBlock ts hz = Inr g \<and> edge_rel g = executing_deps ds OpenBlock ts hz
          \<and> (\<forall>r. kahn g r \<longleftrightarrow> r = (if acyclic (edge_rel g) then None else Some ErrCycle))
          \<and> kahn g (HazardCycleChecks ds OpenBlock ts hz)))
     \<and> executing_deps ds OpenBlock ts hz \<subseteq> documented_deps ds OpenBlock ts hz
     \<and> (HazardCycleChecks ds OpenBlock ts hz = Some ErrCycle \<longrightarrow> \<not> acyclic (documented_deps ds OpenBlock ts hz))"
proof (cases "hazards_open ds OpenBlock hz")
  case False
  have "distinct (map fst hz)" using assms(1) by (simp add: gm_inv_def)
  from gather_ok [OF this assms(2), of ds ts "[]" "[]"] False
  obtain e where e: "gatherLogs ds OpenBlock ts hz = Inl e" by (cases "gatherLogs ds OpenBlock ts hz") (auto simp: gatherLogs_def)
  then have "e \<noteq> ErrCycle" using gather_error [of ds OpenBlock ts hz "([], [])"] by (auto simp: gatherLogs_def)
  with False e executing_documented show ?thesis by (simp add: HazardCycleChecks_def buildGraph_def)
next
  case True
  let ?R = "executing_deps ds OpenBlock ts hz"
  note B = buildGraph_cases [OF assms True, of ts]
  show ?thesis
  proof (cases "messages_fine ds OpenBlock ts hz")
    case fine: True
    then obtain g N where g: "buildGraph ds OpenBlock ts hz = Inr g" "graph_ok N g" "edge_rel g = ?R"
      using B by auto
    have k: "r = (if acyclic ?R then None else Some ErrCycle)" if "kahn g r" for r
      using kahn_ok [OF that g(2)] g(3) by simp
    have h: "HazardCycleChecks ds OpenBlock ts hz = checkGraph g" using g(1) by (simp add: HazardCycleChecks_def)
    also have c: "\<dots> = (if acyclic ?R then None else Some ErrCycle)" by (rule k [OF checkGraph_kahn])
    finally have H: "HazardCycleChecks ds OpenBlock ts hz = (if acyclic ?R then None else Some ErrCycle)" .
    have "kahn g r \<longleftrightarrow> r = (if acyclic (edge_rel g) then None else Some ErrCycle)" for r
      unfolding g(3) using k checkGraph_kahn [of g] c by metis
    moreover have "kahn g (HazardCycleChecks ds OpenBlock ts hz)" unfolding h by (rule checkGraph_kahn)
    moreover have "\<not> acyclic (documented_deps ds OpenBlock ts hz)" if "\<not> acyclic ?R"
      using that acyclic_subset [OF _ executing_documented] by (rule contrapos_nn)
    ultimately show ?thesis using g(1,3) True fine H executing_documented [of ds OpenBlock ts hz]
      by (cases "acyclic ?R") simp_all
  next
    case False
    with B executing_documented show ?thesis by (auto simp: HazardCycleChecks_def)
  qed
qed

text \<open>Two chains with a block of one log each; the logs execute each other.\<close>

definition mutual_blocks :: "hash \<Rightarrow> u64 \<Rightarrow> super_error + opened" where
  "mutual_blocks c n = Inr (\<lparr>l1_hash = c, l1_number = n, l1_parent = 0, l1_time = 100\<rparr>, 1,
     [(0, \<lparr>em_Chain = (if c = 900 then 2 else 1), em_BlockNum = 7, em_LogIdx = 0, em_Timestamp = 100, em_Hash = 0\<rparr>)])"

definition two_hazards :: hazard_entries where
  "two_hazards = [(1, \<lparr>seal_Hash = 900, seal_Number = 7, seal_Timestamp = 100\<rparr>),
                  (2, \<lparr>seal_Hash = 901, seal_Number = 7, seal_Timestamp = 100\<rparr>)]"

theorem HazardCycleChecks_iff_witness:
  "HazardCycleChecks sample_depset mutual_blocks 100 two_hazards = Some ErrCycle
   \<and> \<not> acyclic (documented_deps sample_depset mutual_blocks 100 two_hazards)"
proof -
  have "gm_inv two_hazards" "opens_maps mutual_blocks"
    by (auto simp: gm_inv_def two_hazards_def opens_maps_def mutual_blocks_def)
  moreover have "HazardCycleChecks sample_depset mutual_blocks 100 two_hazards = Some ErrCycle" by code_simp
  ultimately show ?thesis using HazardCycleChecks_iff [of two_hazards mutual_blocks sample_depset 100] by blast
qed

text \<open>Two chains with a block of two logs each. The first log of each block executes the second log of the other: the
  documented dependencies close a cycle, which the check does not see, since the initiating logs execute nothing.\<close>

definition crossed_blocks :: "hash \<Rightarrow> u64 \<Rightarrow> super_error + opened" where
  "crossed_blocks c n = Inr (\<lparr>l1_hash = c, l1_number = n, l1_parent = 0, l1_time = 100\<rparr>, 2,
     [(0, \<lparr>em_Chain = (if c = 900 then 2 else 1), em_BlockNum = 7, em_LogIdx = 1, em_Timestamp = 100, em_Hash = 0\<rparr>)])"

lemma crossed_passes: "HazardCycleChecks sample_depset crossed_blocks 100 two_hazards = None"
  by code_simp

lemma missed_cycle:
  "HazardCycleChecks sample_depset crossed_blocks 100 two_hazards = None
   \<and> \<not> acyclic (documented_deps sample_depset crossed_blocks 100 two_hazards)"
proof -
  let ?R = "documented_deps sample_depset crossed_blocks 100 two_hazards"
  have b: "hazard_block sample_depset crossed_blocks two_hazards c (if c = 1 then snd (two_hazards ! 0) else snd (two_hazards ! 1))
      \<lparr>l1_hash = (if c = 1 then 900 else 901), l1_number = 7, l1_parent = 0, l1_time = 100\<rparr> 2
      [(0, \<lparr>em_Chain = (if c = 1 then 2 else 1), em_BlockNum = 7, em_LogIdx = 1, em_Timestamp = 100, em_Hash = 0\<rparr>)]"
    if "c = 1 \<or> c = 2" for c
    using that by (auto simp: hazard_block_def two_hazards_def crossed_blocks_def sample_depset_def ChainIDFromIndex_def gm_get_def)
  have s: "(Node c 0, Node c 1) \<in> ?R" if "c = 1 \<or> c = 2" for c
    unfolding documented_deps_def using b [OF that] by fastforce
  have m: "hazard_message sample_depset crossed_blocks 100 two_hazards c 0
      \<lparr>em_Chain = (if c = 1 then 2 else 1), em_BlockNum = 7, em_LogIdx = 1, em_Timestamp = 100, em_Hash = 0\<rparr>"
    if "c = 1 \<or> c = 2" for c
    unfolding hazard_message_def using b [OF that] by (fastforce simp: gm_get_def)
  have e: "(Node (if c = 1 then 2 else 1) 1, Node c 0) \<in> ?R" if "c = 1 \<or> c = 2" for c
    unfolding documented_deps_def using m [OF that] by fastforce
  have "(Node 1 0, Node 1 1) \<in> ?R" "(Node 1 1, Node 2 0) \<in> ?R" "(Node 2 0, Node 2 1) \<in> ?R" "(Node 2 1, Node 1 0) \<in> ?R"
    using s [of 1] s [of 2] e [of 1] e [of 2] by simp_all
  then have "(Node 1 0, Node 1 0) \<in> ?R\<^sup>+" by (meson r_into_trancl trancl_trans)
  with crossed_passes show ?thesis by (auto simp: acyclic_def)
qed

end
