(* ===== verification/Cross_Update.thy ===== *)
theory Cross_Update
  imports Cycle_Check
begin

text \<open>
  Promoting blocks to cross-unsafe and cross-safe (\<^verbatim>\<open>rhs-supervisor/supervisor/backend/cross\<close>:
  \<^verbatim>\<open>unsafe_start.go\<close>, \<^verbatim>\<open>unsafe_frontier.go\<close>, \<^verbatim>\<open>unsafe_update.go\<close>, \<^verbatim>\<open>safe_start.go\<close>, \<^verbatim>\<open>safe_frontier.go\<close>,
  \<^verbatim>\<open>safe_update.go\<close>). The databases are a state \<open>'s\<close> behind a record of functions; the queries read it, the updates
  return the new state next to their error.
\<close>

record derived_ref_pair =
  dr_Source :: block_ref
  dr_Derived :: block_ref

record derived_seal_pair =
  dp_Source :: block_seal
  dp_Derived :: block_seal

definition WithParent :: "block_seal \<Rightarrow> block_id \<Rightarrow> super_error + block_ref" where
  "WithParent s parent =
     (if seal_Number s \<noteq> bid_number parent + 1 \<and> seal_Number s \<noteq> 0 then Inl (S_New ''invalid parent block'')
      else Inr \<lparr>l1_hash = seal_Hash s, l1_number = seal_Number s, l1_parent = bid_hash parent, l1_time = seal_Timestamp s\<rparr>)"

text \<open>\<open>None\<close> is the panic.\<close>

definition MustWithParent :: "block_seal \<Rightarrow> block_id \<Rightarrow> block_ref option" where
  "MustWithParent s parent = (case WithParent s parent of Inl err \<Rightarrow> None | Inr ref \<Rightarrow> Some ref)"

text \<open>The sentinel the error of the cycle check wraps; the errors of the package itself are none of them.\<close>

fun cycle_super :: "cycle_error \<Rightarrow> super_error" where
  "cycle_super ErrCycle = S_New ''cycle detected''"
| "cycle_super ErrExecMsgHasInvalidIndex = S_New ''executing message has invalid log index''"
| "cycle_super ErrExecMsgUnknownChain = S_New ''executing message references unknown chain''"
| "cycle_super (CycleOther err) = err"

section \<open>Cross-unsafe\<close>

record 's cross_unsafe_deps =
  cu_CrossUnsafe :: "'s \<Rightarrow> hash \<Rightarrow> super_error + block_seal"
  cu_Contains :: "'s \<Rightarrow> hash \<Rightarrow> contains_query \<Rightarrow> super_error + block_seal"
  cu_IsCrossUnsafe :: "'s \<Rightarrow> hash \<Rightarrow> block_id \<Rightarrow> super_error option"
  cu_IsLocalUnsafe :: "'s \<Rightarrow> hash \<Rightarrow> block_id \<Rightarrow> super_error option"
  cu_FindBlockID :: "'s \<Rightarrow> hash \<Rightarrow> u64 \<Rightarrow> super_error + block_id"
  cu_DependencySet :: dependency_set
  cu_OpenBlock :: "'s \<Rightarrow> hash \<Rightarrow> u64 \<Rightarrow> super_error + opened"
  cu_UpdateCrossUnsafe :: "hash \<Rightarrow> block_seal \<Rightarrow> 's \<Rightarrow> super_error option \<times> 's"

text \<open>\<open>UnsafeHazardDeps\<close>: the interface of the hazard set, with cross-unsafe as validity.\<close>

definition unsafe_hazard_deps :: "'s cross_unsafe_deps \<Rightarrow> 's \<Rightarrow> hazard_deps" where
  "unsafe_hazard_deps d s =
     \<lparr>hd_Contains = cu_Contains d s, hd_DependencySet = cu_DependencySet d,
      hd_IsCrossValidBlock = cu_IsCrossUnsafe d s, hd_OpenBlock = cu_OpenBlock d s\<rparr>"

definition CrossUnsafeHazards ::
  "(bytes \<Rightarrow> hash) \<Rightarrow> 's cross_unsafe_deps \<Rightarrow> 's \<Rightarrow> hash \<Rightarrow> block_seal \<Rightarrow> super_error + hazard_entries" where
  "CrossUnsafeHazards keccak d s chainID candidate = NewHazardSet keccak (unsafe_hazard_deps d s) chainID candidate"

text \<open>The body of the loop of \<open>HazardUnsafeFrontierChecks\<close>.\<close>

definition unsafe_frontier_check :: "'s cross_unsafe_deps \<Rightarrow> 's \<Rightarrow> u32 \<times> block_seal \<Rightarrow> super_error option" where
  "unsafe_frontier_check d s x =
     (case x of (hazardChainIndex, hazardBlock) \<Rightarrow>
        case ChainIDFromIndex (cu_DependencySet d) hazardChainIndex of
          Inl err \<Rightarrow> Some (if err = ErrUnknownChain then ErrConflict else err)
        | Inr hazardChainID \<Rightarrow>
            (case cu_IsCrossUnsafe d s hazardChainID (Seal_ID hazardBlock) of
               None \<Rightarrow> None
             | Some err \<Rightarrow>
                 if err = ErrFuture
                 then case cu_IsLocalUnsafe d s hazardChainID (Seal_ID hazardBlock) of
                        Some err \<Rightarrow> Some err
                      | None \<Rightarrow>
                          if seal_Number hazardBlock > 0
                          then case cu_FindBlockID d s hazardChainID (seal_Number hazardBlock - 1) of
                                 Inl err \<Rightarrow> Some err
                               | Inr parent \<Rightarrow> cu_IsCrossUnsafe d s hazardChainID parent
                          else None
                 else Some err))"

fun first_error :: "('a \<Rightarrow> super_error option) \<Rightarrow> 'a list \<Rightarrow> super_error option" where
  "first_error f [] = None"
| "first_error f (x # xs) = (case f x of Some err \<Rightarrow> Some err | None \<Rightarrow> first_error f xs)"

definition HazardUnsafeFrontierChecks :: "'s cross_unsafe_deps \<Rightarrow> 's \<Rightarrow> hazard_entries \<Rightarrow> super_error option" where
  "HazardUnsafeFrontierChecks d s hazards = first_error (unsafe_frontier_check d s) hazards"

text \<open>\<open>CrossUnsafeUpdate\<close> once the candidate is known.\<close>

definition promote_unsafe ::
  "(bytes \<Rightarrow> hash) \<Rightarrow> 's cross_unsafe_deps \<Rightarrow> hash \<Rightarrow> block_seal \<Rightarrow> 's \<Rightarrow> super_error option \<times> 's" where
  "promote_unsafe keccak d chainID candidate s =
     (case CrossUnsafeHazards keccak d s chainID candidate of
        Inl err \<Rightarrow> (Some err, s)
      | Inr hazards \<Rightarrow>
          (case HazardUnsafeFrontierChecks d s hazards of
             Some err \<Rightarrow> (Some err, s)
           | None \<Rightarrow>
               (case HazardCycleChecks (cu_DependencySet d) (cu_OpenBlock d s) (seal_Timestamp candidate) hazards of
                  Some err \<Rightarrow> (Some (cycle_super err), s)
                | None \<Rightarrow> cu_UpdateCrossUnsafe d chainID candidate s)))"

definition CrossUnsafeUpdate ::
  "(bytes \<Rightarrow> hash) \<Rightarrow> 's cross_unsafe_deps \<Rightarrow> hash \<Rightarrow> 's \<Rightarrow> super_error option \<times> 's" where
  "CrossUnsafeUpdate keccak d chainID s =
     (case cu_CrossUnsafe d s chainID of
        Inl err \<Rightarrow> (if err = ErrFuture then None else Some err, s)
      | Inr crossUnsafe \<Rightarrow>
          (case cu_OpenBlock d s chainID (seal_Number crossUnsafe + 1) of
             Inl err \<Rightarrow> (Some err, s)
           | Inr (bl, _, _) \<Rightarrow>
               if l1_parent bl \<noteq> seal_Hash crossUnsafe then (Some ErrConflict, s)
               else promote_unsafe keccak d chainID (BlockSealFromRef bl) s))"

section \<open>Cross-safe\<close>

record 's cross_safe_deps =
  cs_CrossSafe :: "'s \<Rightarrow> hash \<Rightarrow> super_error + derived_seal_pair"
  cs_CandidateCrossSafe :: "'s \<Rightarrow> hash \<Rightarrow> derived_ref_pair \<times> super_error option"
  cs_CrossDerivedToSource :: "'s \<Rightarrow> hash \<Rightarrow> block_id \<Rightarrow> super_error + block_seal"
  cs_Contains :: "'s \<Rightarrow> hash \<Rightarrow> contains_query \<Rightarrow> super_error + block_seal"
  cs_DependencySet :: dependency_set
  cs_OpenBlock :: "'s \<Rightarrow> hash \<Rightarrow> u64 \<Rightarrow> super_error + opened"
  cs_NextSource :: "'s \<Rightarrow> hash \<Rightarrow> block_id \<Rightarrow> super_error + block_ref"
  cs_PreviousCrossDerived :: "'s \<Rightarrow> hash \<Rightarrow> block_id \<Rightarrow> super_error + block_seal"
  cs_UpdateCrossSafe :: "hash \<Rightarrow> block_ref \<Rightarrow> block_ref \<Rightarrow> 's \<Rightarrow> super_error option \<times> 's"
  cs_InvalidateLocalSafe :: "hash \<Rightarrow> derived_ref_pair \<Rightarrow> 's \<Rightarrow> super_error option \<times> 's"

text \<open>\<open>SafeHazardDeps.IsCrossValidBlock\<close>.\<close>

definition safe_IsCrossValidBlock :: "'s cross_safe_deps \<Rightarrow> 's \<Rightarrow> block_id \<Rightarrow> hash \<Rightarrow> block_id \<Rightarrow> super_error option" where
  "safe_IsCrossValidBlock d s inL1Source chainID derived =
     (case cs_CrossDerivedToSource d s chainID derived of
        Inl err \<Rightarrow> Some err
      | Inr initSource \<Rightarrow> if seal_Number initSource > bid_number inL1Source then Some ErrOutOfScope else None)"

definition safe_hazard_deps :: "'s cross_safe_deps \<Rightarrow> 's \<Rightarrow> block_id \<Rightarrow> hazard_deps" where
  "safe_hazard_deps d s inL1Source =
     \<lparr>hd_Contains = cs_Contains d s, hd_DependencySet = cs_DependencySet d,
      hd_IsCrossValidBlock = safe_IsCrossValidBlock d s inL1Source, hd_OpenBlock = cs_OpenBlock d s\<rparr>"

definition CrossSafeHazards ::
  "(bytes \<Rightarrow> hash) \<Rightarrow> 's cross_safe_deps \<Rightarrow> 's \<Rightarrow> hash \<Rightarrow> block_id \<Rightarrow> block_seal \<Rightarrow> super_error + hazard_entries" where
  "CrossSafeHazards keccak d s chainID inL1Source candidate =
     NewHazardSet keccak (safe_hazard_deps d s inL1Source) chainID candidate"

definition safe_frontier_check :: "'s cross_safe_deps \<Rightarrow> 's \<Rightarrow> block_id \<Rightarrow> u32 \<times> block_seal \<Rightarrow> super_error option" where
  "safe_frontier_check d s inL1Source x =
     (case x of (hazardChainIndex, hazardBlock) \<Rightarrow>
        case ChainIDFromIndex (cs_DependencySet d) hazardChainIndex of
          Inl err \<Rightarrow> Some (if err = ErrUnknownChain then ErrConflict else err)
        | Inr hazardChainID \<Rightarrow>
            (case cs_CrossDerivedToSource d s hazardChainID (Seal_ID hazardBlock) of
               Inl err \<Rightarrow>
                 if err = ErrFuture
                 then case cs_CandidateCrossSafe d s hazardChainID of
                        (_, Some err) \<Rightarrow> Some err
                      | (candidate, None) \<Rightarrow>
                          if l1_number (dr_Derived candidate) = seal_Number hazardBlock
                             \<and> L1_ID (dr_Derived candidate) \<noteq> Seal_ID hazardBlock
                          then Some ErrConflict
                          else if l1_number (dr_Source candidate) > bid_number inL1Source then Some ErrOutOfScope
                          else None
                 else Some err
             | Inr initSource \<Rightarrow> if seal_Number initSource > bid_number inL1Source then Some ErrOutOfScope else None))"

definition HazardSafeFrontierChecks :: "'s cross_safe_deps \<Rightarrow> 's \<Rightarrow> block_id \<Rightarrow> hazard_entries \<Rightarrow> super_error option" where
  "HazardSafeFrontierChecks d s inL1Source hazards = first_error (safe_frontier_check d s inL1Source) hazards"

text \<open>The candidate is returned next to the error: with \<open>ErrOutOfScope\<close> it carries the scope to expand.\<close>

definition scopedCrossSafeUpdate ::
  "(bytes \<Rightarrow> hash) \<Rightarrow> 's cross_safe_deps \<Rightarrow> hash \<Rightarrow> 's \<Rightarrow> derived_ref_pair \<times> super_error option \<times> 's" where
  "scopedCrossSafeUpdate keccak d chainID s =
     (case cs_CandidateCrossSafe d s chainID of
        (candidate, Some err) \<Rightarrow> (candidate, Some err, s)
      | (candidate, None) \<Rightarrow>
          (case CrossSafeHazards keccak d s chainID (L1_ID (dr_Source candidate)) (BlockSealFromRef (dr_Derived candidate)) of
             Inl err \<Rightarrow> (candidate, Some err, s)
           | Inr hazards \<Rightarrow>
               (case HazardSafeFrontierChecks d s (L1_ID (dr_Source candidate)) hazards of
                  Some err \<Rightarrow> (candidate, Some err, s)
                | None \<Rightarrow>
                    (case HazardCycleChecks (cs_DependencySet d) (cs_OpenBlock d s) (l1_time (dr_Derived candidate)) hazards of
                       Some err \<Rightarrow> (candidate, Some (cycle_super err), s)
                     | None \<Rightarrow> (candidate, cs_UpdateCrossSafe d chainID (dr_Source candidate) (dr_Derived candidate) s)))))"

text \<open>The outer option is the panic of \<open>MustWithParent\<close>.\<close>

definition bump_scope :: "'s cross_safe_deps \<Rightarrow> hash \<Rightarrow> derived_ref_pair \<Rightarrow> 's \<Rightarrow> (super_error option \<times> 's) option" where
  "bump_scope d chainID candidate s =
     (case cs_NextSource d s chainID (L1_ID (dr_Source candidate)) of
        Inl err \<Rightarrow> Some (Some err, s)
      | Inr newScope \<Rightarrow>
          (case cs_CrossSafe d s chainID of
             Inl err \<Rightarrow> Some (Some err, s)
           | Inr currentCrossSafe \<Rightarrow>
               (case cs_PreviousCrossDerived d s chainID (Seal_ID (dp_Derived currentCrossSafe)) of
                  Inl err \<Rightarrow> Some (Some err, s)
                | Inr parent \<Rightarrow>
                    (case MustWithParent (dp_Derived currentCrossSafe) (Seal_ID parent) of
                       None \<Rightarrow> None
                     | Some crossSafeRef \<Rightarrow> Some (cs_UpdateCrossSafe d chainID newScope crossSafeRef s)))))"

definition CrossSafeUpdate ::
  "(bytes \<Rightarrow> hash) \<Rightarrow> 's cross_safe_deps \<Rightarrow> hash \<Rightarrow> 's \<Rightarrow> (super_error option \<times> 's) option" where
  "CrossSafeUpdate keccak d chainID s =
     (case scopedCrossSafeUpdate keccak d chainID s of
        (candidate, None, s) \<Rightarrow> Some (None, s)
      | (candidate, Some err, s) \<Rightarrow>
          if err = ErrAwaitReplacementBlock then Some (Some err, s)
          else if err = ErrConflict then Some (cs_InvalidateLocalSafe d chainID candidate s)
          else if err \<noteq> ErrOutOfScope then Some (Some err, s)
          else if dr_Source candidate = zero_l1 then Some (Some err, s)
          else bump_scope d chainID candidate s)"

section \<open>What is promoted\<close>

text \<open>A candidate with its hazard set passed all checks on the messages: the set is closed under dependencies, every
  message refers into it, and the dependencies the cycle check has edges for, \<open>executing_deps\<close>, are acyclic.\<close>

definition vetted :: "(bytes \<Rightarrow> hash) \<Rightarrow> hazard_deps \<Rightarrow> hash \<Rightarrow> block_seal \<Rightarrow> hazard_entries \<Rightarrow> bool" where
  "vetted keccak deps chainID candidate hz \<longleftrightarrow>
     block_checked keccak deps hz chainID candidate
     \<and> (\<forall>i b. gm_get hz i = Some b \<longrightarrow>
          (\<exists>c. ChainIDFromIndex (hd_DependencySet deps) i = Inr c \<and> block_checked keccak deps hz c b))
     \<and> messages_fine (hd_DependencySet deps) (hd_OpenBlock deps) (seal_Timestamp candidate) hz
     \<and> acyclic (executing_deps (hd_DependencySet deps) (hd_OpenBlock deps) (seal_Timestamp candidate) hz)"

lemma first_error_None: "first_error f xs = None \<longleftrightarrow> (\<forall>x \<in> set xs. f x = None)"
  by (induction xs) (auto split: option.splits)

lemma check_message_inv:
  "check_message keccak deps c msg s = Inr s' \<Longrightarrow> gm_inv (fst s) \<Longrightarrow> gm_inv (fst s')"
  by (auto simp: check_message_def gm.inv_put split: prod.splits sum.splits option.splits if_splits)

lemma check_messages_inv:
  "check_messages keccak deps c msgs s = Inr s' \<Longrightarrow> gm_inv (fst s) \<Longrightarrow> gm_inv (fst s')"
  by (induction keccak deps c msgs s rule: check_messages.induct) (auto split: sum.splits dest: check_message_inv)

lemma build_loop_inv: "build_loop keccak deps s = Inr hz \<Longrightarrow> gm_inv (fst s) \<Longrightarrow> gm_inv hz"
proof (induction keccak deps s rule: build_loop.induct)
  case (2 keccak deps entries nxt stack)
  then obtain ref n msgs s1 where o: "hd_OpenBlock deps (ph_chainID nxt) (seal_Number (ph_block nxt)) = Inr (ref, n, msgs)"
    "L1_ID ref = Seal_ID (ph_block nxt)"
    "checkChainCanExecute (hd_DependencySet deps) (ph_chainID nxt) (ph_block nxt) msgs = None"
    "check_messages keccak deps (ph_block nxt) (map snd msgs) (entries, stack) = Inr s1" "build_loop keccak deps s1 = Inr hz"
    by (auto split: sum.splits if_splits option.splits)
  with "2.IH" [OF o(1) refl refl] check_messages_inv [OF o(4)] "2.prems"(2) show ?case by auto
qed simp

lemma checks_vetted:
  assumes "NewHazardSet keccak deps chainID candidate = Inr hz" and "opens_maps (hd_OpenBlock deps)"
    and "HazardCycleChecks (hd_DependencySet deps) (hd_OpenBlock deps) (seal_Timestamp candidate) hz = None"
  shows "vetted keccak deps chainID candidate hz"
proof -
  have "build_loop keccak deps ([], [\<lparr>ph_chainID = chainID, ph_block = candidate\<rparr>]) = Inr hz"
    using assms(1) by (simp add: NewHazardSet_def build_def)
  note B = build_loop_ok [OF this] build_loop_inv [OF this]
  then have inv: "gm_inv hz" by (simp add: gm.inv_empty)
  note C = HazardCycleChecks_None [OF inv assms(2,3)]
  from B C show ?thesis by (simp add: vetted_def entries_covered_def gomap_simps)
qed

text \<open>A hazard block is cross-unsafe, or it is local-unsafe and its parent is cross-unsafe.\<close>

definition unsafe_frontier :: "'s cross_unsafe_deps \<Rightarrow> 's \<Rightarrow> u32 \<Rightarrow> block_seal \<Rightarrow> bool" where
  "unsafe_frontier d s i b \<longleftrightarrow>
     (\<exists>c. ChainIDFromIndex (cu_DependencySet d) i = Inr c
        \<and> (cu_IsCrossUnsafe d s c (Seal_ID b) = None
           \<or> cu_IsLocalUnsafe d s c (Seal_ID b) = None
             \<and> (seal_Number b = 0
                \<or> (\<exists>parent. cu_FindBlockID d s c (seal_Number b - 1) = Inr parent \<and> cu_IsCrossUnsafe d s c parent = None))))"

text \<open>A hazard block was derived in the scope, or the block that is derived next on its chain is in the scope and does not
  contradict it.\<close>

definition safe_frontier :: "'s cross_safe_deps \<Rightarrow> 's \<Rightarrow> block_id \<Rightarrow> u32 \<Rightarrow> block_seal \<Rightarrow> bool" where
  "safe_frontier d s scope i b \<longleftrightarrow>
     (\<exists>c. ChainIDFromIndex (cs_DependencySet d) i = Inr c
        \<and> ((\<exists>src. cs_CrossDerivedToSource d s c (Seal_ID b) = Inr src \<and> seal_Number src \<le> bid_number scope)
           \<or> (\<exists>cand. cs_CandidateCrossSafe d s c = (cand, None) \<and> l1_number (dr_Source cand) \<le> bid_number scope
                \<and> (l1_number (dr_Derived cand) = seal_Number b \<longrightarrow> L1_ID (dr_Derived cand) = Seal_ID b))))"

lemma unsafe_frontier_check_None: "unsafe_frontier_check d s (i, b) = None \<Longrightarrow> unsafe_frontier d s i b"
  by (auto simp: unsafe_frontier_check_def unsafe_frontier_def word_gt_0 split: sum.splits option.splits if_splits)

lemma safe_frontier_check_None: "safe_frontier_check d s scope (i, b) = None \<Longrightarrow> safe_frontier d s scope i b"
  by (auto simp: safe_frontier_check_def safe_frontier_def not_less split: sum.splits option.splits if_splits prod.splits)

text \<open>C6: CrossUnsafeUpdate changes the database only to promote the block after the cross-unsafe head that builds on it,
  after all its messages were checked, its hazard blocks are cross-unsafe or local-unsafe directly after a
  cross-unsafe block, and the dependencies the cycle check has edges for were found acyclic.\<close>

theorem CrossUnsafeUpdate_safe:
  assumes "CrossUnsafeUpdate keccak d chainID s = (err, s')" and "s' \<noteq> s" and "opens_maps (cu_OpenBlock d s)"
  shows "\<exists>head ref n msgs hz. cu_CrossUnsafe d s chainID = Inr head
     \<and> cu_OpenBlock d s chainID (seal_Number head + 1) = Inr (ref, n, msgs) \<and> l1_parent ref = seal_Hash head
     \<and> cu_UpdateCrossUnsafe d chainID (BlockSealFromRef ref) s = (err, s')
     \<and> vetted keccak (unsafe_hazard_deps d s) chainID (BlockSealFromRef ref) hz
     \<and> (\<forall>(i, b) \<in> set hz. unsafe_frontier d s i b)"
proof -
  obtain head ref n msgs where h: "cu_CrossUnsafe d s chainID = Inr head"
    "cu_OpenBlock d s chainID (seal_Number head + 1) = Inr (ref, n, msgs)" "l1_parent ref = seal_Hash head"
    "promote_unsafe keccak d chainID (BlockSealFromRef ref) s = (err, s')"
    using assms(1,2) by (auto simp: CrossUnsafeUpdate_def split: sum.splits if_splits)
  then obtain hz where p: "NewHazardSet keccak (unsafe_hazard_deps d s) chainID (BlockSealFromRef ref) = Inr hz"
    "first_error (unsafe_frontier_check d s) hz = None"
    "HazardCycleChecks (cu_DependencySet d) (cu_OpenBlock d s) (seal_Timestamp (BlockSealFromRef ref)) hz = None"
    "cu_UpdateCrossUnsafe d chainID (BlockSealFromRef ref) s = (err, s')"
    using assms(2) by (auto simp: promote_unsafe_def CrossUnsafeHazards_def HazardUnsafeFrontierChecks_def split: sum.splits option.splits)
  have f: "\<forall>(i, b) \<in> set hz. unsafe_frontier d s i b"
    using p(2) by (auto simp: first_error_None intro: unsafe_frontier_check_None)
  have "vetted keccak (unsafe_hazard_deps d s) chainID (BlockSealFromRef ref) hz"
    by (rule checks_vetted) (use p assms(3) in \<open>simp_all add: unsafe_hazard_deps_def\<close>)
  with h p(4) f show ?thesis by blast
qed

definition sample_unsafe_deps :: "block_seal option cross_unsafe_deps" where
  "sample_unsafe_deps =
     \<lparr>cu_CrossUnsafe = (\<lambda>s c. Inr \<lparr>seal_Hash = 1, seal_Number = 6, seal_Timestamp = 98\<rparr>),
      cu_Contains = (\<lambda>s. hd_Contains sample_deps), cu_IsCrossUnsafe = (\<lambda>s c b. None), cu_IsLocalUnsafe = (\<lambda>s c b. None),
      cu_FindBlockID = (\<lambda>s c n. Inl ErrFuture), cu_DependencySet = sample_depset, cu_OpenBlock = (\<lambda>s. hd_OpenBlock sample_deps),
      cu_UpdateCrossUnsafe = (\<lambda>c b s. (None, Some b))\<rparr>"

lemma sample_opens: "opens_maps (hd_OpenBlock sample_deps)"
  by (auto simp: opens_maps_def sample_deps_def gm_inv_def split: if_splits)

lemma sample_acyclic:
  "HazardCycleChecks sample_depset (hd_OpenBlock sample_deps) 100 [(2, \<lparr>seal_Hash = 5, seal_Number = 7, seal_Timestamp = 100\<rparr>)] = None"
  by code_simp

lemma sample_unsafe_hazards: "unsafe_hazard_deps sample_unsafe_deps None = sample_deps"
  by (simp add: unsafe_hazard_deps_def sample_unsafe_deps_def sample_deps_def)

theorem CrossUnsafeUpdate_safe_witness:
  "CrossUnsafeUpdate (\<lambda>_. 0) sample_unsafe_deps 900 None = (None, Some \<lparr>seal_Hash = 4, seal_Number = 7, seal_Timestamp = 100\<rparr>)
   \<and> (\<exists>b hz. vetted (\<lambda>_. 0) (unsafe_hazard_deps sample_unsafe_deps None) 900 b hz)"
proof -
  have b: "cu_OpenBlock sample_unsafe_deps None 900 7 = hd_OpenBlock sample_deps 900 7" by (simp add: sample_unsafe_deps_def)
  have "promote_unsafe (\<lambda>_. 0) sample_unsafe_deps 900 \<lparr>seal_Hash = 4, seal_Number = 7, seal_Timestamp = 100\<rparr> None
     = (None, Some \<lparr>seal_Hash = 4, seal_Number = 7, seal_Timestamp = 100\<rparr>)"
    using sample_hazards sample_acyclic
    by (simp add: promote_unsafe_def CrossUnsafeHazards_def sample_unsafe_hazards HazardUnsafeFrontierChecks_def unsafe_frontier_check_def)
      (simp add: sample_unsafe_deps_def sample_depset_def ChainIDFromIndex_def gm_get_def)
  then have r: "CrossUnsafeUpdate (\<lambda>_. 0) sample_unsafe_deps 900 None = (None, Some \<lparr>seal_Hash = 4, seal_Number = 7, seal_Timestamp = 100\<rparr>)"
    using b by (simp add: CrossUnsafeUpdate_def) (simp add: sample_unsafe_deps_def sample_deps_def BlockSealFromRef_def)
  have "opens_maps (cu_OpenBlock sample_unsafe_deps None)" using sample_opens by (simp add: sample_unsafe_deps_def)
  with CrossUnsafeUpdate_safe [OF r] r show ?thesis by blast
qed

text \<open>C7: the scoped update changes the database only to promote the candidate, after all its messages were checked
  against the L1 scope and the dependencies the cycle check has edges for were found acyclic. Each hazard block was
  cross-derived from the scope or before; or else the next candidate of its chain comes from the scope or before, and is the
  hazard block if it has its number. The second case does not put a hazard block with another number into the scope.\<close>

theorem scopedCrossSafeUpdate_safe:
  assumes "scopedCrossSafeUpdate keccak d chainID s = (cand, err, s')" and "s' \<noteq> s" and "opens_maps (cs_OpenBlock d s)"
  shows "cs_CandidateCrossSafe d s chainID = (cand, None)
     \<and> cs_UpdateCrossSafe d chainID (dr_Source cand) (dr_Derived cand) s = (err, s')
     \<and> (\<exists>hz. vetted keccak (safe_hazard_deps d s (L1_ID (dr_Source cand))) chainID (BlockSealFromRef (dr_Derived cand)) hz
          \<and> (\<forall>(i, b) \<in> set hz. safe_frontier d s (L1_ID (dr_Source cand)) i b))"
proof -
  let ?scope = "L1_ID (dr_Source cand)" and ?b = "BlockSealFromRef (dr_Derived cand)"
  obtain hz where p: "cs_CandidateCrossSafe d s chainID = (cand, None)"
    "NewHazardSet keccak (safe_hazard_deps d s ?scope) chainID ?b = Inr hz"
    "first_error (safe_frontier_check d s ?scope) hz = None"
    "HazardCycleChecks (cs_DependencySet d) (cs_OpenBlock d s) (l1_time (dr_Derived cand)) hz = None"
    "cs_UpdateCrossSafe d chainID (dr_Source cand) (dr_Derived cand) s = (err, s')"
    using assms(1,2) by (auto simp: scopedCrossSafeUpdate_def CrossSafeHazards_def HazardSafeFrontierChecks_def
        split: sum.splits option.splits prod.splits)
  have f: "\<forall>(i, b) \<in> set hz. safe_frontier d s ?scope i b"
    using p(3) by (auto simp: first_error_None intro: safe_frontier_check_None)
  have "vetted keccak (safe_hazard_deps d s ?scope) chainID ?b hz"
    by (rule checks_vetted) (use p assms(3) in \<open>simp_all add: safe_hazard_deps_def BlockSealFromRef_def\<close>)
  with p(1,5) f show ?thesis by blast
qed

definition sample_safe_deps :: "block_ref option cross_safe_deps" where
  "sample_safe_deps =
     \<lparr>cs_CrossSafe = (\<lambda>s c. Inl ErrFuture),
      cs_CandidateCrossSafe = (\<lambda>s c. (\<lparr>dr_Source = \<lparr>l1_hash = 50, l1_number = 20, l1_parent = 49, l1_time = 99\<rparr>,
         dr_Derived = \<lparr>l1_hash = 4, l1_number = 7, l1_parent = 1, l1_time = 100\<rparr>\<rparr>, None)),
      cs_CrossDerivedToSource = (\<lambda>s c b. Inr \<lparr>seal_Hash = 49, seal_Number = 19, seal_Timestamp = 90\<rparr>),
      cs_Contains = (\<lambda>s. hd_Contains sample_deps), cs_DependencySet = sample_depset, cs_OpenBlock = (\<lambda>s. hd_OpenBlock sample_deps),
      cs_NextSource = (\<lambda>s c b. Inl ErrFuture), cs_PreviousCrossDerived = (\<lambda>s c b. Inl ErrFuture),
      cs_UpdateCrossSafe = (\<lambda>c src b s. (None, Some b)), cs_InvalidateLocalSafe = (\<lambda>c p s. (None, s))\<rparr>"

theorem scopedCrossSafeUpdate_safe_witness:
  "\<exists>cand hz. cs_CandidateCrossSafe sample_safe_deps None 900 = (cand, None) \<and> l1_number (dr_Derived cand) = 7
     \<and> vetted (\<lambda>_. 0) (safe_hazard_deps sample_safe_deps None (L1_ID (dr_Source cand))) 900 (BlockSealFromRef (dr_Derived cand)) hz"
proof -
  define C where c: "C = \<lparr>dr_Source = \<lparr>l1_hash = 50, l1_number = 20, l1_parent = 49, l1_time = 99\<rparr>,
         dr_Derived = \<lparr>l1_hash = 4, l1_number = 7, l1_parent = 1, l1_time = 100\<rparr>\<rparr>"
  have c': "cs_CandidateCrossSafe sample_safe_deps None 900 = (C, None)" by (simp add: sample_safe_deps_def c)
  have h: "safe_hazard_deps sample_safe_deps None (L1_ID (dr_Source C)) = sample_deps"
    by (simp add: c safe_hazard_deps_def safe_IsCrossValidBlock_def [abs_def] fun_eq_iff)
      (simp add: sample_safe_deps_def sample_deps_def L1_ID_def)
  have f: "HazardSafeFrontierChecks sample_safe_deps None (L1_ID (dr_Source C)) [(2, \<lparr>seal_Hash = 5, seal_Number = 7, seal_Timestamp = 100\<rparr>)] = None"
    by (simp add: c HazardSafeFrontierChecks_def safe_frontier_check_def)
      (simp add: sample_safe_deps_def sample_depset_def ChainIDFromIndex_def gm_get_def L1_ID_def)
  have b: "BlockSealFromRef (dr_Derived C) = \<lparr>seal_Hash = 4, seal_Number = 7, seal_Timestamp = 100\<rparr>"
    "l1_time (dr_Derived C) = 100" by (simp_all add: c BlockSealFromRef_def)
  have u: "cs_DependencySet sample_safe_deps = sample_depset" "cs_OpenBlock sample_safe_deps None = hd_OpenBlock sample_deps"
    "cs_UpdateCrossSafe sample_safe_deps 900 x y None = (None, Some y)" for x y by (simp_all add: sample_safe_deps_def)
  have r: "scopedCrossSafeUpdate (\<lambda>_. 0) sample_safe_deps 900 None = (C, None, Some (dr_Derived C))"
    unfolding scopedCrossSafeUpdate_def CrossSafeHazards_def c' prod.case option.case h b sample_hazards sum.case f u sample_acyclic ..
  have "opens_maps (cs_OpenBlock sample_safe_deps None)" using sample_opens by (simp add: sample_safe_deps_def)
  with scopedCrossSafeUpdate_safe [OF r] have "cs_CandidateCrossSafe sample_safe_deps None 900 = (C, None)"
    "\<exists>hz. vetted (\<lambda>_. 0) (safe_hazard_deps sample_safe_deps None (L1_ID (dr_Source C))) 900 (BlockSealFromRef (dr_Derived C)) hz"
    by auto
  moreover have "l1_number (dr_Derived C) = 7" by (simp add: c)
  ultimately show ?thesis by blast
qed

text \<open>The comment on the frontier check says that a hazard block is cross-safe already or the next block to become so. The
  code also accepts a block that is neither, when the next block of the chain has another number.\<close>

lemma frontier_accepts_other:
  assumes "ChainIDFromIndex (cs_DependencySet d) i = Inr c" and "cs_CrossDerivedToSource d s c (Seal_ID b) = Inl ErrFuture"
    and "cs_CandidateCrossSafe d s c = (cand, None)" and "l1_number (dr_Derived cand) \<noteq> seal_Number b"
    and "l1_number (dr_Source cand) \<le> bid_number scope"
  shows "HazardSafeFrontierChecks d s scope [(i, b)] = None"
  using assms by (simp add: HazardSafeFrontierChecks_def safe_frontier_check_def not_less)

end
