(* ===== verification/Spec2Isabelle.thy ===== *)
theory Spec2Isabelle
  imports Rollup_Config Channel_Assembler System_Config Batch_Stages Logs_Run Cross_Update
begin

text \<open>
  A verification development for the rollup node and the supervisor of roothash-chain.

  \<^bold>\<open>The program.\<close> The rollup node (\<^verbatim>\<open>src/rhs-node\<close>) derives an L2 chain from the data posted to L1. The
  derivation pipeline (\<^verbatim>\<open>rollup/derive\<close>) is a chain of stages, each of which pulls from the one before it: L1
  traversal walks the L1 blocks and applies updates of the system config, L1 retrieval reads the batcher data of a
  block, the frame queue splits it into frames, the channel bank (from Holocene on: the channel assembler) collects
  frames into channels, and the batch queue (from Holocene on: the batch stage) judges the batches of a channel against
  the safe head. The supervisor (\<^verbatim>\<open>src/rhs-supervisor\<close>) indexes the logs and the executing messages of each L2 chain
  in an append-only log database (\<^verbatim>\<open>supervisor/backend/db/logs\<close>) on top of a file of fixed-size entries
  (\<^verbatim>\<open>supervisor/backend/db/entrydb\<close>), and answers whether a message that another chain relies on exists. Before it
  promotes a block to cross-unsafe or cross-safe (\<^verbatim>\<open>supervisor/backend/cross\<close>), it checks every message of the block,
  the blocks with the same timestamp it depends on, and that the dependencies between their logs have no cycle.

  \<^bold>\<open>Conventions.\<close> A struct is a record whose fields carry a short prefix, an unsigned integer of the source is a word
  of its width (arithmetic wraps as in Go), a hash is a 256-bit word, a byte slice a list of 8-bit words, a Go map an
  association list without duplicate keys (\<^verbatim>\<open>Go_Prelude\<close>), an error a value of a datatype on the left of a sum or
  in an option, a panic the value \<open>None\<close> of an outer option. Mutation is explicit: an operation returns the new state.
  A later stage calls the earlier one through a function argument, which is instantiated with the earlier stage in the
  interpretations. Keccak, the L1 and L2 clients and the transaction signer are arguments of the definitions.

  \<^bold>\<open>The theories.\<close>
  \<^item> \<^verbatim>\<open>Go_Prelude\<close>: Go maps, byte codecs and the lemmas the components share. \<^verbatim>\<open>Eth_Types\<close>: block references
    (\<^verbatim>\<open>rhs-service/eth/id.go\<close>).
  \<^item> \<^verbatim>\<open>Rollup_Config\<close>: \<^verbatim>\<open>rollup/types.go\<close> and \<^verbatim>\<open>rollup/chain_spec.go\<close>. \<open>Check\<close> implies the order of the
    forks up to Isthmus; with the last forks in order too, the fork tracker names the fork of every block of a run in which
    at most one fork activates per block; block numbers and timestamps are inverse.
  \<^item> \<^verbatim>\<open>Derive_Errors\<close>: \<^verbatim>\<open>derive/error.go\<close>. \<^verbatim>\<open>Frames\<close>: \<^verbatim>\<open>derive/frame.go\<close>, with the exact language of
    \<open>ParseFrames\<close>. \<^verbatim>\<open>Frame_Queue\<close>: \<^verbatim>\<open>derive/frame_queue.go\<close>; pruning is the incremental reference fold and its
    result is contiguous.
  \<^item> \<^verbatim>\<open>Channels\<close>, \<^verbatim>\<open>Channel_Bank\<close>, \<^verbatim>\<open>Channel_Assembler\<close>: \<^verbatim>\<open>derive/channel.go\<close>, \<^verbatim>\<open>channel_bank.go\<close>,
    \<^verbatim>\<open>channel_assembler.go\<close> and \<^verbatim>\<open>channel_mux.go\<close>. Frames in any order give the data of the channel; the bank keeps
    its invariant, does not panic and is within its size limit after every frame it takes; the loop of the assembler ends on the calldata of a
    block.
  \<^item> \<^verbatim>\<open>Solabi\<close>, \<^verbatim>\<open>System_Config\<close>, \<^verbatim>\<open>L1_Stages\<close>: \<^verbatim>\<open>rhs-service/solabi/util.go\<close>,
    \<^verbatim>\<open>derive/system_config.go\<close>, \<^verbatim>\<open>l1_traversal.go\<close>, \<^verbatim>\<open>l1_retrieval.go\<close> and \<^verbatim>\<open>calldata_source.go\<close>. The logs
    that are accepted are characterised with what each does to the system config; the traversal moves only to the child of its block.
  \<^item> \<^verbatim>\<open>Batches\<close>, \<^verbatim>\<open>Batch_Stages\<close>: \<^verbatim>\<open>singular_batch.go\<close>, \<^verbatim>\<open>span_batch.go\<close>, \<^verbatim>\<open>batches.go\<close>,
    \<^verbatim>\<open>base_batch_stage.go\<close>, \<^verbatim>\<open>batch_queue.go\<close>, \<^verbatim>\<open>batch_stage.go\<close> and \<^verbatim>\<open>batch_mux.go\<close>. What an accepted batch
    satisfies, that a verdict does not depend on L1 blocks seen later, and which batch the stages return.
  \<^item> \<^verbatim>\<open>Super_Types\<close>, \<^verbatim>\<open>Entry_Store\<close>: \<^verbatim>\<open>supervisor/types\<close> and \<^verbatim>\<open>db/entrydb\<close>. After failed writes and failed
    clean-ups the file still holds the entries of the successful appends.
  \<^item> \<^verbatim>\<open>Log_Entries\<close>, \<^verbatim>\<open>Log_Context\<close>, \<^verbatim>\<open>Logs_DB\<close>: the entry formats (\<^verbatim>\<open>entry.go\<close>, \<^verbatim>\<open>entries.go\<close>), the reader
    and writer (\<^verbatim>\<open>state.go\<close>), and the database with its iterator (\<^verbatim>\<open>db.go\<close>, \<^verbatim>\<open>iterator.go\<close>).
  \<^item> \<^verbatim>\<open>Logs_Replay\<close>, \<^verbatim>\<open>Logs_Correct\<close>, \<^verbatim>\<open>Logs_Search\<close>, \<^verbatim>\<open>Logs_Queries\<close>, \<^verbatim>\<open>Logs_Blocks\<close>, \<^verbatim>\<open>Logs_Contains\<close>,
    \<^verbatim>\<open>Logs_Trim\<close>, \<^verbatim>\<open>Logs_Run\<close>: the refinement of the log database. The abstract database is a chain of sealed blocks, each with the
    logs added after it (\<open>chain_log\<close>); \<open>refines\<close> relates it to the entries through the states a reader goes through.
    \<open>SealBlock\<close> and \<open>AddLog\<close> are simulated by the abstract operations on every branch; opening the database again succeeds,
    and gives the same chain without the trim and the same sealed blocks with it (\<open>chain_trim\<close>); the entries keep the
    documented order (\<open>laid_out\<close>); and
    \<open>FindSealedBlock\<close>, \<open>OpenBlock\<close> and \<open>Contains\<close> are functions of the abstract chain, although they start from
    a checkpoint found by binary search. \<open>log_run\<close> are the runs from an empty database.
  \<^item> \<^verbatim>\<open>Dep_Set\<close>, \<^verbatim>\<open>Hazard_Set\<close>, \<^verbatim>\<open>Cycle_Check\<close>, \<^verbatim>\<open>Cross_Update\<close>: \<^verbatim>\<open>depset/static.go\<close> and
    \<^verbatim>\<open>backend/cross\<close>. A hazard set is closed under dependencies; the cycle check decides whether the graph the code
    builds is acyclic, in whatever order Go visits a map, and reports only cycles of the documented dependencies, of which
    the graph leaves out some; a block is promoted only after all checks. The databases are an
    abstract state behind a record of functions.

  \<^bold>\<open>Loops.\<close> Every loop is a total function or, where the end depends on the earlier stage (the channel assembler), a
  partial function whose termination is proved for the modelled stages. \<open>inferFull\<close> has the bound 10 of the source,
  and its exhaustion is the panic of the source; the refinement shows that it is never reached in a run. The hazard set
  grows by one chain with every block it pushes, so that its loop ends without a bound.

  \<^bold>\<open>Not modelled.\<close> The batch codec (RLP, compression, the span batch format) and everything built from go-ethereum
  transactions (attributes, deposits): their content is in libraries outside the repository. The engine controller, the
  driver, the sequencer, the event system, the RPC clients, P2P, the transaction manager, the services and the fault-proof
  host are goroutines, timers and remote calls. Bindings are generated; deployment scripts run an EVM. Locks of the
  databases are left out: an operation of the model is one critical section. The premises of \<open>log_run\<close> (no zero block
  hash, no wrap-around of block numbers and log counts, log indices below $2^{24}$) are the limits of the entry formats.
  The derivation database (\<^verbatim>\<open>db/fromda\<close>) is behind the interface of the cross-safety updates.
  Rewinding the log database is defined but not covered by the refinement.
\<close>

end
